(* ===== verification/Prelude.thy ===== *)
theory Prelude
  imports Main "HOL-Library.Word" "HOL-Library.Sublist"
begin

text \<open>
  Shared vocabulary of the development: the machine types of the C sources, the heap
  operations they use on byte buffers, and the generic facts on lists and words that the
  component theories rely on.

  A byte (\<^verbatim>\<open>char\<close>, \<^verbatim>\<open>uint8_t\<close>) is HOL's eight bit
  \<open>char\<close>; \<open>of_char\<close> reads it as an unsigned number.  \<^verbatim>\<open>size_t\<close>
  and \<^verbatim>\<open>uint64_t\<close> are \<open>64 word\<close>, so that every sum and difference of the
  sources wraps in the model exactly where it wraps in the program.
\<close>

unbundle bit_operations_syntax

named_theorems word_nat \<open>moving word arithmetic to \<open>nat\<close> where nothing wraps\<close>
named_theorems buffer_simps \<open>facts on the sliding buffers of the stream sources\<close>

type_synonym byte = char
type_synonym bytes = "char list"
type_synonym size_t = "64 word"
type_synonym uint64 = "64 word"
type_synonym uint32 = "32 word"
type_synonym uint16 = "16 word"

abbreviation NUL :: byte where
  "NUL \<equiv> CHR 0x00"


subsection \<open>Words\<close>

lemma unat_add_small [word_nat]:
  fixes a b :: "'a::len word"
  assumes "unat a + unat b < 2 ^ LENGTH('a)"
  shows "unat (a + b) = unat a + unat b"
  using assms by (simp add: unat_word_ariths)

lemma unat_sub_small [word_nat]:
  fixes a b :: "'a::len word"
  assumes "unat b \<le> unat a"
  shows "unat (a - b) = unat a - unat b"
  using assms by (simp add: unat_sub word_le_nat_alt)

lemma unat_of_nat_small [word_nat]:
  assumes "n < 2 ^ LENGTH('a)"
  shows "unat (of_nat n :: 'a::len word) = n"
  using assms by (simp add: unat_of_nat take_bit_nat_eq_self_iff)

lemma unat_add_of_nat [word_nat]:
  fixes a :: "'a::len word"
  assumes "unat a + n < 2 ^ LENGTH('a)"
  shows "unat (a + of_nat n) = unat a + n"
proof -
  have "unat (of_nat n :: 'a word) = n"
    using assms by (intro unat_of_nat_small) simp
  with assms show ?thesis
    by (simp add: unat_add_small)
qed

lemma unat_less_size [simp]: "unat (a :: size_t) < 18446744073709551616"
proof -
  have "unat a < 2 ^ LENGTH(64)"
    by (rule unsigned_less)
  then show ?thesis
    by simp
qed

lemma unat_eq_0_iff [simp]: "unat (a :: 'a::len word) = 0 \<longleftrightarrow> a = 0"
  by (simp add: unat_eq_zero)


lemma sint_nonneg_uint:
  fixes w :: "'a::len word"
  assumes "0 \<le> sint w"
  shows "uint w = sint w"
proof -
  have "sint w < 2 ^ (LENGTH('a) - Suc 0)"
    by (rule sint_less)
  also have "\<dots> < (2 :: int) ^ LENGTH('a)"
    by simp
  finally have "take_bit LENGTH('a) (sint w) = sint w"
    using assms by (simp add: take_bit_int_eq_self_iff)
  moreover have "uint (word_of_int (sint w) :: 'a word) = take_bit LENGTH('a) (sint w)"
    by (rule uint_word_of_int_eq)
  ultimately show ?thesis
    by simp
qed

lemma sint_small:
  fixes w :: uint64
  assumes "unat w < 2 ^ 63"
  shows "sint w = int (unat w)"
proof -
  have "int (unat w) < int (2 ^ 63)"
    using assms by (simp only: of_nat_less_iff)
  then have b: "uint w < 2 ^ 63"
    by simp
  have "- (2 ^ 63) \<le> uint w"
    by (rule order_trans [OF _ uint_ge_0]) simp
  then have "signed_take_bit 63 (uint w) = uint w"
    using b by (rule signed_take_bit_int_eq_self)
  then show ?thesis
    by (simp add: sint_uint)
qed

lemma sint_less_small:
  fixes v w :: uint64
  assumes "unat v < 2 ^ 63" and "unat w < 2 ^ 63"
  shows "sint v < sint w \<longleftrightarrow> unat v < unat w"
  using assms by (simp only: sint_small of_nat_less_iff)


subsection \<open>Lists\<close>

lemma take_prefix_eq:
  assumes "prefix xs ys" and "n \<le> length xs"
  shows "take n ys = take n xs"
  using assms by (auto elim!: prefixE)

lemma drop_take_append:
  "m \<le> length xs \<Longrightarrow> drop m (xs @ ys) = drop m xs @ ys"
  by simp

lemma take_add_drop: "take n xs @ take m (drop n xs) = take (n + m) xs"
  by (simp add: take_add)

lemma take_append_drop_min:
  "take n (drop p xs) @ drop (p + min (length xs - p) n) xs = drop p xs"
proof -
  have "drop (p + min (length xs - p) n) xs = drop n (drop p xs)"
    by (auto simp: min_def add.commute)
  then show ?thesis
    by (simp del: drop_drop)
qed

lemma takeWhile_append_stop:
  assumes "\<forall>x \<in> set xs. P x" and "\<not> P y"
  shows "takeWhile P (xs @ y # ys) = xs"
  using assms by (induction xs) auto

lemma dropWhile_append_stop:
  assumes "\<forall>x \<in> set xs. P x" and "\<not> P y"
  shows "dropWhile P (xs @ y # ys) = y # ys"
  using assms by (induction xs) auto


text \<open>The member of a packed struct that lies \<open>n\<close> bytes long at an offset.\<close>

definition slice :: "nat \<Rightarrow> nat \<Rightarrow> bytes \<Rightarrow> bytes" where
  "slice off n p = take n (drop off p)"


subsection \<open>The heap behind a byte buffer\<close>

text \<open>
  \<^verbatim>\<open>malloc\<close> and \<^verbatim>\<open>realloc\<close> may refuse any request and leave fresh bytes
  uninitialised.  Both choices belong to the environment: \<open>grant n\<close> says whether a request
  for \<open>n\<close> bytes succeeds and \<open>junk i\<close> is the byte found at offset \<open>i\<close> of fresh memory.
  Every theorem holds for all choices of the two.
\<close>

record heap =
  grant :: "size_t \<Rightarrow> bool"
  junk :: "nat \<Rightarrow> byte"

definition realloc :: "heap \<Rightarrow> bytes \<Rightarrow> size_t \<Rightarrow> bytes option" where
  "realloc h buf n =
     (if grant h n then Some (take (unat n) buf @ map (junk h) [length buf..<unat n]) else None)"

text \<open>
  \<open>slide buf consumed avail\<close> is the sources' "compress the buffer" step: the bytes between
  \<open>consumed\<close> and \<open>avail\<close> are moved to the front by \<^verbatim>\<open>memmove\<close>, when there are any and
  they are not there already.  \<open>buf_write buf off bs\<close> stores \<open>bs\<close> at offset \<open>off\<close>.
\<close>

definition slide :: "bytes \<Rightarrow> size_t \<Rightarrow> size_t \<Rightarrow> bytes" where
  "slide buf consumed avail =
     (if consumed \<noteq> 0 \<and> consumed < avail
      then take (unat (avail - consumed)) (drop (unat consumed) buf) @ drop (unat (avail - consumed)) buf
      else buf)"

definition buf_write :: "bytes \<Rightarrow> nat \<Rightarrow> bytes \<Rightarrow> bytes" where
  "buf_write buf off bs = take off buf @ bs @ drop (off + length bs) buf"

text \<open>The invariant all the growing buffers keep, and the bytes such a buffer holds.\<close>

definition buf_ok :: "size_t \<Rightarrow> size_t \<Rightarrow> size_t \<Rightarrow> bytes \<Rightarrow> bool" where
  "buf_ok consumed avail bufsz buf \<longleftrightarrow>
     unat consumed \<le> unat avail \<and> unat avail \<le> unat bufsz \<and> length buf = unat bufsz"

definition buf_view :: "size_t \<Rightarrow> size_t \<Rightarrow> bytes \<Rightarrow> bytes" where
  "buf_view consumed avail buf = drop (unat consumed) (take (unat avail) buf)"

lemma realloc_length:
  assumes "realloc h buf n = Some buf'" and "length buf \<le> unat n"
  shows "length buf' = unat n" and "take (length buf) buf' = buf"
  using assms by (auto simp: realloc_def split: if_splits)

lemma length_slide [simp]:
  assumes "buf_ok consumed avail bufsz buf"
  shows "length (slide buf consumed avail) = length buf"
  using assms by (auto simp: slide_def buf_ok_def unat_sub_small)

lemma length_buf_view [buffer_simps]:
  assumes "buf_ok consumed avail bufsz buf"
  shows "length (buf_view consumed avail buf) = unat avail - unat consumed"
  using assms by (simp add: buf_ok_def buf_view_def)

lemma buf_ok_empty [simp]: "buf_ok 0 0 0 []"
  by (simp add: buf_ok_def)

lemma buf_view_empty [simp]: "buf_view a a buf = []"
  by (simp add: buf_view_def)

lemma buf_view_take:
  assumes "buf_ok consumed avail bufsz buf"
  shows "take (unat avail - unat consumed) (drop (unat consumed) buf) = buf_view consumed avail buf"
  using assms by (simp add: buf_ok_def buf_view_def drop_take)

text \<open>Consuming part of the view.\<close>

lemma buf_consume:
  assumes "buf_ok consumed avail bufsz buf" and "unat c \<le> unat avail - unat consumed"
  shows "buf_ok (consumed + c) avail bufsz buf"
    and "buf_view (consumed + c) avail buf = drop (unat c) (buf_view consumed avail buf)"
    and "unat (consumed + c) = unat consumed + unat c"
proof -
  have "unat consumed + unat c \<le> unat avail"
    using assms by (auto simp: buf_ok_def)
  then have "unat consumed + unat c < 2 ^ LENGTH(64)"
    by (rule le_less_trans) simp
  then show *: "unat (consumed + c) = unat consumed + unat c"
    by (rule unat_add_small)
  show "buf_ok (consumed + c) avail bufsz buf"
    using assms * by (auto simp: buf_ok_def)
  show "buf_view (consumed + c) avail buf = drop (unat c) (buf_view consumed avail buf)"
    by (simp add: buf_view_def * add.commute [of "unat c"])
qed

lemma buf_slide:
  assumes "buf_ok consumed avail bufsz buf"
  shows "buf_ok 0 (avail - consumed) bufsz (slide buf consumed avail)"
    and "buf_view 0 (avail - consumed) (slide buf consumed avail) = buf_view consumed avail buf"
proof -
  have len: "unat (avail - consumed) = unat avail - unat consumed"
    using assms by (simp add: buf_ok_def unat_sub_small)
  show "buf_ok 0 (avail - consumed) bufsz (slide buf consumed avail)"
    using assms len by (auto simp: buf_ok_def)
  show "buf_view 0 (avail - consumed) (slide buf consumed avail) = buf_view consumed avail buf"
  proof (cases "consumed \<noteq> 0 \<and> consumed < avail")
    case True
    with assms len show ?thesis
      by (auto simp: slide_def buf_view_def buf_ok_def drop_take min_def)
  next
    case False
    then have "consumed = 0 \<or> unat avail \<le> unat consumed"
      by (simp add: word_less_nat_alt not_less)
    with False len show ?thesis
      by (auto simp: slide_def buf_view_def)
  qed
qed

lemma buf_grow:
  assumes "buf_ok 0 avail bufsz buf" and "realloc h buf (bufsz + k) = Some buf'"
    and "unat bufsz + unat k < 2 ^ 64"
  shows "buf_ok 0 avail (bufsz + k) buf'"
    and "buf_view 0 avail buf' = buf_view 0 avail buf"
proof -
  have z: "unat (bufsz + k) = unat bufsz + unat k"
    using assms(3) by (intro unat_add_small) simp
  have le: "length buf \<le> unat (bufsz + k)"
    using assms(1) z by (simp add: buf_ok_def)
  note grown = realloc_length [OF assms(2) le]
  show "buf_ok 0 avail (bufsz + k) buf'"
    using assms(1) z grown(1) by (simp add: buf_ok_def)
  have "take (unat avail) buf' = take (unat avail) (take (length buf) buf')"
    using assms(1) by (simp add: buf_ok_def min_def)
  then show "buf_view 0 avail buf' = buf_view 0 avail buf"
    by (simp add: buf_view_def grown(2))
qed

lemma buf_fill:
  assumes "buf_ok 0 avail bufsz buf" and "length got \<le> unat (bufsz - avail)"
  shows "buf_ok 0 (avail + of_nat (length got)) bufsz (buf_write buf (unat avail) got)"
    and "buf_view 0 (avail + of_nat (length got)) (buf_write buf (unat avail) got)
           = buf_view 0 avail buf @ got"
    and "unat (avail + of_nat (length got)) = unat avail + length got"
proof -
  have room: "unat avail + length got \<le> unat bufsz"
    using assms by (auto simp: buf_ok_def unat_sub_small)
  then have "unat avail + length got < 2 ^ LENGTH(64)"
    by (rule le_less_trans) simp
  then show a: "unat (avail + of_nat (length got)) = unat avail + length got"
    by (rule unat_add_of_nat)
  show "buf_ok 0 (avail + of_nat (length got)) bufsz (buf_write buf (unat avail) got)"
    using assms(1) room a by (simp add: buf_ok_def buf_write_def)
  show "buf_view 0 (avail + of_nat (length got)) (buf_write buf (unat avail) got)
          = buf_view 0 avail buf @ got"
    using assms(1) room a by (simp add: buf_view_def buf_write_def buf_ok_def)
qed

end
