(* ===== verification/CLib.thy ===== *)
theory CLib
  imports Prelude
begin

text \<open>
  The part of the C standard library that the tools call on strings and numbers, and the
  \<^verbatim>\<open>FILE\<close> objects they read.  A C string is the list of its characters up to the
  terminating NUL; a pointer into a string is the suffix that starts there and the null
  pointer is \<open>None\<close>.  \<open>cstr\<close> reads a string out of raw memory.
\<close>

subsection \<open>Strings\<close>

definition cstr :: "bytes \<Rightarrow> string" where
  "cstr bs = takeWhile (\<lambda>c. c \<noteq> NUL) bs"

text \<open>\<^verbatim>\<open>strncpy(dst, src, n)\<close> followed by \<^verbatim>\<open>dst[n] = 0\<close>.\<close>

definition strncpy_z :: "bytes \<Rightarrow> nat \<Rightarrow> string" where
  "strncpy_z src n = cstr (take n src)"

fun strchr :: "string \<Rightarrow> char \<Rightarrow> string option" where
  "strchr [] c = None"
| "strchr (x # xs) c = (if x = c then Some (x # xs) else strchr xs c)"

fun strrchr :: "string \<Rightarrow> char \<Rightarrow> string option" where
  "strrchr [] c = None"
| "strrchr (x # xs) c =
     (case strrchr xs c of Some r \<Rightarrow> Some r | None \<Rightarrow> if x = c then Some (x # xs) else None)"

text \<open>The text before a pointer into \<open>s\<close>: \<open>next - s\<close> characters of it.\<close>

definition before :: "string \<Rightarrow> string \<Rightarrow> string" where
  "before s p = take (length s - length p) s"

definition starts_with :: "string \<Rightarrow> string \<Rightarrow> bool" where
  "starts_with s t \<longleftrightarrow> take (length t) s = t"

fun strstr :: "string \<Rightarrow> string \<Rightarrow> string option" where
  "strstr s t =
     (if starts_with s t then Some s
      else case s of [] \<Rightarrow> None | _ # s' \<Rightarrow> strstr s' t)"

declare strstr.simps [simp del]

text \<open>\<open>!strncmp(s, t, n)\<close> for NUL-free strings.\<close>

definition strncmp_eq :: "string \<Rightarrow> string \<Rightarrow> nat \<Rightarrow> bool" where
  "strncmp_eq s t n \<longleftrightarrow> take n s = take n t"

definition tolower :: "char \<Rightarrow> char" where
  "tolower c = (let n = (of_char c :: nat) in if 65 \<le> n \<and> n \<le> 90 then char_of (n + 32) else c)"

definition strcasecmp_eq :: "string \<Rightarrow> string \<Rightarrow> bool" where
  "strcasecmp_eq s t \<longleftrightarrow> map tolower s = map tolower t"

text \<open>
  \<^verbatim>\<open>strtok\<close> with one delimiter: the token, and the text the static pointer is left at.
  The call with a null first argument is the same function on that text.
\<close>

definition strtok :: "string \<Rightarrow> char \<Rightarrow> string option \<times> string" where
  "strtok s d =
     (let t = dropWhile (\<lambda>c. c = d) s
      in if t = [] then (None, [])
         else (Some (takeWhile (\<lambda>c. c \<noteq> d) t), drop 1 (dropWhile (\<lambda>c. c \<noteq> d) t)))"

fun replace_char :: "string \<Rightarrow> char \<Rightarrow> char \<Rightarrow> string" where
  "replace_char [] from to = []"
| "replace_char (p # ps) from to = (if p = from then to else p) # replace_char ps from to"


subsection \<open>Numbers\<close>

definition isspace :: "char \<Rightarrow> bool" where
  "isspace c \<longleftrightarrow> c = CHR '' '' \<or> (9 \<le> (of_char c :: nat) \<and> (of_char c :: nat) \<le> 13)"

definition digit_value :: "char \<Rightarrow> nat" where
  "digit_value c =
     (let n = of_char c
      in if 48 \<le> n \<and> n \<le> 57 then n - 48
         else if 97 \<le> n \<and> n \<le> 122 then n - 87
         else if 65 \<le> n \<and> n \<le> 90 then n - 55
         else 99)"

fun scan_digits :: "nat \<Rightarrow> nat \<Rightarrow> string \<Rightarrow> nat" where
  "scan_digits b acc [] = acc"
| "scan_digits b acc (c # cs) =
     (if digit_value c < b then scan_digits b (acc * b + digit_value c) cs else acc)"

text \<open>The base a number is read in and the text after its prefix.\<close>

definition scan_base :: "nat \<Rightarrow> string \<Rightarrow> nat \<times> string" where
  "scan_base b s =
     (if (b = 0 \<or> b = 16) \<and> (starts_with s ''0x'' \<or> starts_with s ''0X'')
          \<and> (case drop 2 s of [] \<Rightarrow> False | c # _ \<Rightarrow> digit_value c < 16)
      then (16, drop 2 s)
      else if b = 0 then (if starts_with s ''0'' then (8, s) else (10, s))
      else (b, s))"

text \<open>The sign and the magnitude that the \<^verbatim>\<open>strtol\<close> family reads.\<close>

definition scan_int :: "nat \<Rightarrow> string \<Rightarrow> bool \<times> nat" where
  "scan_int b s =
     (let t = dropWhile isspace s;
          neg = starts_with t ''-'';
          u = (if neg \<or> starts_with t ''+'' then drop 1 t else t);
          (base, v) = scan_base b u
      in (neg, scan_digits base 0 v))"

definition strtoull :: "nat \<Rightarrow> string \<Rightarrow> uint64" where
  "strtoull b s =
     (let (neg, m) = scan_int b s
      in if 2 ^ 64 \<le> m then - 1 else if neg then - of_nat m else of_nat m)"

definition strtoll :: "nat \<Rightarrow> string \<Rightarrow> int" where
  "strtoll b s =
     (let (neg, m) = scan_int b s
      in if neg then max (- (2 ^ 63)) (- int m) else min (2 ^ 63 - 1) (int m))"

text \<open>Storing a 64 bit \<^verbatim>\<open>long\<close> in an \<^verbatim>\<open>int\<close>.\<close>

definition to_int32 :: "int \<Rightarrow> int" where
  "to_int32 n = (n + 2 ^ 31) mod 2 ^ 32 - 2 ^ 31"

definition atoi :: "string \<Rightarrow> int" where
  "atoi s = to_int32 (strtoll 10 s)"


subsection \<open>Files\<close>

text \<open>
  A \<^verbatim>\<open>FILE\<close> opened for reading: its bytes, its position and its two indicators.
  \<open>f_bad = Some n\<close> says that the device cannot deliver the bytes from offset \<open>n\<close> on.
\<close>

record FILE =
  f_data :: bytes
  f_pos :: nat
  f_eof :: bool
  f_err :: bool
  f_bad :: "nat option"

definition open_FILE :: "bytes \<Rightarrow> FILE" where
  "open_FILE d = \<lparr>f_data = d, f_pos = 0, f_eof = False, f_err = False, f_bad = None\<rparr>"

definition f_limit :: "FILE \<Rightarrow> nat" where
  "f_limit f = (case f_bad f of None \<Rightarrow> length (f_data f) | Some b \<Rightarrow> min b (length (f_data f)))"

text \<open>
  \<^verbatim>\<open>fread(p, 1, n, f)\<close>: the bytes read; a short count sets the error indicator when the
  device stopped the read and the end indicator when the file did.
\<close>

definition fread :: "nat \<Rightarrow> FILE \<Rightarrow> bytes \<times> FILE" where
  "fread n f =
     (let got = take n (drop (f_pos f) (take (f_limit f) (f_data f)));
          pos = f_pos f + length got;
          short = length got < n;
          broken = (short \<and> f_limit f < length (f_data f) \<and> f_limit f \<le> pos)
      in (got, f\<lparr>f_pos := pos, f_eof := f_eof f \<or> (short \<and> \<not> broken), f_err := f_err f \<or> broken\<rparr>))"

text \<open>\<^verbatim>\<open>fseek\<close> to an absolute offset; it refuses a negative one.\<close>

definition fseek_set :: "int \<Rightarrow> FILE \<Rightarrow> bool \<times> FILE" where
  "fseek_set off f = (if off < 0 then (False, f) else (True, f\<lparr>f_pos := nat off, f_eof := False\<rparr>))"

definition fseek_cur :: "int \<Rightarrow> FILE \<Rightarrow> bool \<times> FILE" where
  "fseek_cur off f = fseek_set (int (f_pos f) + off) f"

definition fseek_end :: "int \<Rightarrow> FILE \<Rightarrow> bool \<times> FILE" where
  "fseek_end off f = fseek_set (int (length (f_data f)) + off) f"


subsection \<open>Facts on strings\<close>

lemma strchr_None_iff: "strchr s c = None \<longleftrightarrow> c \<notin> set s"
  by (induction s) auto

lemma strchr_SomeD:
  assumes "strchr s c = Some p"
  shows "\<exists>xs ys. s = xs @ c # ys \<and> c \<notin> set xs \<and> p = c # ys"
  using assms
proof (induction s)
  case (Cons x s)
  show ?case
  proof (cases "x = c")
    case True
    with Cons.prems show ?thesis
      by (intro exI [of _ "[]"] exI [of _ s]) simp
  next
    case False
    with Cons obtain xs ys where "s = xs @ c # ys" "c \<notin> set xs" "p = c # ys"
      by auto
    with False show ?thesis
      by (intro exI [of _ "x # xs"] exI [of _ ys]) simp
  qed
qed simp

lemma strchr_append [simp]:
  assumes "c \<notin> set xs"
  shows "strchr (xs @ c # ys) c = Some (c # ys)"
  using assms by (induction xs) auto

lemma strchr_length:
  assumes "strchr s c = Some p"
  shows "length p \<le> length s" and "p \<noteq> []"
  using strchr_SomeD [OF assms] by auto

lemma strrchr_None_iff: "strrchr s c = None \<longleftrightarrow> c \<notin> set s"
  by (induction s) (auto split: option.splits)

lemma strrchr_append [simp]:
  assumes "c \<notin> set ys"
  shows "strrchr (xs @ c # ys) c = Some (c # ys)"
proof (induction xs)
  case Nil
  with assms have "strrchr ys c = None"
    by (simp add: strrchr_None_iff)
  then show ?case
    by simp
qed (simp add: assms)

lemma before_append [simp]: "before (xs @ ys) ys = xs"
  by (simp add: before_def)

lemma starts_with_append [simp]: "starts_with (t @ s) t"
  by (simp add: starts_with_def)

lemma starts_with_iff: "starts_with s t \<longleftrightarrow> (\<exists>r. s = t @ r)"
  by (metis append_take_drop_id append_eq_conv_conj starts_with_def)

lemma cstr_no_NUL [simp]: "NUL \<notin> set (cstr bs)"
  by (auto simp: cstr_def dest: set_takeWhileD)

lemma cstr_id: "NUL \<notin> set s \<Longrightarrow> cstr s = s"
  by (auto simp: cstr_def takeWhile_eq_all_conv)

lemma cstr_append: "NUL \<notin> set s \<Longrightarrow> cstr (s @ NUL # t) = s"
  unfolding cstr_def by (rule takeWhile_append_stop) auto

lemma strstr_SomeD:
  assumes "strstr s t = Some p"
  shows "\<exists>xs ys. s = xs @ t @ ys \<and> p = t @ ys"
  using assms
proof (induction s)
  case Nil
  then show ?case
    by (auto simp: strstr.simps [of "[]"] starts_with_iff split: if_splits)
next
  case (Cons x s)
  show ?case
  proof (cases "starts_with (x # s) t")
    case True
    with Cons.prems show ?thesis
      by (auto simp: strstr.simps [of "x # s"] starts_with_iff)
  next
    case False
    with Cons.prems have "strstr s t = Some p"
      by (simp add: strstr.simps [of "x # s"])
    then obtain xs ys where "s = xs @ t @ ys" "p = t @ ys"
      using Cons.IH by blast
    then show ?thesis
      by (intro exI [of _ "x # xs"] exI [of _ ys]) simp
  qed
qed

lemma length_replace_char [simp]: "length (replace_char s a b) = length s"
  by (induction s) auto

lemma replace_char_map: "replace_char s a b = map (\<lambda>c. if c = a then b else c) s"
  by (induction s) auto

lemma set_replace_char: "a \<noteq> b \<Longrightarrow> a \<notin> set (replace_char s a b)"
  by (auto simp: replace_char_map)


subsection \<open>Facts on files\<close>

lemma fread_plain:
  assumes "f_bad f = None"
  shows "fread n f =
    (let got = take n (drop (f_pos f) (f_data f))
     in (got, f\<lparr>f_pos := f_pos f + length got, f_eof := f_eof f \<or> length got < n\<rparr>))"
  using assms by (simp add: fread_def f_limit_def Let_def)

lemma fread_length:
  assumes "fread n f = (got, f')"
  shows "length got \<le> n" and "f_data f' = f_data f" and "f_bad f' = f_bad f"
    and "f_pos f' = f_pos f + length got"
  using assms by (auto simp: fread_def Let_def)

text \<open>A read that neither ends the file nor fails makes progress inside the file.\<close>

lemma fread_progress:
  assumes "fread n f = (got, f')" and "0 < n" and "\<not> f_eof f'" and "\<not> f_err f'"
  shows "length got = n" and "f_pos f < f_pos f'" and "f_pos f' \<le> length (f_data f)"
proof -
  show full: "length got = n"
    using assms by (auto simp: fread_def Let_def not_less)
  then show "f_pos f < f_pos f'"
    using assms(2) fread_length(4) [OF assms(1)] by simp
  have "got = take n (drop (f_pos f) (take (f_limit f) (f_data f)))"
    using assms(1) by (simp add: fread_def Let_def)
  then have "f_pos f + length got \<le> length (f_data f)"
    using full assms(2) by (auto simp: min_def split: if_splits)
  then show "f_pos f' \<le> length (f_data f)"
    using fread_length(4) [OF assms(1)] by simp
qed

end
