(* ===== verification/Stream_Iface.thy ===== *)
theory Stream_Iface
  imports CLib
begin

text \<open>
  The interface \<^verbatim>\<open>struct stream\<close> of \<^verbatim>\<open>tools/stream/stream.h\<close>.  A stream is read
  through a pointer \<^verbatim>\<open>read(s, consume, need, &len)\<close>: the caller gives back the first
  \<open>consume\<close> bytes of the view it holds, asks for a view of at least \<open>need\<close> bytes and gets
  a pointer and the length of the new view.  A call that never returns is \<open>None\<close>.  The function pointer of the struct is a
  parameter of the model (a \<open>reader\<close>), and the contract that the sources and filters keep
  for each other is the locale \<open>byte_stream\<close>: \<open>pending\<close> is what the stream has still to
  deliver and \<open>view\<close> how much of it the caller may consume.
\<close>

type_synonym 's reader = "'s \<Rightarrow> size_t \<Rightarrow> size_t \<Rightarrow> ('s \<times> bytes option \<times> size_t) option"

text \<open>
  What an \<^verbatim>\<open>open_...\<close> function does with the stream it wraps: it returns the new stream,
  or a null pointer after closing the source it was given, or a null pointer because the source
  was null already.
\<close>

datatype ('a, 's) open_result = Opened 'a | Null_closed 's | Null

text \<open>
  No stream delivers more than \<open>max_stream\<close> bytes and no caller asks for more than
  \<open>max_need\<close>; both are far from the point where \<^verbatim>\<open>size_t\<close> sums wrap.
\<close>

definition max_stream :: nat where
  "max_stream = 2 ^ 61"

definition max_need :: nat where
  "max_need = 2 ^ 62"

locale byte_stream =
  fixes rd :: "'s \<Rightarrow> size_t \<Rightarrow> size_t \<Rightarrow> ('s \<times> bytes option \<times> size_t) option"
    and ok :: "'s \<Rightarrow> bool"
    and pending :: "'s \<Rightarrow> bytes"
    and view :: "'s \<Rightarrow> nat"
  assumes pending_bound: "ok s \<Longrightarrow> length (pending s) \<le> max_stream"
    and view_bound: "ok s \<Longrightarrow> view s \<le> length (pending s)"
    and rd_inv: "ok s \<Longrightarrow> unat c \<le> view s \<Longrightarrow> unat n \<le> max_need \<Longrightarrow>
      rd s c n = Some (s', Some p, len) \<Longrightarrow> ok s'"
    and rd_pending: "ok s \<Longrightarrow> unat c \<le> view s \<Longrightarrow> unat n \<le> max_need \<Longrightarrow>
      rd s c n = Some (s', Some p, len) \<Longrightarrow> pending s' = drop (unat c) (pending s)"
    and rd_view: "ok s \<Longrightarrow> unat c \<le> view s \<Longrightarrow> unat n \<le> max_need \<Longrightarrow>
      rd s c n = Some (s', Some p, len) \<Longrightarrow> view s' = unat len"
    and rd_data: "ok s \<Longrightarrow> unat c \<le> view s \<Longrightarrow> unat n \<le> max_need \<Longrightarrow>
      rd s c n = Some (s', Some p, len) \<Longrightarrow> take (unat len) p = take (unat len) (pending s')"
    and rd_need: "ok s \<Longrightarrow> unat c \<le> view s \<Longrightarrow> unat n \<le> max_need \<Longrightarrow>
      rd s c n = Some (s', Some p, len) \<Longrightarrow> min (unat n) (length (pending s')) \<le> unat len"
    and rd_null: "ok s \<Longrightarrow> unat c \<le> view s \<Longrightarrow> unat n \<le> max_need \<Longrightarrow>
      rd s c n = Some (s', None, len) \<Longrightarrow> len = 0"
    and rd_returns: "ok s \<Longrightarrow> unat c \<le> view s \<Longrightarrow> unat n \<le> max_need \<Longrightarrow> \<exists>r. rd s c n = Some r"
begin

lemmas rd_laws = rd_inv rd_pending rd_view rd_data rd_need

lemma rd_len:
  assumes "ok s" "unat c \<le> view s" "unat n \<le> max_need" "rd s c n = Some (s', Some p, len)"
  shows "unat len \<le> length (pending s')" and "unat len \<le> max_stream"
    and "length (take (unat len) p) = unat len"
proof -
  have "view s' \<le> length (pending s')" "length (pending s') \<le> max_stream"
    using rd_inv [OF assms] view_bound pending_bound by blast+
  then show le: "unat len \<le> length (pending s')" and "unat len \<le> max_stream"
    using rd_view [OF assms] by auto
  show "length (take (unat len) p) = unat len"
    using rd_data [OF assms] le by simp
qed

text \<open>A view of length 0, on a request for at least one byte, is the end of the stream.\<close>

lemma rd_end:
  assumes "ok s" "unat c \<le> view s" "unat n \<le> max_need" "rd s c n = Some (s', Some p, 0)" "n \<noteq> 0"
  shows "pending s' = []"
  using rd_need [OF assms(1-4)] assms(5) by (auto simp: min_def split: if_splits)

end

text \<open>The form in which the streams below prove the contract.\<close>

definition rd_post :: "('s \<Rightarrow> bool) \<Rightarrow> ('s \<Rightarrow> bytes) \<Rightarrow> ('s \<Rightarrow> nat) \<Rightarrow> bytes \<Rightarrow> size_t \<Rightarrow> 's \<Rightarrow> bytes \<Rightarrow> size_t \<Rightarrow> bool" where
  "rd_post ok pending view rest n s' p len \<longleftrightarrow>
     ok s' \<and> pending s' = rest \<and> view s' = unat len
     \<and> take (unat len) p = take (unat len) rest \<and> min (unat n) (length rest) \<le> unat len"

lemma byte_streamI:
  assumes "\<And>s. ok s \<Longrightarrow> length (pending s) \<le> max_stream \<and> view s \<le> length (pending s)"
    and "\<And>s c n s' p len. ok s \<Longrightarrow> unat c \<le> view s \<Longrightarrow> unat n \<le> max_need \<Longrightarrow>
      rd s c n = Some (s', Some p, len) \<Longrightarrow> rd_post ok pending view (drop (unat c) (pending s)) n s' p len"
    and "\<And>s c n s' len. ok s \<Longrightarrow> unat c \<le> view s \<Longrightarrow> unat n \<le> max_need \<Longrightarrow>
      rd s c n = Some (s', None, len) \<Longrightarrow> len = 0"
    and "\<And>s c n. ok s \<Longrightarrow> unat c \<le> view s \<Longrightarrow> unat n \<le> max_need \<Longrightarrow> \<exists>r. rd s c n = Some r"
  shows "byte_stream rd ok pending view"
proof (unfold_locales, goal_cases)
  case (1 s)
  then show ?case using assms(1) by blast
next
  case (2 s)
  then show ?case using assms(1) by blast
next
  case (3 s c n s' p len)
  then show ?case using assms(2) unfolding rd_post_def by blast
next
  case (4 s c n s' p len)
  then show ?case using assms(2) unfolding rd_post_def by blast
next
  case (5 s c n s' p len)
  then show ?case using assms(2) unfolding rd_post_def by blast
next
  case (6 s c n s' p len)
  then show ?case using assms(2) unfolding rd_post_def by metis
next
  case (7 s c n s' p len)
  then show ?case using assms(2) unfolding rd_post_def by metis
next
  case (8 s c n s' len)
  then show ?case using assms(3) by blast
next
  case (9 s c n)
  then show ?case using assms(4) by blast
qed

context byte_stream
begin

lemma rd_postI:
  "ok s \<Longrightarrow> unat c \<le> view s \<Longrightarrow> unat n \<le> max_need \<Longrightarrow> rd s c n = Some (s', Some p, len)
    \<Longrightarrow> rd_post ok pending view (drop (unat c) (pending s)) n s' p len"
  unfolding rd_post_def by (metis rd_laws)

end

text \<open>
  A stream that never reports an error.  Filters that buffer (the decoders) take the null view
  of a failing source for the end of its data, so they need this stronger contract.
\<close>

locale reliable_stream = byte_stream +
  assumes rd_never_null: "ok s \<Longrightarrow> unat c \<le> view s \<Longrightarrow> unat n \<le> max_need \<Longrightarrow>
    rd s c n = Some (s', p, len) \<Longrightarrow> p \<noteq> None"
begin

lemma rd_reliable:
  assumes "ok s" and "unat c \<le> view s" and "unat n \<le> max_need"
  shows "\<exists>s' p len. rd s c n = Some (s', Some p, len)
    \<and> rd_post ok pending view (drop (unat c) (pending s)) n s' p len"
proof -
  obtain s' p len where r: "rd s c n = Some (s', p, len)"
    using rd_returns [OF assms] by auto
  moreover from r obtain b where "p = Some b"
    using rd_never_null [OF assms] by blast
  ultimately show ?thesis
    using rd_postI [OF assms] by blast
qed

text \<open>A property that every read keeps can be added to the invariant.\<close>

lemma with_frame:
  assumes "\<And>s c n s' p len. rd s c n = Some (s', p, len) \<Longrightarrow> Q s \<Longrightarrow> Q s'"
  shows "reliable_stream rd (\<lambda>s. ok s \<and> Q s) pending view"
proof (intro reliable_stream.intro reliable_stream_axioms.intro byte_streamI)
  fix s s' c n p len
  assume "ok s \<and> Q s" "unat c \<le> view s" "unat n \<le> max_need" "rd s c n = Some (s', Some p, len)"
  then show "rd_post (\<lambda>s. ok s \<and> Q s) pending view (drop (unat c) (pending s)) n s' p len"
    using rd_postI [of s c n s' p len] assms [of s c n s' "Some p" len] by (simp add: rd_post_def)
qed (use pending_bound view_bound rd_null rd_returns rd_never_null in blast)+

end

lemma max_need_small [simp]: "unat (n :: size_t) \<le> max_stream \<Longrightarrow> unat n \<le> max_need"
  by (simp add: max_stream_def max_need_def)

lemma max_need_numeral [simp]: "unat (1 :: size_t) \<le> max_need" "unat (0 :: size_t) \<le> max_need"
    "unat (512 :: size_t) \<le> max_need"
  by (simp_all add: max_need_def)

end
