(* ===== verification/Sources.thy ===== *)
theory Sources
  imports Stream_Iface
begin

text \<open>
  The two sources of data that own their buffer: \<^verbatim>\<open>tools/stream/source-buffer.c\<close> (a
  stream over bytes in memory) and \<^verbatim>\<open>tools/stream/source-file.c\<close> (a stream over a
  \<^verbatim>\<open>FILE\<close>, with a buffer that slides and grows).  Both are interpretations of
  \<open>byte_stream\<close>.
\<close>

subsection \<open>source-buffer.c\<close>

record buf_stream =
  bs_next :: bytes
  bs_remaining :: size_t

definition read_buffer :: "buf_stream reader" where
  "read_buffer bs consume need =
     (let bs' = bs\<lparr>bs_next := drop (unat consume) (bs_next bs), bs_remaining := bs_remaining bs - consume\<rparr>
      in Some (bs', Some (bs_next bs'), bs_remaining bs'))"

definition open_buffer_stream :: "heap \<Rightarrow> bytes \<Rightarrow> size_t \<Rightarrow> buf_stream option" where
  "open_buffer_stream h data sz =
     (if grant h 32 then Some \<lparr>bs_next = data, bs_remaining = sz\<rparr> else None)"

definition buffer_inv :: "buf_stream \<Rightarrow> bool" where
  "buffer_inv bs \<longleftrightarrow> unat (bs_remaining bs) \<le> length (bs_next bs) \<and> unat (bs_remaining bs) \<le> max_stream"

definition buffer_pending :: "buf_stream \<Rightarrow> bytes" where
  "buffer_pending bs = take (unat (bs_remaining bs)) (bs_next bs)"

definition buffer_view :: "buf_stream \<Rightarrow> nat" where
  "buffer_view bs = unat (bs_remaining bs)"


subsection \<open>source-file.c\<close>

text \<open>
  \<open>fs_open\<close> says whether the member \<open>f\<close> of the struct is still non-null; \<open>fs_f\<close> is the
  object it points (or pointed) to, which belongs to the caller of \<^verbatim>\<open>open_file_stream\<close>.
\<close>

record file_stream =
  fs_f :: FILE
  fs_open :: bool
  fs_avail :: size_t
  fs_bufsz :: size_t
  fs_consumed :: size_t
  fs_buf :: bytes

text \<open>The growth step of the read loop: \<open>None\<close> when \<^verbatim>\<open>realloc\<close> fails.\<close>

definition file_grow :: "heap \<Rightarrow> file_stream \<Rightarrow> file_stream option" where
  "file_grow h fs =
     (if fs_avail fs = fs_bufsz fs
      then let bufsz = fs_bufsz fs + 32 * 1024
           in case realloc h (fs_buf fs) bufsz of
                None \<Rightarrow> None
              | Some buf \<Rightarrow> Some (fs\<lparr>fs_buf := buf, fs_bufsz := bufsz\<rparr>)
      else Some fs)"

definition file_fill :: "file_stream \<Rightarrow> file_stream" where
  "file_fill fs =
     (let (got, f) = fread (unat (fs_bufsz fs - fs_avail fs)) (fs_f fs)
      in fs\<lparr>fs_buf := buf_write (fs_buf fs) (unat (fs_avail fs)) got,
            fs_avail := fs_avail fs + of_nat (length got), fs_f := f\<rparr>)"

definition file_fail :: "file_stream \<Rightarrow> file_stream \<times> bytes option \<times> size_t" where
  "file_fail fs = (fs\<lparr>fs_open := False\<rparr>, None, 0)"

lemma file_grow_room:
  assumes "file_grow h fs = Some fs1"
  shows "fs_avail fs1 \<noteq> fs_bufsz fs1" and "fs_f fs1 = fs_f fs"
  using assms by (auto simp: file_grow_def Let_def split: if_splits option.splits)

lemma file_fill_progress:
  assumes "fs_avail fs \<noteq> fs_bufsz fs"
    and "\<not> f_err (fs_f (file_fill fs))" and "\<not> f_eof (fs_f (file_fill fs))"
  shows "length (f_data (fs_f (file_fill fs))) - f_pos (fs_f (file_fill fs))
           < length (f_data (fs_f fs)) - f_pos (fs_f fs)"
proof -
  obtain got f where r: "fread (unat (fs_bufsz fs - fs_avail fs)) (fs_f fs) = (got, f)"
    by fastforce
  then have f: "fs_f (file_fill fs) = f"
    by (simp add: file_fill_def)
  have "0 < unat (fs_bufsz fs - fs_avail fs)"
    using assms(1) by (simp add: unat_gt_0)
  note progress = fread_progress [OF r this]
  then show ?thesis
    using assms fread_length [OF r] f by fastforce
qed

function read_file_loop :: "heap \<Rightarrow> file_stream \<Rightarrow> size_t \<Rightarrow> file_stream \<times> bytes option \<times> size_t" where
  "read_file_loop h fs need =
     (case file_grow h fs of
        None \<Rightarrow> file_fail fs
      | Some fs1 \<Rightarrow>
          let fs2 = file_fill fs1
          in if f_err (fs_f fs2) then file_fail fs2
             else if f_eof (fs_f fs2) then (fs2\<lparr>fs_open := False\<rparr>, Some (fs_buf fs2), fs_avail fs2)
             else if fs_avail fs2 < need then read_file_loop h fs2 need
             else (fs2, Some (fs_buf fs2), fs_avail fs2))"
  by pat_completeness auto
termination
proof (relation "measure (\<lambda>(h, fs, need). length (f_data (fs_f fs)) - f_pos (fs_f fs))", goal_cases)
  case (2 h fs need fs1 fs2)
  then show ?case
    using file_fill_progress [of fs1] file_grow_room [of h fs fs1] by auto
qed simp

declare read_file_loop.simps [simp del]

text \<open>
  A read of a fresh stream that needs nothing shows an empty view: in C the pointer to it is the null buffer, with
  length 0.
\<close>

definition read_file :: "heap \<Rightarrow> file_stream reader" where
  "read_file h fs consume need =
     (let fs1 = fs\<lparr>fs_consumed := fs_consumed fs + consume\<rparr>
      in if \<not> fs_open fs1 \<or> fs_consumed fs1 + need \<le> fs_avail fs1
         then Some (fs1, Some (drop (unat (fs_consumed fs1)) (fs_buf fs1)), fs_avail fs1 - fs_consumed fs1)
         else Some (read_file_loop h
                (fs1\<lparr>fs_buf := slide (fs_buf fs1) (fs_consumed fs1) (fs_avail fs1),
                     fs_avail := fs_avail fs1 - fs_consumed fs1, fs_consumed := 0\<rparr>) need))"

definition close_file :: "file_stream \<Rightarrow> FILE" where
  "close_file fs = fs_f fs"

definition open_file_stream :: "heap \<Rightarrow> FILE \<Rightarrow> file_stream option" where
  "open_file_stream h f =
     (if grant h 56
      then Some \<lparr>fs_f = f, fs_open = True, fs_avail = 0, fs_bufsz = 0, fs_consumed = 0, fs_buf = []\<rparr>
      else None)"

text \<open>
  The state a \<^verbatim>\<open>file_stream\<close> is in between calls when the device never fails: the unread
  part of the file and the buffered bytes together stay within the stream bound.
\<close>

definition file_rest :: "file_stream \<Rightarrow> bytes" where
  "file_rest fs = (if fs_open fs then drop (f_pos (fs_f fs)) (f_data (fs_f fs)) else [])"

definition file_pending :: "file_stream \<Rightarrow> bytes" where
  "file_pending fs = buf_view (fs_consumed fs) (fs_avail fs) (fs_buf fs) @ file_rest fs"

definition file_core :: "file_stream \<Rightarrow> bool" where
  "file_core fs \<longleftrightarrow>
     buf_ok (fs_consumed fs) (fs_avail fs) (fs_bufsz fs) (fs_buf fs)
     \<and> f_bad (fs_f fs) = None \<and> \<not> f_err (fs_f fs)
     \<and> f_pos (fs_f fs) \<le> length (f_data (fs_f fs))
     \<and> length (file_pending fs) \<le> max_stream
     \<and> unat (fs_bufsz fs) \<le> max_stream + 32 * 1024"

definition file_inv :: "file_stream \<Rightarrow> bool" where
  "file_inv fs \<longleftrightarrow> file_core fs \<and> (fs_open fs \<longrightarrow> \<not> f_eof (fs_f fs))"

definition file_view :: "file_stream \<Rightarrow> nat" where
  "file_view fs = unat (fs_avail fs) - unat (fs_consumed fs)"


subsection \<open>The buffer source keeps the contract\<close>

lemma read_buffer_ok:
  assumes "buffer_inv s" and "unat c \<le> buffer_view s" and "read_buffer s c n = Some (s', Some p, len)"
  shows "rd_post buffer_inv buffer_pending buffer_view (drop (unat c) (buffer_pending s)) n s' p len"
proof -
  have s': "bs_next s' = drop (unat c) (bs_next s)" "bs_remaining s' = bs_remaining s - c"
    and p: "p = bs_next s'" and len: "len = bs_remaining s'"
    using assms(3) by (auto simp: read_buffer_def Let_def)
  have rem: "unat (bs_remaining s') = unat (bs_remaining s) - unat c"
    using assms(2) s' by (simp add: buffer_view_def unat_sub_small)
  have pend: "buffer_pending s' = drop (unat c) (buffer_pending s)"
    using s' rem by (simp add: buffer_pending_def drop_take)
  have "buffer_inv s'"
    using assms(1) s' rem by (auto simp: buffer_inv_def)
  with pend show ?thesis
    unfolding rd_post_def pend [symmetric] using p len by (simp add: buffer_pending_def buffer_view_def)
qed

interpretation buffer: byte_stream read_buffer buffer_inv buffer_pending buffer_view
proof (rule byte_streamI)
  fix s s' :: buf_stream and c n len :: size_t
  assume "read_buffer s c n = Some (s', None, len)"
  then show "len = 0"
    by (simp add: read_buffer_def Let_def)
next
  fix s :: buf_stream
  assume "buffer_inv s"
  then show "length (buffer_pending s) \<le> max_stream \<and> buffer_view s \<le> length (buffer_pending s)"
    by (simp add: buffer_inv_def buffer_pending_def buffer_view_def)
qed (rule read_buffer_ok, auto simp: read_buffer_def Let_def)


subsection \<open>The file source keeps the contract\<close>

lemma file_grow_inv:
  assumes "file_core fs" and "fs_consumed fs = 0" and "file_grow h fs = Some fs1"
  shows "file_core fs1" and "file_pending fs1 = file_pending fs" and "fs_consumed fs1 = 0"
    and "fs_open fs1 = fs_open fs" and "fs_avail fs1 = fs_avail fs" and "fs_f fs1 = fs_f fs"
proof -
  have "file_core fs1 \<and> file_pending fs1 = file_pending fs \<and> fs_consumed fs1 = 0
        \<and> fs_open fs1 = fs_open fs \<and> fs_avail fs1 = fs_avail fs \<and> fs_f fs1 = fs_f fs"
  proof (cases "fs_avail fs = fs_bufsz fs")
    case True
    with assms(3) obtain buf where buf: "realloc h (fs_buf fs) (fs_bufsz fs + 32768) = Some buf"
      and fs1: "fs1 = fs\<lparr>fs_buf := buf, fs_bufsz := fs_bufsz fs + 32768\<rparr>"
      by (auto simp: file_grow_def Let_def split: option.splits)
    have ok: "buf_ok 0 (fs_avail fs) (fs_bufsz fs) (fs_buf fs)"
      using assms(1,2) by (simp add: file_core_def)
    have le: "unat (fs_bufsz fs) \<le> max_stream"
      using assms(1,2) True length_buf_view [OF ok] by (simp add: file_core_def file_pending_def)
    have sum: "unat (fs_bufsz fs) + unat (32768 :: size_t) < 2 ^ 64"
      using le by (simp add: max_stream_def)
    then have "unat (fs_bufsz fs + 32768) = unat (fs_bufsz fs) + 32768"
      by (subst unat_add_small) simp_all
    moreover have "file_pending fs1 = file_pending fs"
      using buf_grow(2) [OF ok buf sum] assms(2) fs1 by (simp add: file_pending_def file_rest_def)
    ultimately show ?thesis
      using buf_grow(1) [OF ok buf sum] le assms(1,2) fs1 by (simp add: file_core_def)
  qed (use assms in \<open>simp add: file_grow_def\<close>)
  then show "file_core fs1" "file_pending fs1 = file_pending fs" "fs_consumed fs1 = 0"
    "fs_open fs1 = fs_open fs" "fs_avail fs1 = fs_avail fs" "fs_f fs1 = fs_f fs"
    by auto
qed

lemma file_fill_inv:
  assumes "file_core fs" and "fs_consumed fs = 0" and "fs_open fs"
  shows "file_core (file_fill fs)" and "file_pending (file_fill fs) = file_pending fs"
    and "fs_consumed (file_fill fs) = 0" and "fs_open (file_fill fs)"
    and "f_eof (fs_f (file_fill fs)) \<Longrightarrow> \<not> f_eof (fs_f fs) \<Longrightarrow> file_rest (file_fill fs) = []"
proof -
  let ?n = "unat (fs_bufsz fs - fs_avail fs)" and ?f = "fs_f fs"
  let ?got = "take ?n (drop (f_pos ?f) (f_data ?f))"
  have ok: "buf_ok 0 (fs_avail fs) (fs_bufsz fs) (fs_buf fs)"
    and f: "f_bad ?f = None" "f_pos ?f \<le> length (f_data ?f)" "\<not> f_err ?f"
    using assms by (auto simp: file_core_def)
  have fill: "file_fill fs = fs\<lparr>fs_buf := buf_write (fs_buf fs) (unat (fs_avail fs)) ?got,
      fs_avail := fs_avail fs + of_nat (length ?got),
      fs_f := ?f\<lparr>f_pos := f_pos ?f + length ?got, f_eof := f_eof ?f \<or> length ?got < ?n\<rparr>\<rparr>"
    using fread_plain [OF f(1), of ?n] by (simp add: file_fill_def Let_def)
  have "length ?got \<le> ?n"
    by simp
  note filled = buf_fill [OF ok this]
  show pend: "file_pending (file_fill fs) = file_pending fs"
    unfolding fill using filled(2) assms by (simp add: file_pending_def file_rest_def take_append_drop_min)
  show "file_core (file_fill fs)"
    using pend filled(1) f assms unfolding fill by (simp add: file_core_def)
  show "fs_consumed (file_fill fs) = 0" "fs_open (file_fill fs)"
    using assms unfolding fill by simp_all
  show "f_eof (fs_f (file_fill fs)) \<Longrightarrow> \<not> f_eof (fs_f fs) \<Longrightarrow> file_rest (file_fill fs) = []"
    using f unfolding fill by (auto simp: file_rest_def)
qed

lemma file_stop:
  assumes "file_core fs" and "file_rest fs = []"
  shows "file_inv (fs\<lparr>fs_open := False\<rparr>)" and "file_pending (fs\<lparr>fs_open := False\<rparr>) = file_pending fs"
  using assms by (simp_all add: file_inv_def file_core_def file_pending_def file_rest_def)

lemma file_buffered:
  assumes "file_core fs"
  shows "take (file_view fs) (drop (unat (fs_consumed fs)) (fs_buf fs)) = take (file_view fs) (file_pending fs)"
    and "file_view fs \<le> length (file_pending fs)"
    and "file_rest fs = [] \<Longrightarrow> file_view fs = length (file_pending fs)"
proof -
  have ok: "buf_ok (fs_consumed fs) (fs_avail fs) (fs_bufsz fs) (fs_buf fs)"
    using assms by (simp add: file_core_def)
  note facts = length_buf_view [OF ok] buf_view_take [OF ok]
  then show "take (file_view fs) (drop (unat (fs_consumed fs)) (fs_buf fs)) = take (file_view fs) (file_pending fs)"
    "file_view fs \<le> length (file_pending fs)"
    "file_rest fs = [] \<Longrightarrow> file_view fs = length (file_pending fs)"
    by (simp_all add: file_view_def file_pending_def)
qed

text \<open>The loop delivers the whole request or the end of the file, and loses nothing.\<close>

lemma read_file_loop_ok:
  assumes "file_inv fs" and "fs_open fs" and "fs_consumed fs = 0"
    and "read_file_loop h fs need = (fs', Some p, len)"
  shows "rd_post file_inv file_pending file_view (file_pending fs) need fs' p len"
  using assms
proof (induction h fs need rule: read_file_loop.induct)
  case (1 h fs need)
  obtain fs1 where g: "file_grow h fs = Some fs1"
    using "1.prems"(4) by (auto simp: read_file_loop.simps [of h fs] file_fail_def split: option.splits)
  let ?fs2 = "file_fill fs1"
  have core: "file_core fs"
    using "1.prems"(1) by (simp add: file_inv_def)
  note g1 = file_grow_inv [OF core "1.prems"(3) g]
  have o1: "fs_open fs1"
    using g1(4) "1.prems"(2) by simp
  note f2 = file_fill_inv [OF g1(1,3) o1]
  note b2 = file_buffered [OF f2(1)]
  have v2: "file_view ?fs2 = unat (fs_avail ?fs2)"
    using f2(3) by (simp add: file_view_def)
  have ne: "\<not> f_eof (fs_f fs1)"
    using "1.prems"(1,2) g1(6) by (simp add: file_inv_def)
  have run: "(if f_err (fs_f ?fs2) then file_fail ?fs2
      else if f_eof (fs_f ?fs2) then (?fs2\<lparr>fs_open := False\<rparr>, Some (fs_buf ?fs2), fs_avail ?fs2)
      else if fs_avail ?fs2 < need then read_file_loop h ?fs2 need
      else (?fs2, Some (fs_buf ?fs2), fs_avail ?fs2)) = (fs', Some p, len)"
    using "1.prems"(4) g by (simp add: read_file_loop.simps [of h fs] Let_def)
  have noerr: "\<not> f_err (fs_f ?fs2)"
    using f2(1) by (simp add: file_core_def)
  consider (eof) "f_eof (fs_f ?fs2)" | (more) "\<not> f_eof (fs_f ?fs2)" "fs_avail ?fs2 < need"
    | (enough) "\<not> f_eof (fs_f ?fs2)" "\<not> fs_avail ?fs2 < need"
    by blast
  then show ?case
  proof cases
    case eof
    have fs': "fs' = ?fs2\<lparr>fs_open := False\<rparr>" and p: "p = fs_buf ?fs2" and len: "len = fs_avail ?fs2"
      using run noerr eof by auto
    note stop = file_stop [OF f2(1) f2(5) [OF eof ne]]
    have "file_view fs' = unat len"
      using v2 fs' len by (simp add: file_view_def)
    then show ?thesis
      using stop b2 v2 f2 g1 fs' p len f2(5) [OF eof ne] by (simp add: rd_post_def)
  next
    case more
    have inv2: "file_inv ?fs2"
      using f2(1) more by (simp add: file_inv_def)
    have "read_file_loop h ?fs2 need = (fs', Some p, len)"
      using run noerr more by simp
    from "1.IH" [OF g refl noerr more inv2 f2(4,3) this] show ?thesis
      using f2(2) g1(2) by simp
  next
    case enough
    have fs': "fs' = ?fs2" and p: "p = fs_buf ?fs2" and len: "len = fs_avail ?fs2"
      using run noerr enough by auto
    have "unat need \<le> unat len"
      using enough(2) len by (simp add: word_less_nat_alt)
    then show ?thesis
      using b2 v2 f2 g1 fs' p len enough(1) by (simp add: file_inv_def rd_post_def)
  qed
qed

lemma read_file_loop_null:
  "read_file_loop h fs need = (fs', None, len) \<Longrightarrow> len = 0"
proof (induction h fs need rule: read_file_loop.induct)
  case (1 h fs need)
  then show ?case
    by (auto simp: read_file_loop.simps [of h fs] file_fail_def Let_def split: option.splits if_splits)
qed

lemma file_consume:
  assumes "file_inv fs" and "unat c \<le> file_view fs"
  shows "file_inv (fs\<lparr>fs_consumed := fs_consumed fs + c\<rparr>)"
    and "file_pending (fs\<lparr>fs_consumed := fs_consumed fs + c\<rparr>) = drop (unat c) (file_pending fs)"
proof -
  let ?fs1 = "fs\<lparr>fs_consumed := fs_consumed fs + c\<rparr>"
  have ok: "buf_ok (fs_consumed fs) (fs_avail fs) (fs_bufsz fs) (fs_buf fs)"
    using assms(1) by (simp add: file_inv_def file_core_def)
  have cv: "unat c \<le> unat (fs_avail fs) - unat (fs_consumed fs)"
    using assms(2) by (simp add: file_view_def)
  note con = buf_consume [OF ok cv]
  show "file_pending ?fs1 = drop (unat c) (file_pending fs)"
    using con(2) cv length_buf_view [OF ok] by (simp add: file_pending_def file_rest_def)
  then show "file_inv ?fs1"
    using assms(1) con(1) by (auto simp: file_inv_def file_core_def)
qed

lemma file_slide:
  assumes "file_inv fs"
  defines "fs2 \<equiv> fs\<lparr>fs_buf := slide (fs_buf fs) (fs_consumed fs) (fs_avail fs),
      fs_avail := fs_avail fs - fs_consumed fs, fs_consumed := 0\<rparr>"
  shows "file_inv fs2" and "file_pending fs2 = file_pending fs"
proof -
  have ok: "buf_ok (fs_consumed fs) (fs_avail fs) (fs_bufsz fs) (fs_buf fs)"
    using assms(1) by (simp add: file_inv_def file_core_def)
  show "file_pending fs2 = file_pending fs"
    using buf_slide(2) [OF ok] by (simp add: file_pending_def file_rest_def fs2_def)
  then show "file_inv fs2"
    using assms(1) buf_slide(1) [OF ok] by (simp add: file_inv_def file_core_def fs2_def)
qed

lemma read_file_ok:
  assumes "file_inv fs" and "unat c \<le> file_view fs" and "unat n \<le> max_need"
    and "read_file h fs c n = Some (fs', Some p, len)"
  shows "rd_post file_inv file_pending file_view (drop (unat c) (file_pending fs)) n fs' p len"
proof -
  let ?fs1 = "fs\<lparr>fs_consumed := fs_consumed fs + c\<rparr>"
  note inv1 = file_consume(1) [OF assms(1,2)] and pend1 = file_consume(2) [OF assms(1,2)]
  then have core1: "file_core ?fs1"
    by (simp add: file_inv_def)
  note b1 = file_buffered [OF core1]
  have le: "unat (fs_consumed ?fs1) \<le> unat (fs_avail ?fs1)"
    using core1 by (simp add: file_core_def buf_ok_def)
  show ?thesis
  proof (cases "\<not> fs_open ?fs1 \<or> fs_consumed ?fs1 + n \<le> fs_avail ?fs1")
    case True
    then have fs': "fs' = ?fs1" "p = drop (unat (fs_consumed ?fs1)) (fs_buf ?fs1)"
      "len = fs_avail ?fs1 - fs_consumed ?fs1"
      using assms(4) by (auto simp: read_file_def Let_def split: if_splits)
    have len: "unat len = file_view ?fs1"
      using fs'(3) le by (simp add: file_view_def unat_sub_small)
    have "min (unat n) (length (file_pending ?fs1)) \<le> file_view ?fs1"
    proof (cases "fs_open ?fs1")
      case False
      then show ?thesis
        using b1(3) by (simp add: file_rest_def)
    next
      case open_: True
      have "unat (fs_consumed ?fs1) \<le> max_stream + max_stream"
        using core1 le by (auto simp: file_core_def buf_ok_def max_stream_def)
      then have "unat (fs_consumed ?fs1) + unat n < 2 ^ LENGTH(64)"
        using assms(3) by (simp add: max_stream_def max_need_def)
      then have "unat (fs_consumed ?fs1 + n) = unat (fs_consumed ?fs1) + unat n"
        by (rule unat_add_small)
      then show ?thesis
        using True open_ by (simp add: file_view_def word_le_nat_alt)
    qed
    then show ?thesis
      using inv1 pend1 b1 fs' len by (simp add: rd_post_def)
  next
    case False
    then have "read_file_loop h (?fs1\<lparr>fs_buf := slide (fs_buf ?fs1) (fs_consumed ?fs1) (fs_avail ?fs1),
        fs_avail := fs_avail ?fs1 - fs_consumed ?fs1, fs_consumed := 0\<rparr>) n = (fs', Some p, len)"
      using assms(4) by (simp add: read_file_def Let_def)
    from read_file_loop_ok [OF file_slide(1) [OF inv1] _ _ this] show ?thesis
      using False pend1 file_slide(2) [OF inv1] by simp
  qed
qed

interpretation disk: byte_stream "read_file h" file_inv file_pending file_view for h
proof (rule byte_streamI)
  fix s s' :: file_stream and c n len :: size_t
  assume "read_file h s c n = Some (s', None, len)"
  then show "len = 0"
    by (auto simp: read_file_def Let_def split: if_splits dest: read_file_loop_null)
next
  fix s :: file_stream
  assume "file_inv s"
  then show "length (file_pending s) \<le> max_stream \<and> file_view s \<le> length (file_pending s)"
    using file_buffered(2) [of s] by (simp add: file_inv_def file_core_def)
qed (rule read_file_ok, simp_all add: read_file_def Let_def del: split_paired_Ex)

text \<open>With a heap that grants every request the file source never reports an error.\<close>

definition generous :: "(nat \<Rightarrow> byte) \<Rightarrow> heap" where
  "generous j = \<lparr>grant = (\<lambda>_. True), junk = j\<rparr>"

lemma read_file_loop_reliable:
  assumes "file_inv fs" and "fs_open fs" and "fs_consumed fs = 0"
  shows "fst (snd (read_file_loop (generous j) fs need)) \<noteq> None"
  using assms
proof (induction "generous j" fs need rule: read_file_loop.induct)
  case (1 fs need)
  have core: "file_core fs"
    using "1.prems"(1) by (simp add: file_inv_def)
  obtain fs1 where g: "file_grow (generous j) fs = Some fs1"
    by (cases "fs_avail fs = fs_bufsz fs") (simp_all add: file_grow_def realloc_def generous_def Let_def)
  note g1 = file_grow_inv [OF core "1.prems"(3) g]
  note f2 = file_fill_inv [OF g1(1,3) g1(4) [THEN iffD2, OF "1.prems"(2)]]
  have noerr: "\<not> f_err (fs_f (file_fill fs1))"
    using f2(1) by (simp add: file_core_def)
  show ?case
  proof (cases "f_eof (fs_f (file_fill fs1)) \<or> \<not> fs_avail (file_fill fs1) < need")
    case True
    then show ?thesis
      using g noerr by (auto simp: read_file_loop.simps [of "generous j" fs] Let_def)
  next
    case False
    then have "file_inv (file_fill fs1)"
      using f2(1) by (simp add: file_inv_def)
    with False noerr g f2 "1.hyps" show ?thesis
      by (auto simp: read_file_loop.simps [of "generous j" fs] Let_def)
  qed
qed

interpretation reliable_file: reliable_stream "read_file (generous j)" file_inv file_pending file_view for j
proof unfold_locales
  fix s s' :: file_stream and c n len :: size_t and p
  assume a: "file_inv s" "unat c \<le> file_view s" "unat n \<le> max_need"
    "read_file (generous j) s c n = Some (s', p, len)"
  let ?s1 = "s\<lparr>fs_consumed := fs_consumed s + c\<rparr>"
  let ?s2 = "?s1\<lparr>fs_buf := slide (fs_buf s) (fs_consumed s + c) (fs_avail s),
    fs_avail := fs_avail s - (fs_consumed s + c), fs_consumed := 0\<rparr>"
  have inv1: "file_inv ?s1"
    by (rule file_consume(1) [OF a(1,2)])
  show "p \<noteq> None"
  proof (cases "\<not> fs_open s \<or> fs_consumed s + c + n \<le> fs_avail s")
    case True
    then show ?thesis
      using a(4) by (auto simp: read_file_def Let_def)
  next
    case False
    then have "read_file_loop (generous j) ?s2 n = (s', p, len)"
      using a(4) by (simp add: read_file_def Let_def)
    then show ?thesis
      using read_file_loop_reliable [OF file_slide(1) [OF inv1, simplified], of j n] False by simp
  qed
qed

lemma generous_heap: "\<forall>n. grant h n \<Longrightarrow> h = generous (junk h)"
  by (cases h) (auto simp: generous_def)

lemma file_reliable:
  "\<forall>n. grant h n \<Longrightarrow> reliable_stream (read_file h) file_inv file_pending file_view"
  using reliable_file.reliable_stream_axioms generous_heap by metis

end
