(* ===== verification/Filters.thy ===== *)
theory Filters
  imports Sources
begin

text \<open>
  The filters of \<^verbatim>\<open>tools/stream\<close> that hold no buffer of their own:
  \<^verbatim>\<open>filter-limit.c\<close> (at most so many bytes of a source) and
  \<^verbatim>\<open>filter-hash.c\<close> (hash what the reader consumes).  Each is parametric in the reader of
  its source, as the C code is through the function pointer, and turns every stream that keeps the
  contract into one that keeps it.
\<close>

subsection \<open>filter-limit.c\<close>

record 's limit_stream =
  ls_left :: uint64
  ls_source :: 's

definition read_limit :: "'s reader \<Rightarrow> 's limit_stream reader" where
  "read_limit rd ls consume need =
     (let left = ls_left ls - consume;
          need' = (if left < need then left else need)
      in case rd (ls_source ls) consume need' of
           None \<Rightarrow> None
         | Some (src, ret, plen) \<Rightarrow>
             Some (ls\<lparr>ls_left := left, ls_source := src\<rparr>, ret, if left < plen then left else plen))"

text \<open>The source is shared with other streams: closing the limiter leaves it open.\<close>

definition close_limit :: "'s limit_stream \<Rightarrow> 's" where
  "close_limit ls = ls_source ls"

definition open_limited :: "heap \<Rightarrow> 's option \<Rightarrow> uint64 \<Rightarrow> ('s limit_stream, 's) open_result" where
  "open_limited h source sz =
     (case source of
        None \<Rightarrow> Null
      | Some s \<Rightarrow> if grant h 32 then Opened \<lparr>ls_left = sz, ls_source = s\<rparr> else Null_closed s)"

definition limit_inv :: "('s \<Rightarrow> bool) \<Rightarrow> 's limit_stream \<Rightarrow> bool" where
  "limit_inv I ls = I (ls_source ls)"

definition limit_pending :: "('s \<Rightarrow> bytes) \<Rightarrow> 's limit_stream \<Rightarrow> bytes" where
  "limit_pending P ls = take (unat (ls_left ls)) (P (ls_source ls))"

definition limit_view :: "('s \<Rightarrow> nat) \<Rightarrow> 's limit_stream \<Rightarrow> nat" where
  "limit_view V ls = min (unat (ls_left ls)) (V (ls_source ls))"


subsection \<open>filter-hash.c\<close>

text \<open>
  The hash implementation comes from BearSSL; its \<open>update\<close> method is a parameter.
\<close>

record ('h, 's) hash_stream =
  hs_hash :: 'h
  hs_source :: 's
  hs_data :: "bytes option"

definition read_hash :: "('h \<Rightarrow> bytes \<Rightarrow> 'h) \<Rightarrow> 's reader \<Rightarrow> ('h, 's) hash_stream reader" where
  "read_hash update rd ls consume need =
     (let h = update (hs_hash ls) (case hs_data ls of None \<Rightarrow> [] | Some d \<Rightarrow> take (unat consume) d)
      in case rd (hs_source ls) consume need of
           None \<Rightarrow> None
         | Some (src, ret, plen) \<Rightarrow>
             Some (ls\<lparr>hs_hash := h, hs_source := src, hs_data := ret\<rparr>, ret, plen))"

definition close_hash :: "('s \<Rightarrow> 'r) \<Rightarrow> ('h, 's) hash_stream \<Rightarrow> 'r" where
  "close_hash close ls = close (hs_source ls)"

definition open_hash :: "heap \<Rightarrow> 's option \<Rightarrow> 'h \<Rightarrow> (('h, 's) hash_stream, 's) open_result" where
  "open_hash h source hash =
     (case source of
        None \<Rightarrow> Null
      | Some s \<Rightarrow>
          if grant h 40 then Opened \<lparr>hs_hash = hash, hs_source = s, hs_data = None\<rparr> else Null_closed s)"

text \<open>
  The view the hash filter remembers is the view its source handed out; before the first read it
  remembers nothing and nothing may be consumed.
\<close>

definition hash_inv :: "('s \<Rightarrow> bool) \<Rightarrow> ('s \<Rightarrow> bytes) \<Rightarrow> ('s \<Rightarrow> nat) \<Rightarrow> ('h, 's) hash_stream \<Rightarrow> bool" where
  "hash_inv I P V ls \<longleftrightarrow>
     I (hs_source ls)
     \<and> (case hs_data ls of
          None \<Rightarrow> True
        | Some d \<Rightarrow> take (V (hs_source ls)) d = take (V (hs_source ls)) (P (hs_source ls)))"

definition hash_pending :: "('s \<Rightarrow> bytes) \<Rightarrow> ('h, 's) hash_stream \<Rightarrow> bytes" where
  "hash_pending P ls = P (hs_source ls)"

definition hash_view :: "('s \<Rightarrow> nat) \<Rightarrow> ('h, 's) hash_stream \<Rightarrow> nat" where
  "hash_view V ls = (case hs_data ls of None \<Rightarrow> 0 | Some d \<Rightarrow> V (hs_source ls))"


subsection \<open>The limiter keeps the contract\<close>

context byte_stream
begin

lemma read_limit_post:
  assumes "limit_inv ok ls" and "unat c \<le> limit_view view ls" and "unat n \<le> max_need"
    and "read_limit rd ls c n = Some (ls', Some p, len)"
  shows "rd_post (limit_inv ok) (limit_pending pending) (limit_view view)
           (drop (unat c) (limit_pending pending ls)) n ls' p len"
proof -
  let ?left = "ls_left ls - c"
  let ?need = "if ?left < n then ?left else n"
  have inv: "ok (ls_source ls)" and c: "unat c \<le> view (ls_source ls)" "unat c \<le> unat (ls_left ls)"
    using assms(1,2) by (simp_all add: limit_inv_def limit_view_def)
  have left: "unat ?left = unat (ls_left ls) - unat c"
    using c(2) by (simp add: unat_sub_small)
  have need: "unat ?need = min (unat ?left) (unat n)"
    by (auto simp: word_less_nat_alt)
  then have "unat ?need \<le> max_need"
    using assms(3) by simp
  obtain src plen where r: "rd (ls_source ls) c ?need = Some (src, Some p, plen)"
    and ls': "ls' = ls\<lparr>ls_left := ?left, ls_source := src\<rparr>"
    and len: "len = (if ?left < plen then ?left else plen)"
    using assms(4) by (auto simp: read_limit_def Let_def split: option.splits)
  note post = rd_postI [OF inv c(1) \<open>unat ?need \<le> max_need\<close> r, unfolded rd_post_def]
  have len': "unat len = min (unat ?left) (unat plen)"
    using len by (auto simp: word_less_nat_alt)
  have rest: "drop (unat c) (limit_pending pending ls) = take (unat ?left) (pending src)"
    using left post by (simp add: limit_pending_def drop_take)
  have "take (unat len) p = take (unat len) (take (unat plen) p)"
    using len' by (simp add: min_def)
  also have "\<dots> = take (unat len) (pending src)"
    using post len' by (simp add: min_def)
  finally have data: "take (unat len) p = take (unat len) (take (unat ?left) (pending src))"
    using len' by (simp add: min_def)
  have "min (unat n) (length (take (unat ?left) (pending src))) \<le> unat len"
    using post need len' by (auto simp: min_def split: if_splits)
  then show ?thesis
    unfolding rd_post_def rest using data post ls' len'
    by (simp add: limit_inv_def limit_pending_def limit_view_def)
qed

lemma limit_stream: "byte_stream (read_limit rd) (limit_inv ok) (limit_pending pending) (limit_view view)"
proof (rule byte_streamI)
  fix s
  assume "limit_inv ok s"
  then have "length (pending (ls_source s)) \<le> max_stream" "view (ls_source s) \<le> length (pending (ls_source s))"
    by (simp_all add: limit_inv_def pending_bound view_bound)
  then show "length (limit_pending pending s) \<le> max_stream \<and> limit_view view s \<le> length (limit_pending pending s)"
    by (auto simp: limit_pending_def limit_view_def)
next
  fix s s' :: "'s limit_stream" and c n len :: size_t
  assume a: "limit_inv ok s" "unat c \<le> limit_view view s" "unat n \<le> max_need"
  let ?need = "if ls_left s - c < n then ls_left s - c else n"
  have ok: "ok (ls_source s)" "unat c \<le> view (ls_source s)" "unat ?need \<le> max_need"
    using a by (auto simp: limit_inv_def limit_view_def word_less_nat_alt)
  show "\<exists>r. read_limit rd s c n = Some r"
    using rd_returns [OF ok] by (auto simp: read_limit_def Let_def)
  assume "read_limit rd s c n = Some (s', None, len)"
  then show "len = 0"
    using rd_null [OF ok] by (auto simp: read_limit_def Let_def split: option.splits)
qed (rule read_limit_post)

end


subsection \<open>The hash filter keeps the contract\<close>

context byte_stream
begin

lemma read_hash_post:
  assumes "hash_inv ok pending view ls" and "unat c \<le> hash_view view ls" and "unat n \<le> max_need"
    and "read_hash upd rd ls c n = Some (ls', Some p, len)"
  shows "rd_post (hash_inv ok pending view) (hash_pending pending) (hash_view view)
           (drop (unat c) (hash_pending pending ls)) n ls' p len"
proof -
  have inv: "ok (hs_source ls)" and c: "unat c \<le> view (hs_source ls)"
    using assms(1,2) by (auto simp: hash_inv_def hash_view_def split: option.splits)
  obtain src h where r: "rd (hs_source ls) c n = Some (src, Some p, len)"
    and ls': "ls' = ls\<lparr>hs_hash := h, hs_source := src, hs_data := Some p\<rparr>"
    using assms(4) by (auto simp: read_hash_def Let_def split: option.splits)
  show ?thesis
    using rd_postI [OF inv c assms(3) r] ls'
    by (simp add: rd_post_def hash_inv_def hash_pending_def hash_view_def)
qed

lemma hash_stream:
  fixes upd :: "'h \<Rightarrow> bytes \<Rightarrow> 'h"
  shows "byte_stream (read_hash upd rd) (hash_inv ok pending view) (hash_pending pending) (hash_view view)"
proof (rule byte_streamI)
  fix s
  assume "hash_inv ok pending view s"
  then show "length (hash_pending pending s) \<le> max_stream \<and> hash_view view s \<le> length (hash_pending pending s)"
    by (auto simp: hash_inv_def hash_pending_def hash_view_def pending_bound view_bound split: option.splits)
next
  fix s s' :: "('h, 's) hash_stream" and c n len :: size_t
  assume a: "hash_inv ok pending view s" "unat c \<le> hash_view view s" "unat n \<le> max_need"
  have ok: "ok (hs_source s)" "unat c \<le> view (hs_source s)"
    using a by (auto simp: hash_inv_def hash_view_def split: option.splits)
  show "\<exists>r. read_hash upd rd s c n = Some r"
    using rd_returns [OF ok a(3)] by (auto simp: read_hash_def Let_def)
  assume "read_hash upd rd s c n = Some (s', None, len)"
  then show "len = 0"
    using rd_null [OF ok a(3)] by (auto simp: read_hash_def Let_def split: option.splits)
qed (rule read_hash_post)

text \<open>What one read adds to the hash is what it consumes.\<close>

lemma read_hash_update:
  assumes "hash_inv ok pending view ls" and "unat c \<le> hash_view view ls"
    and "read_hash upd rd ls c n = Some (ls', p, len)"
  shows "hs_hash ls' = upd (hs_hash ls) (take (unat c) (hash_pending pending ls))"
proof -
  have "(case hs_data ls of None \<Rightarrow> [] | Some d \<Rightarrow> take (unat c) d) = take (unat c) (pending (hs_source ls))"
  proof (cases "hs_data ls")
    case (Some d)
    then have "take (unat c) (take (view (hs_source ls)) d) = take (unat c) (take (view (hs_source ls)) (pending (hs_source ls)))"
      using assms(1) by (simp add: hash_inv_def)
    with Some assms(2) show ?thesis
      by (simp add: hash_view_def min_def)
  qed (use assms(2) in \<open>simp add: hash_view_def\<close>)
  with assms(3) show ?thesis
    by (auto simp: read_hash_def Let_def hash_pending_def split: option.splits)
qed

end

interpretation file_limit: byte_stream "read_limit (read_file h)" "limit_inv file_inv"
    "limit_pending file_pending" "limit_view file_view" for h
  by (rule disk.limit_stream)

end
