(* ===== verification/Decoders.thy ===== *)
theory Decoders
  imports Filters
begin

text \<open>
  The decoding filters: \<^verbatim>\<open>tools/stream/filter-decode-xz.c\<close> and
  \<^verbatim>\<open>tools/stream/filter-deflate.c\<close>.  The decoders themselves (xz-embedded and zlib) are not
  part of the repository; they are the parameters \<open>run\<close> and \<open>zrun\<close>, one step of a decoder on
  the input it is shown and the room it is given.
\<close>

subsection \<open>filter-decode-xz.c\<close>

datatype xz_ret = XZ_OK | XZ_STREAM_END | XZ_FAIL nat

type_synonym 'x xz_run = "'x \<Rightarrow> bytes \<Rightarrow> nat \<Rightarrow> 'x \<times> nat \<times> bytes \<times> xz_ret"

record ('x, 's) xz_stream =
  xs_xz :: 'x
  xs_finished :: bool
  xs_source :: 's
  xs_in :: "bytes option"
  xs_in_pos :: size_t
  xs_in_size :: size_t
  xs_out :: bytes
  xs_out_pos :: size_t
  xs_out_size :: size_t
  xs_consumed :: size_t

definition xz_grow :: "heap \<Rightarrow> ('x, 's) xz_stream \<Rightarrow> ('x, 's) xz_stream option" where
  "xz_grow h ds =
     (if xs_out_pos ds = xs_out_size ds
      then let bufsz = xs_out_size ds + 32 * 1024
           in case realloc h (xs_out ds) bufsz of
                None \<Rightarrow> None
              | Some buf \<Rightarrow> Some (ds\<lparr>xs_out := buf, xs_out_size := bufsz\<rparr>)
      else Some ds)"

text \<open>The bytes \<^verbatim>\<open>b->in[in_pos .. in_size)\<close> the decoder is shown.\<close>

definition xz_shown :: "('x, 's) xz_stream \<Rightarrow> bytes" where
  "xz_shown ds = drop (unat (xs_in_pos ds)) (take (unat (xs_in_size ds)) (case xs_in ds of None \<Rightarrow> [] | Some b \<Rightarrow> b))"

text \<open>
  The first half of the loop body, "process the data we have", and how it leaves the loop body:
  with the end of the stream, through \<open>err\<close>, through \<open>continue\<close>, or by falling through to the
  second half, which asks the source for more data.
\<close>

datatype ('x, 's) xz_exit =
    Xz_End "('x, 's) xz_stream"
  | Xz_Err "('x, 's) xz_stream"
  | Xz_Continue "('x, 's) xz_stream"
  | Xz_More "('x, 's) xz_stream"

definition xz_process :: "'x xz_run \<Rightarrow> heap \<Rightarrow> ('x, 's) xz_stream \<Rightarrow> ('x, 's) xz_exit" where
  "xz_process run h ds =
     (if xs_in_pos ds < xs_in_size ds
      then case xz_grow h ds of
             None \<Rightarrow> Xz_Err ds
           | Some ds1 \<Rightarrow>
               let start_out = xs_out_pos ds1;
                   (x, k, out, err) = run (xs_xz ds1) (xz_shown ds1) (unat (xs_out_size ds1 - xs_out_pos ds1));
                   ds2 = ds1\<lparr>xs_xz := x, xs_in_pos := xs_in_pos ds1 + of_nat k,
                             xs_out := buf_write (xs_out ds1) (unat (xs_out_pos ds1)) out,
                             xs_out_pos := xs_out_pos ds1 + of_nat (length out)\<rparr>;
                   produced = xs_out_pos ds2 - start_out
               in if err = XZ_STREAM_END then Xz_End (ds2\<lparr>xs_finished := True\<rparr>)
                  else if err \<noteq> XZ_OK then Xz_Err ds2
                  else if produced \<noteq> 0 then Xz_Continue ds2
                  else Xz_More ds2
      else Xz_More ds)"

definition xz_result :: "('x, 's) xz_stream \<Rightarrow> (('x, 's) xz_stream \<times> bytes option \<times> size_t) option" where
  "xz_result ds = Some (ds, Some (xs_out ds), xs_out_pos ds)"

partial_function (option) read_xz_loop ::
  "'x xz_run \<Rightarrow> heap \<Rightarrow> 's reader \<Rightarrow> ('x, 's) xz_stream \<Rightarrow> size_t
    \<Rightarrow> (('x, 's) xz_stream \<times> bytes option \<times> size_t) option" where
  "read_xz_loop run h rd ds need =
     (case xz_process run h ds of
        Xz_End ds1 \<Rightarrow> xz_result ds1
      | Xz_Err ds1 \<Rightarrow> Some (ds1, None, 0)
      | Xz_Continue ds1 \<Rightarrow>
          if xs_out_pos ds1 < need then read_xz_loop run h rd ds1 need else xz_result ds1
      | Xz_More ds1 \<Rightarrow>
          (case rd (xs_source ds1) (xs_in_pos ds1) (xs_in_size ds1 + 1) of
             None \<Rightarrow> None
           | Some (src, inp, len) \<Rightarrow>
               let ds2 = ds1\<lparr>xs_source := src, xs_in := inp, xs_in_size := len, xs_in_pos := 0\<rparr>
               in if len = 0 then xz_result ds2
                  else if xs_out_pos ds2 < need then read_xz_loop run h rd ds2 need
                  else xz_result ds2))"

definition read_xz :: "'x xz_run \<Rightarrow> heap \<Rightarrow> 's reader \<Rightarrow> ('x, 's) xz_stream reader" where
  "read_xz run h rd ds consume need =
     (let ds1 = ds\<lparr>xs_consumed := xs_consumed ds + consume\<rparr>
      in if xs_finished ds1 \<or> xs_consumed ds1 + need \<le> xs_out_pos ds1
         then Some (ds1, Some (drop (unat (xs_consumed ds1)) (xs_out ds1)), xs_out_pos ds1 - xs_consumed ds1)
         else read_xz_loop run h rd
                (ds1\<lparr>xs_out := slide (xs_out ds1) (xs_consumed ds1) (xs_out_pos ds1),
                     xs_out_pos := xs_out_pos ds1 - xs_consumed ds1, xs_consumed := 0\<rparr>) need)"

definition close_xz :: "('s \<Rightarrow> 'r) \<Rightarrow> ('x, 's) xz_stream \<Rightarrow> 'r" where
  "close_xz close ds = close (xs_source ds)"

text \<open>\<^verbatim>\<open>xz_dec_init\<close> is the parameter \<open>init\<close>; a null decoder is \<open>None\<close>.\<close>

definition open_xz_decoder :: "'x option \<Rightarrow> heap \<Rightarrow> 's option \<Rightarrow> (('x, 's) xz_stream, 's) open_result" where
  "open_xz_decoder init h source =
     (case source of
        None \<Rightarrow> Null
      | Some s \<Rightarrow>
          if \<not> grant h 104 then Null_closed s
          else case init of
                 None \<Rightarrow> Null_closed s
               | Some x \<Rightarrow>
                   Opened \<lparr>xs_xz = x, xs_finished = False, xs_source = s, xs_in = None, xs_in_pos = 0,
                     xs_in_size = 0, xs_out = [], xs_out_pos = 0, xs_out_size = 0, xs_consumed = 0\<rparr>)"


subsection \<open>filter-deflate.c\<close>

text \<open>
  \<open>zrun inflating flush z input room\<close> is one call of \<^verbatim>\<open>inflate\<close> or \<^verbatim>\<open>deflate\<close>: the new
  state, the number of input bytes taken, the output, and the return code (\<open>0\<close> is
  \<^verbatim>\<open>Z_OK\<close>, \<open>1\<close> is \<^verbatim>\<open>Z_STREAM_END\<close>).
\<close>

type_synonym 'z zlib_run = "bool \<Rightarrow> int \<Rightarrow> 'z \<Rightarrow> bytes \<Rightarrow> nat \<Rightarrow> 'z \<times> nat \<times> bytes \<times> int"

abbreviation (input) Z_STREAM_END :: int where
  "Z_STREAM_END \<equiv> 1"

abbreviation (input) Z_FINISH :: int where
  "Z_FINISH \<equiv> 4"

record ('z, 's) zlib_stream =
  zs_z :: 'z
  zs_next_in :: "bytes option"
  zs_avail_in :: uint32
  zs_avail :: size_t
  zs_bufsz :: size_t
  zs_consumed :: size_t
  zs_finished :: bool
  zs_source :: 's
  zs_buf :: bytes
  zs_read_in :: uint32
  zs_flush :: int
  zs_do_inflate :: bool

definition zlib_grow :: "heap \<Rightarrow> ('z, 's) zlib_stream \<Rightarrow> ('z, 's) zlib_stream option" where
  "zlib_grow h ds =
     (if zs_avail ds = zs_bufsz ds
      then let bufsz = zs_bufsz ds + 32 * 1024
           in case realloc h (zs_buf ds) bufsz of
                None \<Rightarrow> None
              | Some buf \<Rightarrow> Some (ds\<lparr>zs_bufsz := bufsz, zs_buf := buf\<rparr>)
      else Some ds)"

text \<open>The input left in front of \<^verbatim>\<open>z.next_in\<close>.\<close>

definition zlib_shown :: "('z, 's) zlib_stream \<Rightarrow> bytes" where
  "zlib_shown ds = take (unat (zs_avail_in ds)) (case zs_next_in ds of None \<Rightarrow> [] | Some b \<Rightarrow> b)"

datatype ('z, 's) zlib_exit =
    Zlib_End "('z, 's) zlib_stream"
  | Zlib_Err "('z, 's) zlib_stream"
  | Zlib_Continue "('z, 's) zlib_stream"
  | Zlib_More "('z, 's) zlib_stream"

definition zlib_process :: "'z zlib_run \<Rightarrow> heap \<Rightarrow> ('z, 's) zlib_stream \<Rightarrow> ('z, 's) zlib_exit" where
  "zlib_process zrun h ds =
     (if zs_avail_in ds \<noteq> 0 \<or> zs_flush ds \<noteq> 0
      then case zlib_grow h ds of
             None \<Rightarrow> Zlib_Err ds
           | Some ds1 \<Rightarrow>
               let avail_out = (ucast (zs_bufsz ds1 - zs_avail ds1) :: uint32);
                   (z, k, out, res) = zrun (zs_do_inflate ds1) (zs_flush ds1) (zs_z ds1) (zlib_shown ds1) (unat avail_out);
                   produced = zs_bufsz ds1 - zs_avail ds1 - ucast (avail_out - of_nat (length out));
                   ds2 = ds1\<lparr>zs_z := z, zs_next_in := map_option (drop k) (zs_next_in ds1),
                             zs_avail_in := zs_avail_in ds1 - of_nat k,
                             zs_buf := buf_write (zs_buf ds1) (unat (zs_avail ds1)) out,
                             zs_avail := zs_avail ds1 + produced\<rparr>
               in if res = Z_STREAM_END then Zlib_End (ds2\<lparr>zs_finished := True\<rparr>)
                  else if res \<noteq> 0 then Zlib_Err ds2
                  else if produced \<noteq> 0 then Zlib_Continue ds2
                  else Zlib_More ds2
      else Zlib_More ds)"

definition zlib_result :: "('z, 's) zlib_stream \<Rightarrow> (('z, 's) zlib_stream \<times> bytes option \<times> size_t) option" where
  "zlib_result ds = Some (ds, Some (zs_buf ds), zs_avail ds)"

partial_function (option) read_zlib_loop ::
  "'z zlib_run \<Rightarrow> heap \<Rightarrow> 's reader \<Rightarrow> ('z, 's) zlib_stream \<Rightarrow> size_t
    \<Rightarrow> (('z, 's) zlib_stream \<times> bytes option \<times> size_t) option" where
  "read_zlib_loop zrun h rd ds need =
     (case zlib_process zrun h ds of
        Zlib_End ds1 \<Rightarrow> zlib_result ds1
      | Zlib_Err ds1 \<Rightarrow> Some (ds1\<lparr>zs_finished := True\<rparr>, None, 0)
      | Zlib_Continue ds1 \<Rightarrow>
          if zs_avail ds1 < need then read_zlib_loop zrun h rd ds1 need else zlib_result ds1
      | Zlib_More ds1 \<Rightarrow>
          if zs_flush ds1 \<noteq> 0 then zlib_result ds1
          else (case rd (zs_source ds1) (ucast (zs_read_in ds1 - zs_avail_in ds1)) (ucast (zs_avail_in ds1 + 1)) of
                  None \<Rightarrow> None
                | Some (src, inp, avail_in) \<Rightarrow>
                    let n = (if ucast (- 1 :: uint32) < avail_in then - 1 else ucast avail_in);
                        ds2 = ds1\<lparr>zs_source := src, zs_next_in := inp, zs_avail_in := n, zs_read_in := n,
                                  zs_flush := (if n = 0 then Z_FINISH else zs_flush ds1)\<rparr>
                    in if zs_avail ds2 < need then read_zlib_loop zrun h rd ds2 need
                       else zlib_result ds2))"

definition read_zlib :: "'z zlib_run \<Rightarrow> heap \<Rightarrow> 's reader \<Rightarrow> ('z, 's) zlib_stream reader" where
  "read_zlib zrun h rd ds consume need =
     (let ds1 = ds\<lparr>zs_consumed := zs_consumed ds + consume\<rparr>
      in if zs_finished ds1 \<or> zs_consumed ds1 + need \<le> zs_avail ds1
         then Some (ds1, Some (drop (unat (zs_consumed ds1)) (zs_buf ds1)), zs_avail ds1 - zs_consumed ds1)
         else read_zlib_loop zrun h rd
                (ds1\<lparr>zs_buf := slide (zs_buf ds1) (zs_consumed ds1) (zs_avail ds1),
                     zs_avail := zs_avail ds1 - zs_consumed ds1, zs_consumed := 0\<rparr>) need)"

definition close_zlib :: "('s \<Rightarrow> 'r) \<Rightarrow> ('z, 's) zlib_stream \<Rightarrow> 'r" where
  "close_zlib close ds = close (zs_source ds)"

text \<open>\<open>init do_inflate window\<close> is \<^verbatim>\<open>inflateInit2\<close> or \<^verbatim>\<open>deflateInit2\<close>; \<open>None\<close> is an error code.\<close>

definition open_zlib ::
  "(bool \<Rightarrow> int \<Rightarrow> 'z option) \<Rightarrow> heap \<Rightarrow> 's option \<Rightarrow> bool \<Rightarrow> int \<Rightarrow> (('z, 's) zlib_stream, 's) open_result" where
  "open_zlib init h source do_inflate window =
     (case source of
        None \<Rightarrow> Null
      | Some s \<Rightarrow>
          if \<not> grant h 192 then Null_closed s
          else case init do_inflate window of
                 None \<Rightarrow> Null_closed s
               | Some z \<Rightarrow>
                   Opened \<lparr>zs_z = z, zs_next_in = None, zs_avail_in = 0, zs_avail = 0, zs_bufsz = 0,
                     zs_consumed = 0, zs_finished = False, zs_source = s, zs_buf = [], zs_read_in = 0,
                     zs_flush = 0, zs_do_inflate = do_inflate\<rparr>)"

definition open_deflate where
  "open_deflate init h source = open_zlib init h source False (- 15)"

definition open_inflate where
  "open_inflate init h source = open_zlib init h source True (- 15)"

definition open_gzip where
  "open_gzip init h source = open_zlib init h source True (15 + 32)"


subsection \<open>What the xz decoder promises, and what the filter keeps\<close>

text \<open>
  The documented behaviour of \<^verbatim>\<open>xz_dec_run\<close> in multi-call mode, for a decoder in state \<open>x\<close>
  whose remaining input is a valid xz stream (\<open>valid x i\<close>, with decoded data \<open>dec x i\<close>): it stays
  within the input and the room it is given, what it outputs is the next part of the decoded data, it
  reports the end of the stream with the last part, and it does not make calls without progress for
  ever (\<open>gas\<close> bounds them: xz-embedded answers the second one in a row with an error).
\<close>

definition xz_law :: "'x xz_run \<Rightarrow> ('x \<Rightarrow> bytes \<Rightarrow> bool) \<Rightarrow> ('x \<Rightarrow> bytes \<Rightarrow> bytes) \<Rightarrow> ('x \<Rightarrow> nat) \<Rightarrow> bool" where
  "xz_law run valid dec gas \<longleftrightarrow>
     (\<forall>x. \<not> valid x [])
     \<and> (\<forall>x inp more room x' k out ret.
          valid x (inp @ more) \<longrightarrow> inp \<noteq> [] \<longrightarrow> 0 < room \<longrightarrow> run x inp room = (x', k, out, ret) \<longrightarrow>
            k \<le> length inp \<and> length out \<le> room
            \<and> (case ret of
                 XZ_OK \<Rightarrow> valid x' (drop k inp @ more) \<and> dec x (inp @ more) = out @ dec x' (drop k inp @ more)
                   \<and> (k = 0 \<longrightarrow> out = [] \<longrightarrow> gas x' < gas x)
               | XZ_STREAM_END \<Rightarrow> dec x (inp @ more) = out
               | XZ_FAIL e \<Rightarrow> False))"

definition xz_input :: "('s \<Rightarrow> bytes) \<Rightarrow> ('x, 's) xz_stream \<Rightarrow> bytes" where
  "xz_input P ds = drop (unat (xs_in_pos ds)) (P (xs_source ds))"

definition xz_pending :: "('x \<Rightarrow> bytes \<Rightarrow> bytes) \<Rightarrow> ('s \<Rightarrow> bytes) \<Rightarrow> ('x, 's) xz_stream \<Rightarrow> bytes" where
  "xz_pending dec P ds =
     buf_view (xs_consumed ds) (xs_out_pos ds) (xs_out ds)
     @ (if xs_finished ds then [] else dec (xs_xz ds) (xz_input P ds))"

definition xz_inv ::
  "('x \<Rightarrow> bytes \<Rightarrow> bool) \<Rightarrow> ('x \<Rightarrow> bytes \<Rightarrow> bytes) \<Rightarrow> ('s \<Rightarrow> bool) \<Rightarrow> ('s \<Rightarrow> bytes) \<Rightarrow> ('s \<Rightarrow> nat)
    \<Rightarrow> ('x, 's) xz_stream \<Rightarrow> bool" where
  "xz_inv valid dec I P V ds \<longleftrightarrow>
     buf_ok (xs_consumed ds) (xs_out_pos ds) (xs_out_size ds) (xs_out ds)
     \<and> I (xs_source ds)
     \<and> unat (xs_in_pos ds) \<le> unat (xs_in_size ds) \<and> unat (xs_in_size ds) \<le> V (xs_source ds)
     \<and> (xs_in_size ds = 0 \<or> (\<exists>b. xs_in ds = Some b \<and>
          take (unat (xs_in_size ds)) b = take (unat (xs_in_size ds)) (P (xs_source ds))))
     \<and> (xs_finished ds \<or> valid (xs_xz ds) (xz_input P ds))
     \<and> length (xz_pending dec P ds) \<le> max_stream
     \<and> unat (xs_out_size ds) \<le> max_stream + 32 * 1024"

definition xz_view :: "('x, 's) xz_stream \<Rightarrow> nat" where
  "xz_view ds = unat (xs_out_pos ds) - unat (xs_consumed ds)"

lemma xz_buffered:
  assumes "xz_inv valid dec I P V ds"
  shows "take (xz_view ds) (drop (unat (xs_consumed ds)) (xs_out ds)) = take (xz_view ds) (xz_pending dec P ds)"
    and "xz_view ds \<le> length (xz_pending dec P ds)"
    and "xs_finished ds \<Longrightarrow> xz_view ds = length (xz_pending dec P ds)"
proof -
  have ok: "buf_ok (xs_consumed ds) (xs_out_pos ds) (xs_out_size ds) (xs_out ds)"
    using assms by (simp add: xz_inv_def)
  note facts = length_buf_view [OF ok] buf_view_take [OF ok]
  then show "take (xz_view ds) (drop (unat (xs_consumed ds)) (xs_out ds)) = take (xz_view ds) (xz_pending dec P ds)"
    "xz_view ds \<le> length (xz_pending dec P ds)"
    "xs_finished ds \<Longrightarrow> xz_view ds = length (xz_pending dec P ds)"
    by (simp_all add: xz_view_def xz_pending_def)
qed

lemma xz_grow_inv:
  assumes "xz_inv valid dec I P V ds" and "xs_consumed ds = 0" and "xz_grow h ds = Some ds1"
  shows "xz_inv valid dec I P V ds1 \<and> xz_pending dec P ds1 = xz_pending dec P ds
    \<and> xs_consumed ds1 = 0 \<and> xs_out_pos ds1 = xs_out_pos ds \<and> xs_out_pos ds1 \<noteq> xs_out_size ds1
    \<and> xs_xz ds1 = xs_xz ds \<and> xs_finished ds1 = xs_finished ds \<and> xs_source ds1 = xs_source ds
    \<and> xs_in ds1 = xs_in ds \<and> xs_in_pos ds1 = xs_in_pos ds \<and> xs_in_size ds1 = xs_in_size ds"
proof (cases "xs_out_pos ds = xs_out_size ds")
  case True
  with assms(3) obtain buf where buf: "realloc h (xs_out ds) (xs_out_size ds + 32768) = Some buf"
    and ds1: "ds1 = ds\<lparr>xs_out := buf, xs_out_size := xs_out_size ds + 32768\<rparr>"
    by (auto simp: xz_grow_def Let_def split: option.splits)
  have ok: "buf_ok 0 (xs_out_pos ds) (xs_out_size ds) (xs_out ds)"
    using assms(1,2) by (simp add: xz_inv_def)
  have le: "unat (xs_out_size ds) \<le> max_stream"
    using assms(1,2) True length_buf_view [OF ok] by (simp add: xz_inv_def xz_pending_def)
  have sum: "unat (xs_out_size ds) + unat (32768 :: size_t) < 2 ^ 64"
    using le by (simp add: max_stream_def)
  then have "unat (xs_out_size ds + 32768) = unat (xs_out_size ds) + 32768"
    by (subst unat_add_small) simp_all
  moreover have "xz_pending dec P ds1 = xz_pending dec P ds"
    using buf_grow(2) [OF ok buf sum] assms(2) ds1 by (simp add: xz_pending_def xz_input_def)
  ultimately show ?thesis
    using buf_grow(1) [OF ok buf sum] le assms(1,2) ds1 True by (auto simp: xz_inv_def xz_input_def)
qed (use assms in \<open>simp add: xz_grow_def\<close>)

lemma xz_grow_refused: "xz_grow h ds = None \<Longrightarrow> \<exists>n. \<not> grant h n"
  by (auto simp: xz_grow_def realloc_def Let_def split: if_splits)

lemma xz_shown_input:
  assumes "xz_inv valid dec I P V ds" and "xs_in_pos ds < xs_in_size ds"
    and "V (xs_source ds) \<le> length (P (xs_source ds))"
  shows "xz_input P ds = xz_shown ds @ drop (unat (xs_in_size ds)) (P (xs_source ds))"
    and "xz_shown ds \<noteq> []" and "length (xz_shown ds) \<le> unat (xs_in_size ds) - unat (xs_in_pos ds)"
proof -
  let ?z = "unat (xs_in_size ds)" and ?p = "unat (xs_in_pos ds)" and ?src = "P (xs_source ds)"
  have lt: "?p < ?z"
    using assms(2) by (simp add: word_less_nat_alt)
  then obtain b where b: "xs_in ds = Some b" "take ?z b = take ?z ?src"
    using assms(1) by (auto simp: xz_inv_def)
  have shown: "xz_shown ds = drop ?p (take ?z ?src)"
    using b by (simp add: xz_shown_def)
  show "length (xz_shown ds) \<le> ?z - ?p"
    by (simp add: shown)
  show "xz_input P ds = xz_shown ds @ drop ?z ?src"
    unfolding xz_input_def shown using lt by (simp add: drop_take) (metis append_take_drop_id drop_drop le_add_diff_inverse2 less_imp_le)
  show "xz_shown ds \<noteq> []"
    using lt assms(1,3) by (auto simp: shown xz_inv_def)
qed


text \<open>What one call of the decoder makes of the stream: \<open>k\<close> bytes read, the bytes \<open>out\<close> written.\<close>

definition xz_after :: "('x, 's) xz_stream \<Rightarrow> 'x \<Rightarrow> nat \<Rightarrow> bytes \<Rightarrow> ('x, 's) xz_stream" where
  "xz_after ds x k out = ds\<lparr>xs_xz := x, xs_in_pos := xs_in_pos ds + of_nat k,
      xs_out := buf_write (xs_out ds) (unat (xs_out_pos ds)) out, xs_out_pos := xs_out_pos ds + of_nat (length out)\<rparr>"

definition xz_room :: "('x, 's) xz_stream \<Rightarrow> nat" where
  "xz_room ds = unat (xs_out_size ds - xs_out_pos ds)"

definition xz_more :: "('s \<Rightarrow> bytes) \<Rightarrow> ('x, 's) xz_stream \<Rightarrow> bytes" where
  "xz_more P ds = drop (unat (xs_in_size ds)) (P (xs_source ds))"

lemma xz_run_law:
  assumes "xz_law run valid dec gas" and "xz_inv valid dec I P V ds" and "\<not> xs_finished ds"
    and "xs_out_pos ds \<noteq> xs_out_size ds" and "V (xs_source ds) \<le> length (P (xs_source ds))"
    and "xs_in_pos ds < xs_in_size ds" and "run (xs_xz ds) (xz_shown ds) (xz_room ds) = (x, k, out, err)"
  shows "k \<le> length (xz_shown ds) \<and> length out \<le> xz_room ds
      \<and> (case err of
           XZ_OK \<Rightarrow> valid x (drop k (xz_shown ds) @ xz_more P ds)
             \<and> dec (xs_xz ds) (xz_input P ds) = out @ dec x (drop k (xz_shown ds) @ xz_more P ds)
             \<and> (k = 0 \<longrightarrow> out = [] \<longrightarrow> gas x < gas (xs_xz ds))
         | XZ_STREAM_END \<Rightarrow> dec (xs_xz ds) (xz_input P ds) = out
         | XZ_FAIL e \<Rightarrow> False)"
proof -
  note shown = xz_shown_input [OF assms(2,6,5), folded xz_more_def]
  have "valid (xs_xz ds) (xz_shown ds @ xz_more P ds)"
    using assms(2,3) shown(1) by (simp add: xz_inv_def)
  moreover have "0 < xz_room ds"
    using assms(4) by (auto simp: xz_room_def unat_gt_0)
  ultimately show ?thesis
    using assms(1,7) shown(2) unfolding xz_law_def shown(1) by blast
qed

lemma xz_after_input:
  assumes "xz_inv valid dec I P V ds" and "xs_in_pos ds < xs_in_size ds"
    and "V (xs_source ds) \<le> length (P (xs_source ds))" and k: "k \<le> length (xz_shown ds)"
  shows "unat (xs_in_pos (xz_after ds x k out)) \<le> unat (xs_in_size ds)"
    and "xz_input P (xz_after ds x k out) = drop k (xz_shown ds) @ xz_more P ds"
    and "length (xz_input P (xz_after ds x k out)) + k = length (xz_input P ds)"
proof -
  note shown = xz_shown_input [OF assms(1-3), folded xz_more_def]
  have le: "unat (xs_in_pos ds) + k \<le> unat (xs_in_size ds)"
    using k shown(3) assms(2) unfolding word_less_nat_alt by linarith
  then have "unat (xs_in_pos ds) + k < 2 ^ LENGTH(64)"
    by (rule le_less_trans) simp
  then have pos: "unat (xs_in_pos (xz_after ds x k out)) = unat (xs_in_pos ds) + k"
    by (simp add: xz_after_def unat_add_of_nat)
  then show "unat (xs_in_pos (xz_after ds x k out)) \<le> unat (xs_in_size ds)"
    using le by simp
  have "xz_input P (xz_after ds x k out) = drop k (xz_input P ds)"
    unfolding xz_input_def pos by (simp add: xz_after_def add.commute)
  then show "xz_input P (xz_after ds x k out) = drop k (xz_shown ds) @ xz_more P ds"
    "length (xz_input P (xz_after ds x k out)) + k = length (xz_input P ds)"
    using shown(1) k by simp_all
qed

lemma xz_after_output:
  assumes "xz_inv valid dec I P V ds" and "xs_consumed ds = 0" and "length out \<le> xz_room ds"
  shows "buf_ok 0 (xs_out_pos (xz_after ds x k out)) (xs_out_size ds) (xs_out (xz_after ds x k out))"
    and "buf_view 0 (xs_out_pos (xz_after ds x k out)) (xs_out (xz_after ds x k out))
      = buf_view 0 (xs_out_pos ds) (xs_out ds) @ out"
    and "unat (xs_out_pos (xz_after ds x k out)) = unat (xs_out_pos ds) + length out"
proof -
  have "buf_ok 0 (xs_out_pos ds) (xs_out_size ds) (xs_out ds)"
    using assms(1,2) by (simp add: xz_inv_def)
  note fill = buf_fill [OF this, of out]
  from fill assms(3) show "buf_ok 0 (xs_out_pos (xz_after ds x k out)) (xs_out_size ds) (xs_out (xz_after ds x k out))"
    "buf_view 0 (xs_out_pos (xz_after ds x k out)) (xs_out (xz_after ds x k out)) = buf_view 0 (xs_out_pos ds) (xs_out ds) @ out"
    "unat (xs_out_pos (xz_after ds x k out)) = unat (xs_out_pos ds) + length out"
    by (simp_all add: xz_after_def xz_room_def)
qed

lemma xz_after_frame:
  "xs_consumed (xz_after ds x k out) = xs_consumed ds" "xs_finished (xz_after ds x k out) = xs_finished ds"
  "xs_source (xz_after ds x k out) = xs_source ds" "xs_in (xz_after ds x k out) = xs_in ds"
  "xs_in_size (xz_after ds x k out) = xs_in_size ds" "xs_out_size (xz_after ds x k out) = xs_out_size ds"
  "xs_xz (xz_after ds x k out) = x"
  by (simp_all add: xz_after_def)

text \<open>One decoding step keeps the invariant, hands out the next decoded bytes and makes progress.\<close>

lemma xz_step_ok:
  assumes law: "xz_law run valid dec gas" and inv: "xz_inv valid dec I P V ds" and c: "xs_consumed ds = 0"
    and nf: "\<not> xs_finished ds" and ne: "xs_out_pos ds \<noteq> xs_out_size ds"
    and src: "V (xs_source ds) \<le> length (P (xs_source ds))" and lt: "xs_in_pos ds < xs_in_size ds"
    and r: "run (xs_xz ds) (xz_shown ds) (xz_room ds) = (x, k, out, err)"
  defines "ds2 \<equiv> xz_after ds x k out"
  shows "err = XZ_STREAM_END \<Longrightarrow>
      xz_inv valid dec I P V (ds2\<lparr>xs_finished := True\<rparr>)
      \<and> xz_pending dec P (ds2\<lparr>xs_finished := True\<rparr>) = xz_pending dec P ds"
    and "err = XZ_OK \<Longrightarrow>
      xz_inv valid dec I P V ds2 \<and> xz_pending dec P ds2 = xz_pending dec P ds
      \<and> length (xz_input P ds2) + k = length (xz_input P ds)
      \<and> (k = 0 \<longrightarrow> out = [] \<longrightarrow> gas x < gas (xs_xz ds))"
    and "err = XZ_OK \<or> err = XZ_STREAM_END"
    and "unat (xs_out_pos ds2) = unat (xs_out_pos ds) + length out"
proof -
  note step = xz_run_law [OF law inv nf ne src lt r]
  note inp = xz_after_input [OF inv lt src conjunct1 [OF step], of x out, folded ds2_def]
    and out = xz_after_output [OF inv c conjunct1 [OF conjunct2 [OF step]], of x k, folded ds2_def]
    and frame = xz_after_frame [of ds x k out, folded ds2_def]
  show "unat (xs_out_pos ds2) = unat (xs_out_pos ds) + length out"
    by (rule out(3))
  show "err = XZ_OK \<or> err = XZ_STREAM_END"
    using step by (cases err) auto
  have pend: "xz_pending dec P ds = buf_view 0 (xs_out_pos ds) (xs_out ds) @ dec (xs_xz ds) (xz_input P ds)"
    using nf c by (simp add: xz_pending_def)
  show "xz_inv valid dec I P V (ds2\<lparr>xs_finished := True\<rparr>)
      \<and> xz_pending dec P (ds2\<lparr>xs_finished := True\<rparr>) = xz_pending dec P ds" if "err = XZ_STREAM_END"
  proof -
    have "xz_pending dec P (ds2\<lparr>xs_finished := True\<rparr>) = xz_pending dec P ds"
      using that step out(2) c frame pend by (simp add: xz_pending_def [of dec P "_\<lparr>xs_finished := True\<rparr>"])
    then show ?thesis
      using inv inp(1) out(1) c frame by (simp add: xz_inv_def)
  qed
  show "xz_inv valid dec I P V ds2 \<and> xz_pending dec P ds2 = xz_pending dec P ds
      \<and> length (xz_input P ds2) + k = length (xz_input P ds)
      \<and> (k = 0 \<longrightarrow> out = [] \<longrightarrow> gas x < gas (xs_xz ds))" if "err = XZ_OK"
  proof -
    have "xz_pending dec P ds2 = xz_pending dec P ds"
      using that step out(2) c nf frame pend inp(2) by (simp add: xz_pending_def [of dec P ds2])
    then show ?thesis
      using that step inv inp out(1) c nf frame by (simp add: xz_inv_def)
  qed
qed

text \<open>The body of the loop, once the buffer has room: what it makes of the decoder's answer.\<close>

lemma xz_process_eq:
  assumes "xs_in_pos ds < xs_in_size ds" and "xz_grow h ds = Some ds1"
    and "run (xs_xz ds1) (xz_shown ds1) (xz_room ds1) = (x, k, out, err)"
    and pos: "unat (xs_out_pos (xz_after ds1 x k out)) = unat (xs_out_pos ds1) + length out"
  shows "xz_process run h ds =
    (let ds2 = xz_after ds1 x k out
     in if err = XZ_STREAM_END then Xz_End (ds2\<lparr>xs_finished := True\<rparr>)
        else if err \<noteq> XZ_OK then Xz_Err ds2
        else if out \<noteq> [] then Xz_Continue ds2 else Xz_More ds2)"
proof -
  have "xs_out_pos (xz_after ds1 x k out) - xs_out_pos ds1 = 0 \<longleftrightarrow> unat (xs_out_pos (xz_after ds1 x k out)) = unat (xs_out_pos ds1)"
    unfolding right_minus_eq by (rule word_unat_eq_iff)
  with pos have "xs_out_pos (xz_after ds1 x k out) - xs_out_pos ds1 = 0 \<longleftrightarrow> out = []"
    by simp
  then show ?thesis
    using assms(1-3) by (simp add: xz_process_def xz_after_def xz_room_def Let_def)
qed

text \<open>
  The order in which the loop goes down: the output still wanted, the input left, what the
  decoder has in store, and whether there is input to show.
\<close>

definition xz_order :: "('s \<Rightarrow> bytes) \<Rightarrow> ('x \<Rightarrow> nat) \<Rightarrow> size_t \<Rightarrow> (('x, 's) xz_stream \<times> ('x, 's) xz_stream) set" where
  "xz_order P gas need = measures
     [\<lambda>ds. unat need - unat (xs_out_pos ds), \<lambda>ds. length (xz_input P ds), \<lambda>ds. gas (xs_xz ds),
      \<lambda>ds. if xs_in_pos ds < xs_in_size ds then 0 else 1]"

lemma wf_xz_order: "wf (xz_order P gas need)"
  by (simp add: xz_order_def)

text \<open>Asking a reliable source for more input leaves the stream as it was, with input to show.\<close>

context reliable_stream
begin

lemma xz_refill:
  assumes law: "xz_law run valid dec gas" and inv: "xz_inv valid dec ok pending view ds" and nf: "\<not> xs_finished ds"
  obtains src p len where "rd (xs_source ds) (xs_in_pos ds) (xs_in_size ds + 1) = Some (src, Some p, len)"
    and "len \<noteq> 0"
    and "xz_inv valid dec ok pending view (ds\<lparr>xs_source := src, xs_in := Some p, xs_in_size := len, xs_in_pos := 0\<rparr>)"
    and "xz_pending dec pending (ds\<lparr>xs_source := src, xs_in := Some p, xs_in_size := len, xs_in_pos := 0\<rparr>)
      = xz_pending dec pending ds"
    and "pending src = xz_input pending ds"
proof -
  have pre: "ok (xs_source ds)" "unat (xs_in_pos ds) \<le> view (xs_source ds)"
    and size_le: "unat (xs_in_size ds) \<le> max_stream"
    using inv view_bound [of "xs_source ds"] pending_bound [of "xs_source ds"] by (auto simp: xz_inv_def)
  have "unat (xs_in_size ds + 1) = unat (xs_in_size ds) + 1"
    using size_le by (subst unat_add_small) (simp_all add: max_stream_def)
  then have n: "unat (xs_in_size ds + 1) \<le> max_need" "xs_in_size ds + 1 \<noteq> 0"
    using size_le by (auto simp: max_stream_def max_need_def simp del: unat_eq_0_iff simp flip: unat_eq_0_iff)
  obtain src p len where r: "rd (xs_source ds) (xs_in_pos ds) (xs_in_size ds + 1) = Some (src, Some p, len)"
    and post: "rd_post ok pending view (xz_input pending ds) (xs_in_size ds + 1) src p len"
    using rd_reliable [OF pre n(1)] unfolding xz_input_def by blast
  have val: "valid (xs_xz ds) (xz_input pending ds)"
    using inv nf by (simp add: xz_inv_def)
  then have "xz_input pending ds \<noteq> []"
    using law by (auto simp: xz_law_def)
  then have len: "len \<noteq> 0"
    using post n(2) by (auto simp: rd_post_def min_def split: if_splits)
  let ?ds2 = "ds\<lparr>xs_source := src, xs_in := Some p, xs_in_size := len, xs_in_pos := 0\<rparr>"
  have src: "pending src = xz_input pending ds"
    using post by (simp add: rd_post_def)
  have pend: "xz_pending dec pending ?ds2 = xz_pending dec pending ds"
    using src by (simp add: xz_pending_def xz_input_def)
  have "xz_inv valid dec ok pending view ?ds2"
    using inv post val pend src by (simp add: xz_inv_def rd_post_def) (simp add: xz_input_def)
  from that [OF r len this pend src] show thesis .
qed

lemma xz_done:
  assumes "xz_inv valid dec ok pending view ds" and "xs_consumed ds = 0"
    and "xs_finished ds \<or> \<not> xs_out_pos ds < need"
  shows "rd_post (xz_inv valid dec ok pending view) (xz_pending dec pending) xz_view
    (xz_pending dec pending ds) need ds (xs_out ds) (xs_out_pos ds)"
  using xz_buffered [OF assms(1)] assms by (auto simp: rd_post_def xz_view_def word_less_nat_alt)

definition xz_loop_post where
  "xz_loop_post h valid dec rest need r \<longleftrightarrow>
     (\<exists>ds' p len. r = Some (ds', p, len) \<and>
        (case p of
           None \<Rightarrow> len = 0 \<and> (\<exists>n. \<not> grant h n)
         | Some b \<Rightarrow> rd_post (xz_inv valid dec ok pending view) (xz_pending dec pending) xz_view rest need ds' b len))"

text \<open>The turn that asks for more input, given what the loop does once it is there.\<close>

lemma xz_loop_more:
  assumes law: "xz_law run valid dec gas" and inv: "xz_inv valid dec ok pending view ds2" and nf: "\<not> xs_finished ds2"
    and c: "xs_consumed ds2 = 0" and need: "xs_out_pos ds2 < need" and step: "xz_process run h ds = Xz_More ds2"
    and rest: "\<And>ds3. \<lbrakk>xz_inv valid dec ok pending view ds3; \<not> xs_finished ds3; xs_consumed ds3 = 0;
      xs_out_pos ds3 = xs_out_pos ds2; xs_xz ds3 = xs_xz ds2; xz_input pending ds3 = xz_input pending ds2;
      xs_in_pos ds3 < xs_in_size ds3\<rbrakk>
      \<Longrightarrow> xz_loop_post h valid dec (xz_pending dec pending ds3) need (read_xz_loop run h rd ds3 need)"
  shows "xz_loop_post h valid dec (xz_pending dec pending ds2) need (read_xz_loop run h rd ds need)"
proof -
  obtain src p len where r: "rd (xs_source ds2) (xs_in_pos ds2) (xs_in_size ds2 + 1) = Some (src, Some p, len)"
    and len: "len \<noteq> 0"
    and inv3: "xz_inv valid dec ok pending view (ds2\<lparr>xs_source := src, xs_in := Some p, xs_in_size := len, xs_in_pos := 0\<rparr>)"
    and pend3: "xz_pending dec pending (ds2\<lparr>xs_source := src, xs_in := Some p, xs_in_size := len, xs_in_pos := 0\<rparr>)
      = xz_pending dec pending ds2"
    and src3: "pending src = xz_input pending ds2"
    by (rule xz_refill [OF law inv nf])
  let ?ds3 = "ds2\<lparr>xs_source := src, xs_in := Some p, xs_in_size := len, xs_in_pos := 0\<rparr>"
  have "xz_loop_post h valid dec (xz_pending dec pending ?ds3) need (read_xz_loop run h rd ?ds3 need)"
    by (rule rest) (use inv3 nf c src3 len in \<open>simp_all add: xz_input_def word_gt_0\<close>)
  then show ?thesis
    using step r len need pend3 by (simp add: read_xz_loop.simps [of run h rd ds])
qed

text \<open>The turn that calls the decoder, given what the loop does from every state further down.\<close>

lemma xz_loop_turn:
  assumes law: "xz_law run valid dec gas" and inv: "xz_inv valid dec ok pending view ds" and nf: "\<not> xs_finished ds"
    and c: "xs_consumed ds = 0" and need: "xs_out_pos ds < need" and lt: "xs_in_pos ds < xs_in_size ds"
    and g: "xz_grow h ds = Some ds1"
    and down: "\<And>ds3. \<lbrakk>(ds3, ds) \<in> xz_order pending gas need; xz_inv valid dec ok pending view ds3; \<not> xs_finished ds3;
      xs_consumed ds3 = 0; xs_out_pos ds3 < need\<rbrakk>
      \<Longrightarrow> xz_loop_post h valid dec (xz_pending dec pending ds3) need (read_xz_loop run h rd ds3 need)"
  shows "xz_loop_post h valid dec (xz_pending dec pending ds) need (read_xz_loop run h rd ds need)"
proof -
  note gr = xz_grow_inv [OF inv c g]
  have src: "view (xs_source ds) \<le> length (pending (xs_source ds))"
    using inv view_bound by (simp add: xz_inv_def)
  have inv1: "xz_inv valid dec ok pending view ds1" and c1: "xs_consumed ds1 = 0" and nf1: "\<not> xs_finished ds1"
    and ne: "xs_out_pos ds1 \<noteq> xs_out_size ds1" and lt1: "xs_in_pos ds1 < xs_in_size ds1"
    and src1: "view (xs_source ds1) \<le> length (pending (xs_source ds1))"
    and inp1: "xz_input pending ds1 = xz_input pending ds"
    using gr nf lt src by (auto simp: xz_input_def)
  obtain x k out err where r: "run (xs_xz ds1) (xz_shown ds1) (xz_room ds1) = (x, k, out, err)"
    by (metis prod_cases4)
  define ds2 where "ds2 = xz_after ds1 x k out"
  note st = xz_step_ok [OF law inv1 c1 nf1 ne src1 lt1 r, folded ds2_def]
  note step = xz_process_eq [where run = run, OF lt g r st(4) [unfolded ds2_def], folded ds2_def, unfolded Let_def]
  have c2: "xs_consumed ds2 = 0" "\<not> xs_finished ds2" "xs_xz ds2 = x"
    using c1 nf1 by (simp_all add: ds2_def xz_after_frame)
  have pos: "unat (xs_out_pos ds2) = unat (xs_out_pos ds) + length out"
    using st(4) gr by simp
  consider (stop) "err = XZ_STREAM_END" | (more) "err = XZ_OK" "out = []"
    | (short) "err = XZ_OK" "out \<noteq> []" "xs_out_pos ds2 < need" | (full) "err = XZ_OK" "out \<noteq> []" "\<not> xs_out_pos ds2 < need"
    using st(3) by blast
  then show ?thesis
  proof cases
    case stop
    then show ?thesis
      using xz_done [of valid dec "ds2\<lparr>xs_finished := True\<rparr>" need] st(1) c2 gr step
      by (simp add: read_xz_loop.simps [of run h rd ds] xz_result_def xz_loop_post_def)
  next
    case more
    note inv2 = st(2) [OF more(1)]
    have "xz_loop_post h valid dec (xz_pending dec pending ds2) need (read_xz_loop run h rd ds need)"
    proof (rule xz_loop_more [OF law conjunct1 [OF inv2] c2(2,1)])
      show "xs_out_pos ds2 < need" "xz_process run h ds = Xz_More ds2"
        using pos more need step by (simp_all add: word_less_nat_alt)
    qed (rule down; use inv2 more pos need inp1 c2(3) gr in
        \<open>cases "k = 0"; simp add: xz_order_def measures_def word_less_nat_alt\<close>)
    then show ?thesis
      using inv2 gr by simp
  next
    case short
    have "(ds2, ds) \<in> xz_order pending gas need"
      using short(2) pos need by (simp add: xz_order_def measures_def word_less_nat_alt diff_less_mono2)
    then show ?thesis
      using down [of ds2] st(2) c2 short gr step by (simp add: read_xz_loop.simps [of run h rd ds])
  next
    case full
    then show ?thesis
      using xz_done [of valid dec ds2 need] st(2) c2 gr step
      by (simp add: read_xz_loop.simps [of run h rd ds] xz_result_def xz_loop_post_def)
  qed
qed

lemma read_xz_loop_ok:
  assumes law: "xz_law run valid dec gas" and "xz_inv valid dec ok pending view ds"
    and "\<not> xs_finished ds" and "xs_consumed ds = 0" and "xs_out_pos ds < need"
  shows "xz_loop_post h valid dec (xz_pending dec pending ds) need (read_xz_loop run h rd ds need)"
  using assms(2-)
proof (induction ds rule: wf_induct_rule [OF wf_xz_order [of pending gas need]])
  case (1 ds)
  show ?case
  proof (cases "xs_in_pos ds < xs_in_size ds")
    case False
    then have "xz_process run h ds = Xz_More ds"
      by (simp add: xz_process_def)
    then show ?thesis
      by (rule xz_loop_more [OF law "1.prems"])
        (rule "1.IH"; use False "1.prems"(4) in \<open>simp add: xz_order_def measures_def\<close>)
  next
    case lt: True
    show ?thesis
    proof (cases "xz_grow h ds")
      case None
      then show ?thesis
        using lt xz_grow_refused [OF None] by (simp add: read_xz_loop.simps [of run h rd ds] xz_process_def xz_loop_post_def)
    next
      case (Some ds1)
      show ?thesis
        by (rule xz_loop_turn [OF law "1.prems" lt Some "1.IH"])
    qed
  qed
qed

lemma read_xz_ok:
  assumes law: "xz_law run valid dec gas" and inv: "xz_inv valid dec ok pending view ds"
    and c: "unat c \<le> xz_view ds" and n: "unat n \<le> max_need"
  shows "xz_loop_post h valid dec (drop (unat c) (xz_pending dec pending ds)) n (read_xz run h rd ds c n)"
proof -
  let ?ds1 = "ds\<lparr>xs_consumed := xs_consumed ds + c\<rparr>"
  have ok: "buf_ok (xs_consumed ds) (xs_out_pos ds) (xs_out_size ds) (xs_out ds)"
    using inv by (simp add: xz_inv_def)
  have cv: "unat c \<le> unat (xs_out_pos ds) - unat (xs_consumed ds)"
    using c by (simp add: xz_view_def)
  note con = buf_consume [OF ok cv]
  have pend1: "xz_pending dec pending ?ds1 = drop (unat c) (xz_pending dec pending ds)"
    using con(2) cv length_buf_view [OF ok] by (simp add: xz_pending_def xz_input_def)
  have inv1: "xz_inv valid dec ok pending view ?ds1"
    using inv con(1) pend1 by (auto simp: xz_inv_def xz_input_def)
  note b1 = xz_buffered [OF inv1]
  have le: "unat (xs_consumed ?ds1) \<le> unat (xs_out_pos ?ds1)" and ok1: "buf_ok (xs_consumed ?ds1) (xs_out_pos ?ds1) (xs_out_size ?ds1) (xs_out ?ds1)"
    using con(1) by (simp_all add: buf_ok_def)
  have "unat (xs_consumed ?ds1) \<le> max_stream + max_stream"
    using inv1 le by (auto simp: xz_inv_def buf_ok_def max_stream_def)
  then have "unat (xs_consumed ?ds1) + unat n < 2 ^ LENGTH(64)"
    using n by (simp add: max_stream_def max_need_def)
  then have sum: "unat (xs_consumed ?ds1 + n) = unat (xs_consumed ?ds1) + unat n"
    by (rule unat_add_small)
  have diff: "unat (xs_out_pos ?ds1 - xs_consumed ?ds1) = xz_view ?ds1"
    using le by (simp add: xz_view_def unat_sub_small)
  show ?thesis
  proof (cases "xs_finished ?ds1 \<or> xs_consumed ?ds1 + n \<le> xs_out_pos ?ds1")
    case True
    then have "min (unat n) (length (xz_pending dec pending ?ds1)) \<le> xz_view ?ds1"
    proof
      assume "xs_consumed ?ds1 + n \<le> xs_out_pos ?ds1"
      then show ?thesis
        using sum by (simp add: word_le_nat_alt xz_view_def)
    qed (use b1(3) in simp)
    then have "rd_post (xz_inv valid dec ok pending view) (xz_pending dec pending) xz_view
        (xz_pending dec pending ?ds1) n ?ds1 (drop (unat (xs_consumed ?ds1)) (xs_out ?ds1))
        (xs_out_pos ?ds1 - xs_consumed ?ds1)"
      using inv1 b1 diff by (simp add: rd_post_def)
    then show ?thesis
      using True pend1 by (simp add: read_xz_def Let_def xz_loop_post_def)
  next
    case False
    let ?ds2 = "?ds1\<lparr>xs_out := slide (xs_out ?ds1) (xs_consumed ?ds1) (xs_out_pos ?ds1),
      xs_out_pos := xs_out_pos ?ds1 - xs_consumed ?ds1, xs_consumed := 0\<rparr>"
    have pend2: "xz_pending dec pending ?ds2 = xz_pending dec pending ?ds1"
      using buf_slide(2) [OF ok1] by (simp add: xz_pending_def xz_input_def)
    have inv2: "xz_inv valid dec ok pending view ?ds2"
      using inv1 buf_slide(1) [OF ok1] pend2 by (simp add: xz_inv_def xz_input_def)
    have lt: "xs_out_pos ?ds2 < n"
      using False sum diff le by (auto simp: word_less_nat_alt word_le_nat_alt xz_view_def)
    have "xz_loop_post h valid dec (xz_pending dec pending ?ds2) n (read_xz_loop run h rd ?ds2 n)"
      by (rule read_xz_loop_ok [OF law inv2 _ _ lt]) (use False in simp_all)
    then show ?thesis
      using False pend1 pend2 by (simp add: read_xz_def Let_def)
  qed
qed

lemma xz_stream:
  assumes law: "xz_law run valid dec gas"
  shows "byte_stream (read_xz run h rd) (xz_inv valid dec ok pending view) (xz_pending dec pending) xz_view"
proof (rule byte_streamI, goal_cases)
  case (1 s)
  then show ?case
    using xz_buffered(2) [OF 1] by (simp add: xz_inv_def)
qed (use read_xz_ok [OF law, of _ _ _ h] in \<open>fastforce simp: xz_loop_post_def\<close>)+

lemma xz_reliable:
  assumes law: "xz_law run valid dec gas" and g: "\<forall>n. grant h n"
  shows "reliable_stream (read_xz run h rd) (xz_inv valid dec ok pending view) (xz_pending dec pending) xz_view"
proof (intro reliable_stream.intro reliable_stream_axioms.intro xz_stream [OF law])
  fix s s' c n p len
  assume "xz_inv valid dec ok pending view s" "unat c \<le> xz_view s" "unat n \<le> max_need"
    "read_xz run h rd s c n = Some (s', p, len)"
  with read_xz_ok [OF law, of s c n h] g show "p \<noteq> None"
    by (auto simp: xz_loop_post_def split: option.splits)
qed

end

end
