(* ===== verification/Path.thy ===== *)
theory Path
  imports CLib
begin

text \<open>
  \<^verbatim>\<open>tools/stream/path.c\<close>: the check that keeps an archive from writing outside the
  directory it is unpacked into.  The main result characterises the paths \<open>valid_path\<close> accepts by
  their components.
\<close>

text \<open>\<open>!strcmp(next, "..") || !strncmp(next, "../", 3)\<close>.\<close>

definition dotdot_here :: "string \<Rightarrow> bool" where
  "dotdot_here next \<longleftrightarrow> next = ''..'' \<or> strncmp_eq next ''../'' 3"

function valid_path_loop :: "string \<Rightarrow> bool" where
  "valid_path_loop next =
     (if dotdot_here next then False
      else case strchr next (CHR ''/'') of
             None \<Rightarrow> True
           | Some slash \<Rightarrow> valid_path_loop (drop 1 slash))"
  by pat_completeness auto
termination
proof (relation "measure length", goal_cases)
  case (2 s slash)
  then show ?case
    using strchr_length [of s "CHR ''/''" slash] by (cases slash) auto
qed simp

declare valid_path_loop.simps [simp del]

definition valid_path :: "string \<Rightarrow> bool" where
  "valid_path name =
     (if strchr name (CHR '':'') \<noteq> None \<or> take 1 name = ''/'' \<or> strchr name (CHR 0x5C) \<noteq> None
      then False
      else valid_path_loop name)"

text \<open>
  The result is the concatenated path or a null pointer.  The code does not check \<^verbatim>\<open>malloc\<close> for failure; a
  failing one, which would be a crash, is not modelled.
\<close>

definition clean_path :: "string \<Rightarrow> string \<Rightarrow> string option" where
  "clean_path name1 name2 =
     (let ret = (if name1 \<noteq> [] then name1 else []) @ (if name2 \<noteq> [] then name2 else [])
      in if ret = [] \<or> \<not> valid_path ret then None else Some ret)"

text \<open>The components of a path: the maximal runs between slashes.\<close>

fun components :: "string \<Rightarrow> string list" where
  "components [] = [[]]"
| "components (c # cs) =
     (if c = CHR ''/'' then [] # components cs
      else (case components cs of [] \<Rightarrow> [[c]] | x # xs \<Rightarrow> (c # x) # xs))"

definition safe_path :: "string \<Rightarrow> bool" where
  "safe_path p \<longleftrightarrow> p \<noteq> [] \<and> hd p \<noteq> CHR ''/'' \<and> CHR '':'' \<notin> set p \<and> CHR 0x5C \<notin> set p
     \<and> ''..'' \<notin> set (components p)"

lemma components_ne [simp]: "components s \<noteq> []"
  by (cases s) (auto split: list.splits)

lemma components_no_slash:
  "CHR ''/'' \<notin> set s \<Longrightarrow> components s = [s]"
  by (induction s) auto

lemma components_slash:
  assumes "CHR ''/'' \<notin> set s"
  shows "components (s @ CHR ''/'' # t) = s # components t"
  using assms by (induction s) auto

lemma dotdot_here_iff:
  "dotdot_here s \<longleftrightarrow> hd (components s) = ''..''"
proof (cases "strchr s (CHR ''/'')")
  case None
  then have no: "CHR ''/'' \<notin> set s"
    by (simp add: strchr_None_iff)
  have "take 3 s \<noteq> ''../''"
  proof
    assume "take 3 s = ''../''"
    then have "CHR ''/'' \<in> set (take 3 s)"
      by simp
    with no show False
      by (auto dest: in_set_takeD)
  qed
  with no show ?thesis
    by (auto simp: dotdot_here_def strncmp_eq_def components_no_slash)
next
  case (Some p)
  then obtain xs ys where s: "s = xs @ CHR ''/'' # ys" "CHR ''/'' \<notin> set xs"
    using strchr_SomeD by blast
  have "take 3 s = ''../'' \<longleftrightarrow> xs = ''..''"
  proof
    assume t: "take 3 s = ''../''"
    then show "xs = ''..''"
      using s by (cases xs rule: list.exhaust; cases "tl xs"; cases "tl (tl xs)") auto
  qed (use s in simp)
  moreover have "s \<noteq> ''..''"
  proof
    assume "s = ''..''"
    moreover have "CHR ''/'' \<in> set s"
      using s(1) by simp
    ultimately show False
      by simp
  qed
  ultimately show ?thesis
    using s by (simp add: dotdot_here_def strncmp_eq_def components_slash)
qed

lemma valid_path_loop_iff: "valid_path_loop s \<longleftrightarrow> ''..'' \<notin> set (components s)"
proof (induction s rule: valid_path_loop.induct)
  case (1 s)
  show ?case
  proof (cases "strchr s (CHR ''/'')")
    case None
    then have "components s = [s]"
      by (simp add: strchr_None_iff components_no_slash)
    with None show ?thesis
      by (auto simp: valid_path_loop.simps [of s] dotdot_here_iff)
  next
    case (Some p)
    then obtain xs ys where s: "s = xs @ CHR ''/'' # ys" "CHR ''/'' \<notin> set xs" "p = CHR ''/'' # ys"
      using strchr_SomeD by blast
    then have comp: "components s = xs # components ys"
      by (simp add: components_slash)
    show ?thesis
    proof (cases "dotdot_here s")
      case True
      then show ?thesis
        using comp by (simp add: valid_path_loop.simps [of s] dotdot_here_iff)
    next
      case False
      then have "valid_path_loop s = valid_path_loop ys"
        using Some s(3) by (simp add: valid_path_loop.simps [of s])
      then show ?thesis
        using "1.IH" [OF False Some] False comp s by (auto simp: dotdot_here_iff)
    qed
  qed
qed

lemma clean_path_iff: "clean_path a b = Some p \<longleftrightarrow> p = a @ b \<and> safe_path p"
proof -
  have "take 1 p = ''/'' \<longleftrightarrow> p \<noteq> [] \<and> hd p = CHR ''/''"
    by (cases p) auto
  then show ?thesis
    by (auto simp: clean_path_def valid_path_def safe_path_def Let_def strchr_None_iff valid_path_loop_iff)
qed

end
