(* ===== verification/Extract.thy ===== *)
theory Extract
  imports Decoders Path
begin

text \<open>
  \<^verbatim>\<open>tools/download/extract.c\<close>: copying a stream to a file and unpacking a container.

  The operating system is seen through the calls the program makes.  \<open>w_log\<close> is the sequence of
  calls so far with their outcomes, and the environment decides, from that history, whether the next
  call succeeds; theorems hold for every such environment.
\<close>

subsection \<open>The operating system\<close>

datatype sys_call =
    Sys_mkdir string
  | Sys_create string int
  | Sys_write string bytes
  | Sys_symlink string string
  | Sys_unlink string
  | Sys_rmdir string
  | Sys_percent int

type_synonym sys_log = "(sys_call \<times> bool) list"

text \<open>
  What opening a path shows, links followed: a directory with what \<^verbatim>\<open>readdir\<close> lists, in that order and with
  what opening its directories shows in turn; a directory that cannot be opened or listed; or anything else:
  a file, a link inside a directory, an entry of unknown type.
\<close>

datatype fnode = Fn_other | Fn_locked | Fn_dir "(string \<times> fnode) list"

record env =
  e_heap :: heap
  e_sys :: "sys_log \<Rightarrow> sys_call \<Rightarrow> bool"
  e_open :: "sys_log \<Rightarrow> string \<Rightarrow> fnode option"

definition do_sys :: "env \<Rightarrow> sys_call \<Rightarrow> sys_log \<Rightarrow> bool \<times> sys_log" where
  "do_sys e call w = (let ok = e_sys e w call in (ok, w @ [(call, ok)]))"


subsection \<open>make_directory, open_path, extract_path, extract_file\<close>

text \<open>\<open>pre\<close> is the text of \<open>file\<close> in front of \<open>next\<close>.\<close>

function make_directory_loop :: "env \<Rightarrow> string \<Rightarrow> string \<Rightarrow> sys_log \<Rightarrow> sys_log" where
  "make_directory_loop e pre next w =
     (case strchr next (CHR ''/'') of
        None \<Rightarrow> w
      | Some slash \<Rightarrow>
          let dir = pre @ before next slash
          in make_directory_loop e (dir @ ''/'') (drop 1 slash) (snd (do_sys e (Sys_mkdir dir) w)))"
  by pat_completeness auto
termination
proof (relation "measure (\<lambda>(e, pre, next, w). length next)", goal_cases)
  case (2 e pre s w slash dir)
  then show ?case
    using strchr_length [of s "CHR ''/''" slash] by (cases slash) auto
qed simp

declare make_directory_loop.simps [simp del]

definition make_directory :: "env \<Rightarrow> string \<Rightarrow> sys_log \<Rightarrow> sys_log" where
  "make_directory e file w = make_directory_loop e [] file w"

text \<open>A file opened for writing is known by its path.\<close>

definition open_path :: "env \<Rightarrow> string \<Rightarrow> string \<Rightarrow> int \<Rightarrow> sys_log \<Rightarrow> string option \<times> sys_log" where
  "open_path e dir file mode w =
     (if \<not> grant (e_heap e) (of_nat (length dir + 1 + length file + 1)) then (None, w)
      else let path = dir @ ''/'' @ file;
               (ok, w1) = do_sys e (Sys_create path mode) (make_directory e path w)
           in (if ok then Some path else None, w1))"

text \<open>
  The copy loop.  A view of length 0 ends it with success, whether the stream is at its end or has
  failed.
\<close>

partial_function (option) extract_loop ::
  "env \<Rightarrow> 's reader \<Rightarrow> string \<Rightarrow> uint64 \<Rightarrow> 's \<Rightarrow> size_t \<Rightarrow> uint64 \<Rightarrow> int \<Rightarrow> sys_log
    \<Rightarrow> (int \<times> 's \<times> sys_log) option" where
  "extract_loop e rd f progress_size s len recvd last_percent w =
     (case rd s len 1 of
        None \<Rightarrow> None
      | Some (s1, p, len1) \<Rightarrow>
          if len1 = 0 then Some (0, s1, w)
          else let (ok, w1) = do_sys e (Sys_write f (take (unat len1) (case p of None \<Rightarrow> [] | Some b \<Rightarrow> b))) w
               in if \<not> ok then Some (- 1, s1, w1)
                  else let recvd1 = recvd + len1;
                           percent = to_int32 (uint (recvd1 * 100 div progress_size));
                           report = (progress_size \<noteq> 0 \<and> percent \<noteq> last_percent)
                       in extract_loop e rd f progress_size s1 len1 recvd1
                            (if report then percent else last_percent)
                            (if report then snd (do_sys e (Sys_percent percent) w1) else w1))"

definition extract_file ::
  "env \<Rightarrow> 's reader \<Rightarrow> 's \<Rightarrow> string \<Rightarrow> uint64 \<Rightarrow> sys_log \<Rightarrow> (int \<times> 's \<times> sys_log) option" where
  "extract_file e rd s f progress_size w = extract_loop e rd f progress_size s 0 0 0 w"

definition extract_path ::
  "env \<Rightarrow> 's reader \<Rightarrow> 's \<Rightarrow> string \<Rightarrow> string \<Rightarrow> int \<Rightarrow> sys_log \<Rightarrow> (int \<times> 's \<times> sys_log) option" where
  "extract_path e rd s dir file mode w =
     (case open_path e dir file mode w of
        (None, w1) \<Rightarrow> Some (- 1, s, w1)
      | (Some f, w1) \<Rightarrow> extract_file e rd s f 0 w1)"


subsection \<open>extract_container\<close>

text \<open>
  The data members of \<^verbatim>\<open>struct container\<close>, and its function pointers.  \<open>c_open\<close> lends the
  stream of a member to the caller; \<open>c_close_file s c\<close> is the container after that stream is
  closed, when the underlying source is the container's again.
\<close>

record container_hdr =
  file_path :: string
  link_target :: "string option"
  file_size :: uint64
  file_mode :: int

record ('c, 'f) container_ops =
  c_next :: "'c \<Rightarrow> (int \<times> 'c) option"
  c_open :: "'c \<Rightarrow> 'f option \<times> 'c"
  c_read :: "'f reader"
  c_close_file :: "'f \<Rightarrow> 'c \<Rightarrow> 'c"
  c_hdr :: "'c \<Rightarrow> container_hdr"

definition extract_link :: "env \<Rightarrow> string \<Rightarrow> string \<Rightarrow> string \<Rightarrow> sys_log \<Rightarrow> bool \<times> sys_log" where
  "extract_link e dir path target w =
     (if \<not> grant (e_heap e) (of_nat (length dir + 1 + length path + 1)) then (False, w)
      else do_sys e (Sys_symlink target (dir @ ''/'' @ path)) w)"

partial_function (option) extract_container ::
  "env \<Rightarrow> ('c, 'f) container_ops \<Rightarrow> 'c \<Rightarrow> string \<Rightarrow> sys_log \<Rightarrow> (int \<times> 'c \<times> sys_log) option" where
  "extract_container e ops c dir w =
     (case c_next ops c of
        None \<Rightarrow> None
      | Some (err, c1) \<Rightarrow>
          if err < 0 then Some (err, c1, w)
          else if 0 < err then Some (0, c1, w)
          else case link_target (c_hdr ops c1) of
                 Some target \<Rightarrow>
                   (case extract_link e dir (file_path (c_hdr ops c1)) target w of
                      (ok, w1) \<Rightarrow> if ok then extract_container e ops c1 dir w1 else Some (- 1, c1, w1))
               | None \<Rightarrow>
                   (case c_open ops c1 of
                      (None, c2) \<Rightarrow> Some (- 1, c2, w)
                    | (Some s, c2) \<Rightarrow>
                        (case extract_path e (c_read ops) s dir (file_path (c_hdr ops c1)) (file_mode (c_hdr ops c1)) w of
                           None \<Rightarrow> None
                         | Some (err1, s1, w1) \<Rightarrow>
                             let c3 = c_close_file ops s1 c2
                             in if err1 \<noteq> 0 then Some (err1, c3, w1)
                                else extract_container e ops c3 dir w1)))"


subsection \<open>Where the calls go\<close>

text \<open>
  \<open>grows Q w w'\<close>: the log \<open>w'\<close> is \<open>w\<close> followed by calls that satisfy \<open>Q\<close>.
\<close>

definition grows :: "(sys_call \<Rightarrow> bool) \<Rightarrow> sys_log \<Rightarrow> sys_log \<Rightarrow> bool" where
  "grows Q w w' \<longleftrightarrow> (\<exists>l. w' = w @ l \<and> (\<forall>x \<in> set l. Q (fst x)))"

lemma grows_refl [simp]: "grows Q w w"
  by (simp add: grows_def)

lemma grows_trans: "grows Q w1 w2 \<Longrightarrow> grows Q w2 w3 \<Longrightarrow> grows Q w1 w3"
  by (auto simp: grows_def)

lemma grows_mono: "grows Q w w' \<Longrightarrow> (\<And>c. Q c \<Longrightarrow> R c) \<Longrightarrow> grows R w w'"
  by (auto simp: grows_def)

lemma grows_do_sys: "do_sys e c w = (ok, w') \<Longrightarrow> Q c \<Longrightarrow> grows Q w w'"
  by (auto simp: grows_def do_sys_def Let_def)

lemma grows_snd_do_sys: "Q c \<Longrightarrow> grows Q w (snd (do_sys e c w))"
  by (auto simp: grows_def do_sys_def Let_def)

text \<open>The directories made for a path are the prefixes of it that end before a slash.\<close>

lemma make_directory_loop_grows:
  "grows (\<lambda>c. \<exists>xs ys. s = xs @ CHR ''/'' # ys \<and> c = Sys_mkdir (pre @ xs)) w (make_directory_loop e pre s w)"
proof (induction e pre s w rule: make_directory_loop.induct)
  case (1 e pre s w)
  show ?case
  proof (cases "strchr s (CHR ''/'')")
    case None
    then show ?thesis
      by (simp add: make_directory_loop.simps [of e pre s w])
  next
    case (Some slash)
    then obtain xs ys where s: "s = xs @ CHR ''/'' # ys" "slash = CHR ''/'' # ys"
      using strchr_SomeD by blast
    let ?Q = "\<lambda>c. \<exists>xs ys. s = xs @ CHR ''/'' # ys \<and> c = Sys_mkdir (pre @ xs)"
    let ?w1 = "snd (do_sys e (Sys_mkdir (pre @ xs)) w)"
    have step: "make_directory_loop e pre s w = make_directory_loop e ((pre @ xs) @ ''/'') ys ?w1"
      using Some s by (subst make_directory_loop.simps) (simp add: Let_def)
    have "grows ?Q w ?w1"
      by (rule grows_snd_do_sys) (use s(1) in blast)
    moreover have "grows ?Q ?w1 (make_directory_loop e ((pre @ xs) @ ''/'') ys ?w1)"
    proof (rule grows_mono)
      show "grows (\<lambda>c. \<exists>us vs. ys = us @ CHR ''/'' # vs \<and> c = Sys_mkdir (((pre @ xs) @ ''/'') @ us)) ?w1
          (make_directory_loop e ((pre @ xs) @ ''/'') ys ?w1)"
        using "1.IH" [OF Some refl] s by simp
      show "?Q c" if "\<exists>us vs. ys = us @ CHR ''/'' # vs \<and> c = Sys_mkdir (((pre @ xs) @ ''/'') @ us)" for c
      proof -
        from that obtain us vs where "ys = us @ CHR ''/'' # vs" "c = Sys_mkdir (((pre @ xs) @ ''/'') @ us)"
          by blast
        then have "s = (xs @ CHR ''/'' # us) @ CHR ''/'' # vs \<and> c = Sys_mkdir (pre @ (xs @ CHR ''/'' # us))"
          using s(1) by simp
        then show ?thesis
          by blast
      qed
    qed
    ultimately show ?thesis
      unfolding step by (rule grows_trans)
  qed
qed

text \<open>A copy touches only the file it was given.\<close>

definition copies_to :: "string \<Rightarrow> sys_call \<Rightarrow> bool" where
  "copies_to f c \<longleftrightarrow> (case c of Sys_write g bs \<Rightarrow> g = f | Sys_percent n \<Rightarrow> True | _ \<Rightarrow> False)"

lemma extract_loop_grows:
  assumes "extract_loop e rd f pg s len recvd lp w = Some r"
  shows "grows (copies_to f) w (snd (snd r))"
proof (rule extract_loop.raw_induct [where P = "\<lambda>e rd f pg s len recvd lp w r. grows (copies_to f) w (snd (snd r))", OF _ assms], goal_cases)
  case (1 loop e rd f pg s len recvd lp w r)
  obtain s1 p len1 where rd: "rd s len 1 = Some (s1, p, len1)"
    using "1"(2) by (auto split: option.splits)
  let ?data = "take (unat len1) (case p of None \<Rightarrow> [] | Some b \<Rightarrow> b)"
  obtain ok w1 where sys: "do_sys e (Sys_write f ?data) w = (ok, w1)"
    by fastforce
  then have w1: "grows (copies_to f) w w1"
    by (rule grows_do_sys) (simp add: copies_to_def)
  consider "len1 = 0" | "len1 \<noteq> 0" "\<not> ok" | "len1 \<noteq> 0" ok
    by blast
  then show ?case
  proof cases
    case 3
    let ?pc = "to_int32 (uint ((recvd + len1) * 100 div pg))"
    let ?w2 = "if pg \<noteq> 0 \<and> ?pc \<noteq> lp then snd (do_sys e (Sys_percent ?pc) w1) else w1"
    have w2: "grows (copies_to f) w1 ?w2"
      by (auto intro: grows_snd_do_sys simp: copies_to_def)
    have "loop e rd f pg s1 len1 (recvd + len1) (if pg \<noteq> 0 \<and> ?pc \<noteq> lp then ?pc else lp) ?w2 = Some r"
      using "1"(2) rd sys 3 by (simp add: Let_def)
    then have "grows (copies_to f) ?w2 (snd (snd r))"
      by (rule "1"(1))
    with w1 w2 show ?thesis
      by (blast intro: grows_trans)
  qed (use "1"(2) rd sys w1 in \<open>auto simp: Let_def\<close>)
qed


subsection \<open>Unpacking stays inside the target directory\<close>

definition safe_target :: "string \<Rightarrow> bool" where
  "safe_target t \<longleftrightarrow> t \<noteq> [] \<and> CHR ''/'' \<notin> set t \<and> CHR '':'' \<notin> set t \<and> CHR 0x5C \<notin> set t
     \<and> t \<noteq> ''.'' \<and> t \<noteq> ''..''"

definition confined :: "string \<Rightarrow> sys_call \<Rightarrow> bool" where
  "confined dir c \<longleftrightarrow>
     (case c of
        Sys_mkdir d \<Rightarrow> \<exists>q r. safe_path q \<and> dir @ ''/'' @ q = d @ ''/'' @ r
      | Sys_create p m \<Rightarrow> \<exists>q. safe_path q \<and> p = dir @ ''/'' @ q
      | Sys_write p bs \<Rightarrow> \<exists>q. safe_path q \<and> p = dir @ ''/'' @ q
      | Sys_symlink t p \<Rightarrow> safe_target t \<and> (\<exists>q. safe_path q \<and> p = dir @ ''/'' @ q)
      | Sys_unlink p \<Rightarrow> False
      | Sys_rmdir p \<Rightarrow> False
      | Sys_percent n \<Rightarrow> True)"

definition hdr_safe :: "container_hdr \<Rightarrow> bool" where
  "hdr_safe h \<longleftrightarrow> safe_path (file_path h) \<and> (\<forall>t. link_target h = Some t \<longrightarrow> safe_target t)"

lemma open_path_confined:
  assumes "safe_path file" and "open_path e dir file mode w = (r, w1)"
  shows "grows (confined dir) w w1" and "r = Some f \<Longrightarrow> f = dir @ ''/'' @ file"
proof -
  let ?p = "dir @ ''/'' @ file"
  have mk: "grows (confined dir) w (make_directory e ?p w)"
    unfolding make_directory_def
  proof (rule grows_mono [OF make_directory_loop_grows])
    fix c
    assume "\<exists>xs ys. ?p = xs @ CHR ''/'' # ys \<and> c = Sys_mkdir ([] @ xs)"
    then obtain xs ys where "?p = xs @ ''/'' @ ys" "c = Sys_mkdir xs"
      by auto
    with assms(1) show "confined dir c"
      unfolding confined_def by (simp only: sys_call.case) blast
  qed
  have create: "confined dir (Sys_create ?p mode)"
    using assms(1) by (auto simp: confined_def)
  obtain ok w2 where sys: "do_sys e (Sys_create ?p mode) (make_directory e ?p w) = (ok, w2)"
    by fastforce
  note all = grows_trans [OF mk grows_do_sys [where Q = "confined dir", OF sys create]]
  show "grows (confined dir) w w1" and "r = Some f \<Longrightarrow> f = dir @ ''/'' @ file"
    using assms(2) all sys by (auto simp: open_path_def Let_def split: if_splits)
qed

lemma extract_path_confined:
  assumes "safe_path file" and "extract_path e rd s dir file mode w = Some (err, s1, w1)"
  shows "grows (confined dir) w w1"
proof -
  obtain r w2 where o: "open_path e dir file mode w = (r, w2)"
    by fastforce
  note op = open_path_confined [OF assms(1) o]
  show ?thesis
  proof (cases r)
    case None
    then show ?thesis
      using assms(2) o op(1) by (simp add: extract_path_def)
  next
    case (Some f)
    then have "extract_loop e rd f 0 s 0 0 0 w2 = Some (err, s1, w1)"
      using assms(2) o by (simp add: extract_path_def extract_file_def)
    then have "grows (copies_to f) w2 w1"
      using extract_loop_grows by fastforce
    then have "grows (confined dir) w2 w1"
      by (rule grows_mono) (use assms(1) op(2) [OF Some] in \<open>auto simp: copies_to_def confined_def split: sys_call.splits\<close>)
    with op(1) show ?thesis
      by (rule grows_trans)
  qed
qed

text \<open>
  The contract that confines an archive: every member it presents has a safe name, and a safe
  target if it is a link.
\<close>

locale safe_container =
  fixes ops :: "('c, 'f) container_ops"
  assumes next_safe: "c_next ops c = Some (0, c1) \<Longrightarrow> hdr_safe (c_hdr ops c1)"
begin

lemma extract_container_step:
  assumes IH: "\<And>c w r. loop e ops c dir w = Some r \<Longrightarrow> grows (confined dir) w (snd (snd r))"
    and nx: "c_next ops c = Some (0, c1)"
    and body: "(case link_target (c_hdr ops c1) of
        Some target \<Rightarrow>
          (case extract_link e dir (file_path (c_hdr ops c1)) target w of
             (ok, w1) \<Rightarrow> if ok then loop e ops c1 dir w1 else Some (- 1, c1, w1))
      | None \<Rightarrow>
          (case c_open ops c1 of
             (None, c2) \<Rightarrow> Some (- 1, c2, w)
           | (Some s, c2) \<Rightarrow>
               (case extract_path e (c_read ops) s dir (file_path (c_hdr ops c1)) (file_mode (c_hdr ops c1)) w of
                  None \<Rightarrow> None
                | Some (err1, s1, w1) \<Rightarrow>
                    let c3 = c_close_file ops s1 c2
                    in if err1 \<noteq> 0 then Some (err1, c3, w1) else loop e ops c3 dir w1))) = Some r"
  shows "grows (confined dir) w (snd (snd r))"
proof (cases "link_target (c_hdr ops c1)")
  case (Some target)
  obtain ok w1 where l: "extract_link e dir (file_path (c_hdr ops c1)) target w = (ok, w1)"
    by fastforce
  have "confined dir (Sys_symlink target (dir @ ''/'' @ file_path (c_hdr ops c1)))"
    using next_safe [OF nx] Some by (auto simp: confined_def hdr_safe_def)
  then have w1: "grows (confined dir) w w1"
    using l by (auto simp: extract_link_def split: if_splits intro: grows_do_sys)
  show ?thesis
  proof (cases ok)
    case True
    then have "grows (confined dir) w1 (snd (snd r))"
      using body Some l by (auto intro: IH)
    with w1 show ?thesis
      by (rule grows_trans)
  qed (use body Some l w1 in auto)
next
  case None
  have safe: "safe_path (file_path (c_hdr ops c1))"
    using next_safe [OF nx] by (simp add: hdr_safe_def)
  obtain so c2 where o: "c_open ops c1 = (so, c2)"
    by fastforce
  show ?thesis
  proof (cases so)
    case (Some s)
    then obtain err1 s1 w1 where x: "extract_path e (c_read ops) s dir (file_path (c_hdr ops c1)) (file_mode (c_hdr ops c1)) w
        = Some (err1, s1, w1)"
      using body None o by (auto split: option.splits)
    note w1 = extract_path_confined [OF safe x]
    show ?thesis
    proof (cases "err1 = 0")
      case True
      then have "grows (confined dir) w1 (snd (snd r))"
        using body None Some o x by (auto simp: Let_def intro: IH)
      with w1 show ?thesis
        by (rule grows_trans)
    qed (use body None Some o x w1 in \<open>auto simp: Let_def\<close>)
  qed (use body None o in auto)
qed

lemma extract_container_confined:
  assumes "extract_container e ops c dir w = Some r"
  shows "grows (confined dir) w (snd (snd r))"
proof -
  have "ops' = ops \<longrightarrow> grows (confined dir) w (snd (snd r))" if "extract_container e ops' c dir w = Some r" for ops'
  proof (rule extract_container.raw_induct
      [where P = "\<lambda>e ops' c dir w r. ops' = ops \<longrightarrow> grows (confined dir) w (snd (snd r))", OF _ that], goal_cases)
    case (1 loop e ops' c dir w r)
    show ?case
    proof
      assume ops: "ops' = ops"
      obtain err c1 where nx: "c_next ops c = Some (err, c1)"
        using "1"(2) ops by (auto split: option.splits)
      show "grows (confined dir) w (snd (snd r))"
      proof (cases "err = 0")
        case True
        show ?thesis
          by (rule extract_container_step [where loop = loop and c = c and ?c1.0 = c1])
            (use "1" ops nx True in \<open>auto\<close>)
      qed (use "1"(2) ops nx in \<open>auto split: if_splits\<close>)
    qed
  qed
  with assms show ?thesis
    by blast
qed

end


subsection \<open>A copy delivers the whole stream\<close>

text \<open>What the calls of a log stored in the file \<open>f\<close>.\<close>

fun written :: "string \<Rightarrow> sys_log \<Rightarrow> bytes" where
  "written f [] = []"
| "written f ((Sys_write g bs, True) # l) = (if g = f then bs @ written f l else written f l)"
| "written f (_ # l) = written f l"

lemma written_append [simp]: "written f (l @ m) = written f l @ written f m"
  by (induction f l rule: written.induct) auto

definition writes_ok :: "env \<Rightarrow> string \<Rightarrow> bool" where
  "writes_ok e f \<longleftrightarrow> (\<forall>w bs. e_sys e w (Sys_write f bs))"

lemma written_percent [simp]: "written f (snd (do_sys e (Sys_percent n) w)) = written f w"
  by (simp add: do_sys_def Let_def)

lemma snd_do_sys_append: "\<exists>l. snd (do_sys e c w) = w @ l"
  by (simp add: do_sys_def Let_def)

definition never_null :: "'s reader \<Rightarrow> ('s \<Rightarrow> bool) \<Rightarrow> ('s \<Rightarrow> nat) \<Rightarrow> bool" where
  "never_null rd ok view \<longleftrightarrow>
     (\<forall>s c n s' p len. ok s \<longrightarrow> unat c \<le> view s \<longrightarrow> unat n \<le> max_need \<longrightarrow>
        rd s c n = Some (s', p, len) \<longrightarrow> p \<noteq> None)"

context byte_stream
begin

text \<open>
  Whatever fails, the copy returns, and what it has stored is an initial part of what the stream had
  to deliver; it is all of it if no write and no read failed.
\<close>

lemma extract_loop_ok:
  assumes "ok s" and "unat len \<le> view s"
  shows "\<exists>r s' w'. extract_loop e rd f pg s len recvd lp w = Some (r, s', w')
    \<and> (\<exists>bs. written f w' = written f w @ bs \<and> prefix bs (drop (unat len) (pending s))
         \<and> (writes_ok e f \<longrightarrow> r = 0)
         \<and> (writes_ok e f \<longrightarrow> never_null rd ok view
              \<longrightarrow> bs = drop (unat len) (pending s) \<and> ok s' \<and> pending s' = []))"
  using assms
proof (induction "length (drop (unat len) (pending s))" arbitrary: s len recvd lp w rule: less_induct)
  case less
  let ?rest = "drop (unat len) (pending s)"
  obtain s1 p len1 where r: "rd s len 1 = Some (s1, p, len1)"
    using rd_returns [OF less.prems max_need_numeral(1)] by auto
  note null = rd_null [OF less.prems max_need_numeral(1)]
  show ?case
  proof (cases "len1 = 0")
    case True
    have ret: "extract_loop e rd f pg s len recvd lp w = Some (0, s1, w)"
      using r True by (subst extract_loop.simps) simp
    have "?rest = [] \<and> ok s1 \<and> pending s1 = []" if nn: "never_null rd ok view"
    proof -
      obtain b where "p = Some b"
        using nn less.prems r unfolding never_null_def by (meson max_need_numeral(1) not_None_eq)
      then show ?thesis
        using rd_end [OF less.prems max_need_numeral(1)] rd_pending [OF less.prems max_need_numeral(1)]
          rd_inv [OF less.prems max_need_numeral(1)] r True by fastforce
    qed
    then show ?thesis
      using ret by auto
  next
    case False
    then obtain b where p: "p = Some b"
      using null r by (cases p) auto
    note laws = rd_laws [OF less.prems max_need_numeral(1) r [unfolded p]]
    note len1 = rd_len [OF less.prems max_need_numeral(1) r [unfolded p]]
    let ?data = "take (unat len1) b"
    have rest: "?rest = ?data @ drop (unat len1) (pending s1)"
      unfolding laws(4) by (simp only: append_take_drop_id laws(2))
    show ?thesis
    proof (cases "e_sys e w (Sys_write f ?data)")
      case bad: False
      have ret: "extract_loop e rd f pg s len recvd lp w = Some (- 1, s1, w @ [(Sys_write f ?data, False)])"
        using r p False bad by (subst extract_loop.simps) (simp add: do_sys_def Let_def)
      have "\<not> writes_ok e f"
        using bad by (auto simp: writes_ok_def)
      with ret show ?thesis
        by auto
    next
      case good: True
      let ?w1 = "w @ [(Sys_write f ?data, True)]"
      let ?pc = "to_int32 (uint ((recvd + len1) * 100 div pg))"
      let ?w2 = "if pg \<noteq> 0 \<and> ?pc \<noteq> lp then snd (do_sys e (Sys_percent ?pc) ?w1) else ?w1"
      let ?lp = "if pg \<noteq> 0 \<and> ?pc \<noteq> lp then ?pc else lp"
      have step: "extract_loop e rd f pg s len recvd lp w = extract_loop e rd f pg s1 len1 (recvd + len1) ?lp ?w2"
        using r p False good by (subst extract_loop.simps) (simp add: do_sys_def Let_def)
      have w2: "written f ?w2 = written f w @ ?data"
        by simp
      have dec: "length (drop (unat len1) (pending s1)) < length ?rest"
      proof -
        have "0 < unat len1"
          using False by (simp add: unat_gt_0)
        then show ?thesis
          unfolding rest length_append len1(3) by simp
      qed
      have pre: "ok s1" "unat len1 \<le> view s1"
        using laws by simp_all
      from less.hyps [OF dec pre, of "recvd + len1" ?lp ?w2] show ?thesis
        unfolding step w2 rest by (auto simp: prefix_def)
    qed
  qed
qed

end

context reliable_stream
begin

text \<open>Copying a reliable stream to a file that takes the writes stores exactly the stream.\<close>

lemma extract_file_all:
  assumes "ok s" and "writes_ok e f"
  shows "\<exists>s' w'. extract_file e rd s f pg w = Some (0, s', w')
    \<and> written f w' = written f w @ pending s \<and> ok s' \<and> pending s' = []"
proof -
  have "never_null rd ok view"
    unfolding never_null_def using rd_never_null by blast
  then show ?thesis
    using extract_loop_ok [OF assms(1), of 0 e f pg 0 0 w] assms(2) unfolding extract_file_def by auto
qed

end

end
