(* ===== verification/Tar.thy ===== *)
theory Tar
  imports Extract
begin

text \<open>
  \<^verbatim>\<open>tools/stream/container-tar.c\<close> and \<^verbatim>\<open>tools/stream/tar.h\<close>: reading a tar archive
  from a stream.
\<close>

subsection \<open>tar.h\<close>

record tar_posix_header =
  th_name :: bytes
  th_mode :: bytes
  th_uid :: bytes
  th_gid :: bytes
  th_size :: bytes
  th_mtime :: bytes
  th_chksum :: bytes
  th_typeflag :: bytes
  th_linkname :: bytes
  th_magic :: bytes
  th_version :: bytes
  th_uname :: bytes
  th_gname :: bytes
  th_devmajor :: bytes
  th_devminor :: bytes
  th_prefix :: bytes
  th_rest :: bytes

text \<open>The cast of a pointer to 512 bytes.\<close>

definition tar_header_of :: "bytes \<Rightarrow> tar_posix_header" where
  "tar_header_of p =
     \<lparr>th_name = slice 0 100 p, th_mode = slice 100 8 p, th_uid = slice 108 8 p, th_gid = slice 116 8 p,
      th_size = slice 124 12 p, th_mtime = slice 136 12 p, th_chksum = slice 148 8 p,
      th_typeflag = slice 156 1 p, th_linkname = slice 157 100 p, th_magic = slice 257 6 p,
      th_version = slice 263 2 p, th_uname = slice 265 32 p, th_gname = slice 297 32 p,
      th_devmajor = slice 329 8 p, th_devminor = slice 337 8 p, th_prefix = slice 345 155 p,
      th_rest = slice 500 12 p\<rparr>"

abbreviation REGTYPE :: string where
  "REGTYPE \<equiv> ''0''"

abbreviation LNKTYPE :: string where
  "LNKTYPE \<equiv> ''1''"

abbreviation SYMTYPE :: string where
  "SYMTYPE \<equiv> ''2''"

abbreviation TAR_BLOCK_SIZE :: size_t where
  "TAR_BLOCK_SIZE \<equiv> 512"


subsection \<open>Names\<close>

definition strip_top_dir :: "string \<Rightarrow> string" where
  "strip_top_dir name = (case strchr name (CHR ''/'') of Some slash \<Rightarrow> drop 1 slash | None \<Rightarrow> [])"

definition clean_tar_name :: "tar_posix_header \<Rightarrow> string option" where
  "clean_tar_name t =
     (let name = strncpy_z (th_name t) 100
      in if th_magic t = ''ustar'' @ [NUL] \<and> take 1 (th_prefix t) \<noteq> [NUL]
         then let prefix = strncpy_z (th_prefix t) 155
              in clean_path (strip_top_dir prefix) name
         else clean_path [] (strip_top_dir name))"

definition clean_tar_linkname :: "tar_posix_header \<Rightarrow> string option" where
  "clean_tar_linkname t =
     (let lnk = strncpy_z (th_linkname t) 100
      in if lnk = [] \<or> strchr lnk (CHR '':'') \<noteq> None \<or> strchr lnk (CHR ''/'') \<noteq> None
            \<or> strchr lnk (CHR 0x5C) \<noteq> None \<or> lnk = ''.'' \<or> lnk = ''..''
         then None else Some lnk)"


subsection \<open>The container\<close>

record 's tar_container =
  tc_h :: container_hdr
  tc_s :: 's
  tc_path :: "string option"
  tc_lnk :: "string option"
  tc_padding :: size_t
  tc_file_opened :: bool

definition read_tar_file_header :: "'s tar_container \<Rightarrow> tar_posix_header \<Rightarrow> int \<times> 's tar_container" where
  "read_tar_file_header c t =
     (let imode = to_int32 (strtoll 8 (strncpy_z (th_mode t) 8))
      in case clean_tar_name t of
           None \<Rightarrow> (- 1, c)
         | Some path \<Rightarrow>
             let sz = strtoull 8 (strncpy_z (th_size t) 12)
             in (0, c\<lparr>tc_file_opened := False, tc_path := Some path, tc_lnk := None,
                      tc_padding := ((sz + TAR_BLOCK_SIZE - 1) AND NOT (TAR_BLOCK_SIZE - 1)) - sz,
                      tc_h := \<lparr>file_path = path, link_target = None, file_size = sz, file_mode = imode\<rparr>\<rparr>))"

definition read_tar_link_header :: "'s tar_container \<Rightarrow> tar_posix_header \<Rightarrow> int \<times> 's tar_container" where
  "read_tar_link_header c t =
     (case clean_tar_name t of
        None \<Rightarrow> (- 1, c)
      | Some path \<Rightarrow>
          (case clean_tar_linkname t of
             None \<Rightarrow> (- 1, c)
           | Some lnk \<Rightarrow>
               (0, c\<lparr>tc_file_opened := True, tc_path := Some path, tc_lnk := Some lnk, tc_padding := 0,
                     tc_h := \<lparr>file_path = path, link_target = Some lnk, file_size = 0, file_mode = 0\<rparr>\<rparr>)))"

text \<open>
  The loop that skips what is left of the previous member: the amount to give back with the next
  read, or \<open>None\<close> for an early end of the stream.
\<close>

partial_function (option) tar_skip ::
  "'s reader \<Rightarrow> 's \<Rightarrow> uint64 \<Rightarrow> size_t \<Rightarrow> ('s \<times> size_t option) option" where
  "tar_skip rd s skip consume =
     (if skip = 0 then Some (s, Some consume)
      else case rd s consume 1 of
             None \<Rightarrow> None
           | Some (s1, p, consume1) \<Rightarrow>
               if consume1 = 0 then Some (s1, None)
               else let consume2 = (if skip < consume1 then skip else consume1)
                    in tar_skip rd s1 (skip - consume2) consume2)"

partial_function (option) tar_headers ::
  "'s reader \<Rightarrow> 's tar_container \<Rightarrow> size_t \<Rightarrow> (int \<times> 's tar_container) option" where
  "tar_headers rd c consume =
     (case rd (tc_s c) consume TAR_BLOCK_SIZE of
        None \<Rightarrow> None
      | Some (s1, p, len) \<Rightarrow>
          let c1 = c\<lparr>tc_s := s1\<rparr>
          in if len = 0 then Some (1, c1)
             else if len < TAR_BLOCK_SIZE then Some (- 1, c1)
             else let t = tar_header_of (case p of None \<Rightarrow> [] | Some b \<Rightarrow> b);
                      finish = (\<lambda>(err, c2). case rd (tc_s c2) TAR_BLOCK_SIZE 0 of
                                  None \<Rightarrow> None
                                | Some (s2, q, consume1) \<Rightarrow> Some (err, c2\<lparr>tc_s := s2\<rparr>))
                  in if th_typeflag t = LNKTYPE \<or> th_typeflag t = SYMTYPE
                     then finish (read_tar_link_header c1 t)
                     else if th_typeflag t = REGTYPE
                     then finish (read_tar_file_header c1 t)
                     else tar_headers rd c1 TAR_BLOCK_SIZE)"

definition next_tar_file :: "'s reader \<Rightarrow> 's tar_container \<Rightarrow> (int \<times> 's tar_container) option" where
  "next_tar_file rd c =
     (let skip = tc_padding c + (if \<not> tc_file_opened c then file_size (tc_h c) else 0);
          c1 = c\<lparr>tc_path := None, tc_lnk := None, tc_padding := 0\<rparr>
      in case tar_skip rd (tc_s c1) skip 0 of
           None \<Rightarrow> None
         | Some (s1, None) \<Rightarrow> Some (- 1, c1\<lparr>tc_s := s1\<rparr>)
         | Some (s1, Some consume) \<Rightarrow> tar_headers rd (c1\<lparr>tc_s := s1\<rparr>) consume)"

text \<open>
  The member stream is a limiter over the container's own source.  When its allocation fails, the
  limiter closes that source although the container still refers to it.
\<close>

definition open_tar_file :: "heap \<Rightarrow> 's tar_container \<Rightarrow> 's limit_stream option \<times> 's tar_container" where
  "open_tar_file h c =
     (if tc_file_opened c then (None, c)
      else (case open_limited h (Some (tc_s c)) (file_size (tc_h c)) of
              Opened ls \<Rightarrow> Some ls
            | _ \<Rightarrow> None,
            c\<lparr>tc_file_opened := True\<rparr>))"

definition close_tar :: "('s \<Rightarrow> 'r) \<Rightarrow> 's tar_container \<Rightarrow> 'r" where
  "close_tar close c = close (tc_s c)"

definition open_tar :: "'s \<Rightarrow> 's tar_container" where
  "open_tar s =
     \<lparr>tc_h = \<lparr>file_path = [], link_target = None, file_size = 0, file_mode = 0\<rparr>, tc_s = s,
      tc_path = None, tc_lnk = None, tc_padding = 0, tc_file_opened = False\<rparr>"

definition tar_ops :: "heap \<Rightarrow> 's reader \<Rightarrow> ('s tar_container, 's limit_stream) container_ops" where
  "tar_ops h rd =
     \<lparr>c_next = next_tar_file rd, c_open = open_tar_file h, c_read = read_limit rd,
      c_close_file = (\<lambda>ls c. c\<lparr>tc_s := close_limit ls\<rparr>), c_hdr = tc_h\<rparr>"


subsection \<open>Every member of a tar archive has a safe name\<close>

lemma clean_tar_name_safe: "clean_tar_name t = Some p \<Longrightarrow> safe_path p"
  by (auto simp: clean_tar_name_def Let_def clean_path_iff split: if_splits)

lemma clean_tar_linkname_safe: "clean_tar_linkname t = Some p \<Longrightarrow> safe_target p"
  by (auto simp: clean_tar_linkname_def Let_def safe_target_def strchr_None_iff split: if_splits)

lemma read_tar_header_safe:
  "read_tar_file_header c t = (0, c') \<Longrightarrow> hdr_safe (tc_h c')"
  "read_tar_link_header c t = (0, c') \<Longrightarrow> hdr_safe (tc_h c')"
  by (auto simp: read_tar_file_header_def read_tar_link_header_def Let_def hdr_safe_def
      clean_tar_name_safe clean_tar_linkname_safe split: option.splits)

lemma tar_headers_safe:
  assumes "tar_headers rd c consume = Some (err, c')"
  shows "err = 0 \<longrightarrow> hdr_safe (tc_h c')"
proof -
  have "fst r = 0 \<longrightarrow> hdr_safe (tc_h (snd r))" if "tar_headers rd c consume = Some r" for r
  proof (rule tar_headers.raw_induct [where P = "\<lambda>rd c consume r. fst r = 0 \<longrightarrow> hdr_safe (tc_h (snd r))", OF _ that], goal_cases)
    case (1 loop rd c consume r)
    then show ?case
      by (auto simp: Let_def split: option.splits prod.splits if_splits dest: read_tar_header_safe)
  qed
  from this [OF assms] show ?thesis
    by simp
qed

interpretation tar_safe: safe_container "tar_ops h rd" for h rd
proof unfold_locales
  fix c c1
  assume "c_next (tar_ops h rd) c = Some (0, c1)"
  then show "hdr_safe (c_hdr (tar_ops h rd) c1)"
    by (auto simp: tar_ops_def next_tar_file_def Let_def split: option.splits prod.splits dest: tar_headers_safe)
qed

end
