(* ===== verification/Tar_Correct.thy ===== *)
theory Tar_Correct
  imports Tar
begin

text \<open>
  What \<^verbatim>\<open>container-tar.c\<close> computes, stated on the bytes of the archive: \<open>tar_scan\<close> is the
  block-level reference for the search of the next member, and the theorems show that
  \<open>next_tar_file\<close> agrees with it over every reliable stream, however the stream cuts its data
  into views.
\<close>

datatype tar_found = Tar_end | Tar_short | Tar_member bytes bytes

function tar_scan :: "bytes \<Rightarrow> tar_found" where
  "tar_scan bs =
     (if bs = [] then Tar_end
      else if length bs < 512 then Tar_short
      else if th_typeflag (tar_header_of bs) \<in> {LNKTYPE, SYMTYPE, REGTYPE}
      then Tar_member (take 512 bs) (drop 512 bs)
      else tar_scan (drop 512 bs))"
  by pat_completeness auto
termination
  by (relation "measure length") auto

declare tar_scan.simps [simp del]

text \<open>A header only depends on its 512 bytes.\<close>

lemma slice_take: "off + n \<le> 512 \<Longrightarrow> slice off n (take 512 p) = slice off n p"
  by (simp add: slice_def drop_take)

lemma tar_header_of_take: "tar_header_of (take 512 p) = tar_header_of p"
  by (simp add: tar_header_of_def slice_take)

lemma tar_header_of_eq: "take 512 p = take 512 q \<Longrightarrow> tar_header_of p = tar_header_of q"
  by (metis tar_header_of_take)

definition read_tar_header :: "'s tar_container \<Rightarrow> bytes \<Rightarrow> int \<times> 's tar_container" where
  "read_tar_header c block =
     (let t = tar_header_of block
      in if th_typeflag t = REGTYPE then read_tar_file_header c t else read_tar_link_header c t)"

lemma read_tar_header_update [simp]:
  "read_tar_header (c\<lparr>tc_s := s\<rparr>) b = map_prod id (tc_s_update (\<lambda>_. s)) (read_tar_header c b)"
  by (auto simp: read_tar_header_def read_tar_file_header_def read_tar_link_header_def Let_def
      split: option.splits)

text \<open>
  The outcome the header search must have on an archive whose next bytes are \<open>rest\<close>, and what
  is left of the member a container is at.
\<close>

definition headers_post ::
  "('s \<Rightarrow> bool) \<Rightarrow> ('s \<Rightarrow> bytes) \<Rightarrow> 's tar_container \<Rightarrow> bytes \<Rightarrow> (int \<times> 's tar_container) option \<Rightarrow> bool" where
  "headers_post ok pending c rest r \<longleftrightarrow>
     (\<exists>err c'. r = Some (err, c') \<and>
        (case tar_scan rest of
           Tar_end \<Rightarrow> err = 1
         | Tar_short \<Rightarrow> err = - 1
         | Tar_member block rest' \<Rightarrow>
             err = fst (read_tar_header c block) \<and> c' = (snd (read_tar_header c block))\<lparr>tc_s := tc_s c'\<rparr>
             \<and> ok (tc_s c') \<and> pending (tc_s c') = rest'))"

definition tar_left :: "'s tar_container \<Rightarrow> uint64" where
  "tar_left c = tc_padding c + (if \<not> tc_file_opened c then file_size (tc_h c) else 0)"

lemma headers_post_update [simp]:
  "headers_post ok pending (c\<lparr>tc_s := s\<rparr>) rest r = headers_post ok pending c rest r"
  by (auto simp: headers_post_def split: tar_found.splits)

context reliable_stream
begin

text \<open>Skipping gives back exactly the bytes asked for, or reports that the stream is too short.\<close>

lemma tar_skip_ok:
  assumes "ok s" and "unat consume \<le> view s"
  shows "if unat skip \<le> length (pending s) - unat consume
    then \<exists>s' k. tar_skip rd s skip consume = Some (s', Some k) \<and> ok s' \<and> unat k \<le> view s'
           \<and> drop (unat k) (pending s') = drop (unat skip) (drop (unat consume) (pending s))
    else \<exists>s'. tar_skip rd s skip consume = Some (s', None)"
  using assms
proof (induction "unat skip" arbitrary: s skip consume rule: less_induct)
  case less
  show ?case
  proof (cases "skip = 0")
    case True
    then have "tar_skip rd s skip consume = Some (s, Some consume)"
      by (subst tar_skip.simps) simp
    with True less.prems show ?thesis
      by auto
  next
    case False
    obtain s1 p len where r: "rd s consume 1 = Some (s1, Some p, len)"
      and post: "rd_post ok pending view (drop (unat consume) (pending s)) 1 s1 p len"
      using rd_reliable [OF less.prems max_need_numeral(1)] by blast
    have s1: "ok s1" "pending s1 = drop (unat consume) (pending s)" "view s1 = unat len"
        "min 1 (length (pending s1)) \<le> unat len" "unat len \<le> length (pending s1)"
      using post view_bound [of s1] by (auto simp: rd_post_def)
    show ?thesis
    proof (cases "len = 0")
      case True
      then have "tar_skip rd s skip consume = Some (s1, None)"
        using False r by (subst tar_skip.simps) simp
      moreover have "length (pending s) - unat consume = 0"
        using s1 True by (auto simp: min_def split: if_splits)
      moreover have "0 < unat skip"
        using False by (simp add: unat_gt_0)
      ultimately show ?thesis
        using less.prems by auto
    next
      case len: False
      define k where "k = (if skip < len then skip else len)"
      have k: "unat k = min (unat skip) (unat len)"
        by (auto simp: k_def word_less_nat_alt)
      have skip1: "unat (skip - k) = unat skip - unat k"
        using k by (intro unat_sub_small) simp
      have pos: "0 < unat k"
        using False len k by (simp add: unat_gt_0)
      have step: "tar_skip rd s skip consume = tar_skip rd s1 (skip - k) k"
        using False r len unfolding k_def by (subst tar_skip.simps) (simp add: Let_def)
      have dec: "unat (skip - k) < unat skip" and "unat k \<le> view s1"
        using skip1 pos k s1 by simp_all
      note IH = less.hyps [OF dec s1(1) this(2)]
      have "unat (skip - k) \<le> length (pending s1) - unat k \<longleftrightarrow> unat skip \<le> length (pending s) - unat consume"
        using skip1 k s1 pos by auto
      moreover have "drop (unat (skip - k)) (drop (unat k) (pending s1)) = drop (unat skip) (drop (unat consume) (pending s))"
        using skip1 k s1(2) by simp
      ultimately show ?thesis
        using IH unfolding step by (simp only:)
    qed
  qed
qed

text \<open>The header search finds the member that the block-level scan finds.\<close>

text \<open>A member's block, once it is in view: its header is read and the block consumed.\<close>

lemma tar_headers_member:
  assumes r: "rd (tc_s c) consume 512 = Some (s1, Some p, len)" and len: "512 \<le> unat len"
    and s1: "ok s1" "pending s1 = rest" "unat len \<le> view s1" and hdr: "tar_header_of p = tar_header_of rest"
    and block: "512 \<le> length rest" and member: "th_typeflag (tar_header_of rest) \<in> {LNKTYPE, SYMTYPE, REGTYPE}"
  shows "headers_post ok pending c rest (tar_headers rd c consume)"
proof -
  let ?c1 = "c\<lparr>tc_s := s1\<rparr>"
  have pre: "unat (512 :: size_t) \<le> view s1"
    using s1(3) len by simp
  have len': "len \<noteq> 0" "\<not> len < 512"
    using len by (auto simp: word_less_nat_alt)
  obtain s2 q k where r2: "rd s1 512 0 = Some (s2, Some q, k)"
    and post2: "rd_post ok pending view (drop 512 rest) 0 s2 q k"
    using rd_reliable [OF s1(1) pre max_need_numeral(2)] s1(2) by auto
  obtain err c1 where h: "read_tar_header ?c1 (take 512 rest) = (err, c1)"
    by fastforce
  then have s1': "tc_s c1 = s1"
    by (auto simp: map_prod_def split: prod.splits)
  have "tar_headers rd c consume = Some (err, c1\<lparr>tc_s := s2\<rparr>)"
    using member r len' hdr h r2 s1' unfolding read_tar_header_def tar_header_of_take
    by (subst tar_headers.simps) (auto simp: Let_def)
  moreover have "tar_scan rest = Tar_member (take 512 rest) (drop 512 rest)"
    using block member by (subst tar_scan.simps) auto
  then have "headers_post ok pending ?c1 rest (Some (err, c1\<lparr>tc_s := s2\<rparr>))"
    using h post2 unfolding headers_post_def rd_post_def by (simp del: read_tar_header_update)
  ultimately show ?thesis
    by simp
qed

text \<open>The end of the archive, or less than a block of it.\<close>

lemma tar_headers_end:
  assumes r: "rd (tc_s c) consume 512 = Some (s1, Some p, len)" and len: "unat len = length rest" and short: "length rest < 512"
  shows "headers_post ok pending c rest (tar_headers rd c consume)"
proof (cases "rest = []")
  case True
  then have "tar_headers rd c consume = Some (1, c\<lparr>tc_s := s1\<rparr>)"
    using r len by (subst tar_headers.simps) simp
  then show ?thesis
    using True by (simp add: headers_post_def tar_scan.simps [of "[]"])
next
  case False
  then have "len \<noteq> 0" "len < 512"
    using short len by (auto simp: word_less_nat_alt simp del: unat_eq_0_iff simp flip: unat_eq_0_iff)
  then have "tar_headers rd c consume = Some (- 1, c\<lparr>tc_s := s1\<rparr>)"
    using r by (subst tar_headers.simps) (simp add: Let_def)
  moreover have "tar_scan rest = Tar_short"
    using False short by (subst tar_scan.simps) simp
  ultimately show ?thesis
    by (simp add: headers_post_def)
qed

lemma tar_headers_ok:
  assumes "ok (tc_s c)" and "unat consume \<le> view (tc_s c)"
  shows "headers_post ok pending c (drop (unat consume) (pending (tc_s c))) (tar_headers rd c consume)"
  using assms
proof (induction "length (drop (unat consume) (pending (tc_s c)))" arbitrary: c consume rule: less_induct)
  case less
  let ?rest = "drop (unat consume) (pending (tc_s c))"
  let ?t = "tar_header_of ?rest"
  obtain s1 p len where r: "rd (tc_s c) consume 512 = Some (s1, Some p, len)"
    and post: "rd_post ok pending view ?rest 512 s1 p len"
    using rd_reliable [OF less.prems max_need_numeral(3)] by blast
  have s1: "ok s1" "pending s1 = ?rest" "view s1 = unat len" "min 512 (length ?rest) \<le> unat len"
      "unat len \<le> length ?rest" "take (unat len) p = take (unat len) ?rest"
    using post view_bound [of s1] by (auto simp: rd_post_def)
  show ?case
  proof (cases "512 \<le> length ?rest")
    case False
    then show ?thesis
      using s1(4,5) by (intro tar_headers_end [OF r]) simp_all
  next
    case block: True
    then have len: "512 \<le> unat len"
      using s1(4) by simp
    have "take 512 p = take 512 (take (unat len) p)"
      using len by simp
    also have "\<dots> = take 512 ?rest"
      using s1(6) len by simp
    finally have hdr: "tar_header_of p = ?t"
      by (rule tar_header_of_eq)
    show ?thesis
    proof (cases "th_typeflag ?t \<in> {LNKTYPE, SYMTYPE, REGTYPE}")
      case True
      show ?thesis
        by (rule tar_headers_member [OF r len s1(1,2) _ hdr block True]) (simp add: s1(3))
    next
      case False
      let ?c1 = "c\<lparr>tc_s := s1\<rparr>"
      have "len \<noteq> 0" "\<not> len < 512"
        using len by (auto simp: word_less_nat_alt)
      then have step: "tar_headers rd c consume = tar_headers rd ?c1 512"
        using r hdr False by (subst tar_headers.simps) (simp add: Let_def)
      have scan: "tar_scan ?rest = tar_scan (drop 512 ?rest)"
        using block False by (subst tar_scan.simps) auto
      have "headers_post ok pending ?c1 (drop (unat (512 :: size_t)) (pending (tc_s ?c1))) (tar_headers rd ?c1 512)"
        by (rule less.hyps) (use block s1 len in auto)
      then show ?thesis
        unfolding step headers_post_update unfolding headers_post_def using scan s1(2) by simp
    qed
  qed
qed

lemma next_tar_file_ok:
  assumes "ok (tc_s c)"
  shows "if unat (tar_left c) \<le> length (pending (tc_s c))
    then headers_post ok pending (c\<lparr>tc_path := None, tc_lnk := None, tc_padding := 0\<rparr>)
           (drop (unat (tar_left c)) (pending (tc_s c))) (next_tar_file rd c)
    else \<exists>c'. next_tar_file rd c = Some (- 1, c')"
proof -
  note skip = tar_skip_ok [OF assms, of 0 "tar_left c"]
  show ?thesis
  proof (cases "unat (tar_left c) \<le> length (pending (tc_s c))")
    case True
    then obtain s' k where sk: "tar_skip rd (tc_s c) (tar_left c) 0 = Some (s', Some k)" "ok s'" "unat k \<le> view s'"
        "drop (unat k) (pending s') = drop (unat (tar_left c)) (pending (tc_s c))"
      using skip by auto
    let ?c1 = "c\<lparr>tc_path := None, tc_lnk := None, tc_padding := 0, tc_s := s'\<rparr>"
    have "next_tar_file rd c = tar_headers rd ?c1 k"
      using sk(1) by (simp add: next_tar_file_def tar_left_def Let_def)
    moreover have "headers_post ok pending ?c1 (drop (unat k) (pending s')) (tar_headers rd ?c1 k)"
      using tar_headers_ok [of ?c1 k] sk by simp
    ultimately show ?thesis
      using True sk(4) headers_post_update [of ok pending s' "c\<lparr>tc_path := None, tc_lnk := None, tc_padding := 0\<rparr>"] by simp
  next
    case False
    then obtain s' where "tar_skip rd (tc_s c) (tar_left c) 0 = Some (s', None)"
      using skip by auto
    then show ?thesis
      using False by (simp add: next_tar_file_def tar_left_def Let_def)
  qed
qed

end

end
