(* ===== verification/Disk.thy ===== *)
theory Disk
  imports Extract
begin

text \<open>
  The disk behind the system calls: which files, links and directories a log of calls leaves, and what a copy
  adds to them.
\<close>

subsection \<open>The file system that a log of calls makes\<close>

text \<open>
  The log stands for everything that was ever done on the disk, by earlier runs too.  A path is the text it is
  given as, and a link in the middle of a path is not followed: two paths that lead to the same file are two names.
\<close>

datatype node = File_node int bytes | Link_node string

fun run_call :: "sys_call \<times> bool \<Rightarrow> (string \<rightharpoonup> node) \<Rightarrow> (string \<rightharpoonup> node)" where
  "run_call (Sys_create p m, True) fs = fs(p \<mapsto> File_node m [])"
| "run_call (Sys_write p bs, True) fs =
     (case fs p of Some (File_node m d) \<Rightarrow> fs(p \<mapsto> File_node m (d @ bs)) | _ \<Rightarrow> fs)"
| "run_call (Sys_symlink target p, True) fs = fs(p \<mapsto> Link_node target)"
| "run_call (Sys_unlink p, True) fs = fs(p := None)"
| "run_call (_, _) fs = fs"

definition fs_of :: "sys_log \<Rightarrow> (string \<rightharpoonup> node)" where
  "fs_of w = fold run_call w Map.empty"

fun run_dir :: "sys_call \<times> bool \<Rightarrow> string set \<Rightarrow> string set" where
  "run_dir (Sys_mkdir p, True) ds = insert p ds"
| "run_dir (Sys_rmdir p, True) ds = ds - {p}"
| "run_dir (_, _) ds = ds"

definition dirs_of :: "sys_log \<Rightarrow> string set" where
  "dirs_of w = fold run_dir w {}"

text \<open>A system that lets files and links be made and written; what becomes of the other calls does not matter.\<close>

definition calm :: "env \<Rightarrow> bool" where
  "calm e \<longleftrightarrow> (\<forall>w p m. e_sys e w (Sys_create p m)) \<and> (\<forall>w p bs. e_sys e w (Sys_write p bs))
     \<and> (\<forall>w t p. e_sys e w (Sys_symlink t p)) \<and> (\<forall>n. grant (e_heap e) n)"

lemma fold_copies:
  assumes "\<forall>x \<in> set l. copies_to f (fst x)" and "fs f = Some (File_node m d)"
  shows "fold run_call l fs = fs(f \<mapsto> File_node m (d @ written f l))"
  using assms
proof (induction f l arbitrary: fs d rule: written.induct)
  case (2 f g bs l)
  then show ?case
    by (auto simp: copies_to_def fun_eq_iff)
qed (auto simp: copies_to_def split: sys_call.splits)


lemma fs_of_append: "fs_of (w @ l) = fold run_call l (fs_of w)"
  by (simp add: fs_of_def)

lemma fs_of_mkdirs:
  assumes "grows (\<lambda>c. \<exists>d. c = Sys_mkdir d) w w'"
  shows "fs_of w' = fs_of w"
proof -
  obtain l where w': "w' = w @ l" and l: "\<forall>x \<in> set l. \<exists>d. fst x = Sys_mkdir d"
    using assms by (auto simp: grows_def)
  from l have "fold run_call l fs = fs" for fs
    by (induction l arbitrary: fs) auto
  then show ?thesis
    by (simp add: w' fs_of_append)
qed

lemma open_path_calm:
  assumes "calm e"
  shows "\<exists>w1. open_path e dir file mode w = (Some (dir @ ''/'' @ file), w1)
    \<and> fs_of w1 = (fs_of w)(dir @ ''/'' @ file \<mapsto> File_node mode [])"
proof -
  let ?p = "dir @ ''/'' @ file"
  have "grows (\<lambda>c. \<exists>d. c = Sys_mkdir d) w (make_directory e ?p w)"
    unfolding make_directory_def by (rule grows_mono [OF make_directory_loop_grows]) blast
  then have "fs_of (make_directory e ?p w) = fs_of w"
    by (rule fs_of_mkdirs)
  then show ?thesis
    using assms by (simp add: open_path_def do_sys_def calm_def Let_def fs_of_append)
qed

context reliable_stream
begin

lemma extract_path_calm:
  assumes "calm e" and "ok s"
  shows "\<exists>s' w'. extract_path e rd s dir file mode w = Some (0, s', w')
    \<and> fs_of w' = (fs_of w)(dir @ ''/'' @ file \<mapsto> File_node mode (pending s)) \<and> ok s' \<and> pending s' = []"
proof -
  let ?p = "dir @ ''/'' @ file"
  obtain w1 where w1: "open_path e dir file mode w = (Some ?p, w1)" "fs_of w1 = (fs_of w)(?p \<mapsto> File_node mode [])"
    using open_path_calm [OF assms(1)] by blast
  have "writes_ok e ?p"
    using assms(1) by (simp add: writes_ok_def calm_def)
  then obtain s' w' where x: "extract_file e rd s ?p 0 w1 = Some (0, s', w')"
    and wr: "written ?p w' = written ?p w1 @ pending s" and s': "ok s'" "pending s' = []"
    using extract_file_all [OF assms(2)] by blast
  have "grows (copies_to ?p) w1 w'"
    using extract_loop_grows [OF x [unfolded extract_file_def]] by simp
  then obtain l where l: "w' = w1 @ l" "\<forall>y \<in> set l. copies_to ?p (fst y)"
    by (auto simp: grows_def)
  then have "fs_of w' = (fs_of w1)(?p \<mapsto> File_node mode ([] @ written ?p l))"
    unfolding l(1) fs_of_append by (intro fold_copies) (use w1(2) in auto)
  moreover have "written ?p l = pending s"
    using wr l(1) by simp
  ultimately show ?thesis
    using w1 x s' by (simp add: extract_path_def)
qed

end

end
