(* ===== verification/Tar_Roundtrip.thy ===== *)
theory Tar_Roundtrip
  imports Tar_Correct Disk
begin

text \<open>
  Unpacking what a tar writer packs.  \<open>mk_tar\<close> is a reference writer for the format that
  \<^verbatim>\<open>container-tar.c\<close> reads (one top directory, ustar headers, data padded to blocks); the
  theorem is that \<open>extract_container\<close> over it makes exactly the members that went in.
\<close>

subsection \<open>The reference writer\<close>

fun octal :: "nat \<Rightarrow> nat \<Rightarrow> string" where
  "octal 0 v = []"
| "octal (Suc k) v = octal k (v div 8) @ [char_of (48 + v mod 8)]"

definition pad :: "nat \<Rightarrow> bytes \<Rightarrow> bytes" where
  "pad n s = s @ replicate (n - length s) NUL"

definition mk_header :: "string \<Rightarrow> nat \<Rightarrow> nat \<Rightarrow> string \<Rightarrow> string \<Rightarrow> bytes" where
  "mk_header name mode sz flag lnk =
     pad 100 name @ octal 7 mode @ [NUL] @ replicate 16 NUL @ octal 11 sz @ [NUL] @ replicate 20 NUL
     @ flag @ pad 100 lnk @ ''ustar'' @ [NUL] @ ''00'' @ replicate 247 NUL"

datatype tar_entry = Tar_file string nat bytes | Tar_link string string

definition block_pad :: "nat \<Rightarrow> nat" where
  "block_pad n = (512 - n mod 512) mod 512"

fun mk_entry :: "string \<Rightarrow> tar_entry \<Rightarrow> bytes" where
  "mk_entry tdir (Tar_file path mode data) =
     mk_header (tdir @ ''/'' @ path) mode (length data) REGTYPE [] @ data @ replicate (block_pad (length data)) NUL"
| "mk_entry tdir (Tar_link path target) = mk_header (tdir @ ''/'' @ path) 0 0 SYMTYPE target"

definition mk_tar :: "string \<Rightarrow> tar_entry list \<Rightarrow> nat \<Rightarrow> bytes" where
  "mk_tar tdir ms k = concat (map (mk_entry tdir) ms) @ replicate (512 * k) NUL"

fun entry_ok :: "string \<Rightarrow> tar_entry \<Rightarrow> bool" where
  "entry_ok tdir (Tar_file path mode data) \<longleftrightarrow>
     safe_path path \<and> NUL \<notin> set path \<and> length tdir + 1 + length path \<le> 100
     \<and> mode < 8 ^ 7 \<and> length data < 8 ^ 11"
| "entry_ok tdir (Tar_link path target) \<longleftrightarrow>
     safe_path path \<and> NUL \<notin> set path \<and> length tdir + 1 + length path \<le> 100
     \<and> safe_target target \<and> NUL \<notin> set target \<and> length target \<le> 100"

definition top_ok :: "string \<Rightarrow> bool" where
  "top_ok tdir \<longleftrightarrow> CHR ''/'' \<notin> set tdir \<and> NUL \<notin> set tdir"


subsection \<open>Numbers in headers\<close>

lemma length_octal [simp]: "length (octal k v) = k"
  by (induction k v rule: octal.induct) auto

lemma octal_digit:
  assumes "d < 8"
  shows "digit_value (char_of (48 + d)) = d" and "\<not> isspace (char_of (48 + d))"
    and "char_of (48 + d) \<noteq> NUL" and "char_of (48 + d) \<noteq> CHR ''-''" and "char_of (48 + d) \<noteq> CHR ''+''"
proof -
  have n: "of_char (char_of (48 + d) :: char) = 48 + d"
    using assms by simp
  show "digit_value (char_of (48 + d)) = d"
    using assms n by (simp add: digit_value_def)
  show "\<not> isspace (char_of (48 + d))" "char_of (48 + d) \<noteq> NUL" "char_of (48 + d) \<noteq> CHR ''-''" "char_of (48 + d) \<noteq> CHR ''+''"
    using n assms by (auto simp: isspace_def dest!: arg_cong [where f = "of_char :: char \<Rightarrow> nat"])
qed

lemma octal_set: "c \<in> set (octal k v) \<Longrightarrow> \<exists>d < (8 :: nat). c = char_of (48 + d)"
proof (induction k v rule: octal.induct)
  case (2 k v)
  then show ?case
    by (cases "c \<in> set (octal k (v div 8))") (auto intro: exI [of _ "v mod 8"])
qed simp

lemma scan_digits_append:
  assumes "\<forall>c \<in> set xs. digit_value c < b"
  shows "scan_digits b acc (xs @ ys) = scan_digits b (scan_digits b acc xs) ys"
  using assms by (induction xs arbitrary: acc) auto

lemma scan_digits_octal: "scan_digits 8 0 (octal k v) = v mod 8 ^ k"
proof (induction k v rule: octal.induct)
  case (2 k v)
  have "\<forall>c \<in> set (octal k (v div 8)). digit_value c < 8"
    using octal_set octal_digit(1) by fastforce
  then have "scan_digits 8 0 (octal (Suc k) v) = (v div 8 mod 8 ^ k) * 8 + v mod 8"
    using 2 octal_digit(1) [of "v mod 8"] by (simp add: scan_digits_append)
  then show ?case
    by (simp add: mod_mult2_eq)
qed simp

lemma scan_int_octal:
  assumes "0 < k" "v < 8 ^ k"
  shows "scan_int 8 (octal k v) = (False, v)"
proof -
  obtain c cs where c: "octal k v = c # cs" "\<exists>d < (8 :: nat). c = char_of (48 + d)"
    using assms(1) octal_set [of _ k v] length_octal [of k v] by (cases "octal k v") auto
  then have "\<not> isspace c" "c \<noteq> CHR ''-''" "c \<noteq> CHR ''+''"
    using octal_digit by auto
  then show ?thesis
    using c(1) scan_digits_octal [of k v] assms(2)
    by (simp add: scan_int_def starts_with_def scan_base_def Let_def)
qed

lemma strncpy_z_octal: "strncpy_z (octal k v @ [NUL]) (Suc k) = octal k v"
proof -
  have "NUL \<notin> set (octal k v)"
  proof
    assume "NUL \<in> set (octal k v)"
    then obtain d :: nat where "d < 8" "NUL = char_of (48 + d)"
      using octal_set by blast
    with octal_digit(3) [of d] show False
      by simp
  qed
  then show ?thesis
    by (simp add: strncpy_z_def cstr_append)
qed

lemma strncpy_z_pad:
  assumes "NUL \<notin> set s" and "length s \<le> n"
  shows "strncpy_z (pad n s) n = s"
proof (cases "length s = n")
  case True
  then show ?thesis
    using assms by (simp add: strncpy_z_def pad_def cstr_id)
next
  case False
  then obtain k where "n - length s = Suc k"
    using assms(2) by (metis Suc_diff_Suc le_neq_implies_less)
  with assms show ?thesis
    by (simp add: strncpy_z_def pad_def cstr_append)
qed


subsection \<open>Headers\<close>

lemma length_pad [simp]: "length s \<le> n \<Longrightarrow> length (pad n s) = n"
  by (simp add: pad_def)

lemma mk_header_fields:
  fixes name lnk flag rest :: bytes and mode sz :: nat
  assumes "length name \<le> 100" "length lnk \<le> 100" "length flag = 1"
  defines "t \<equiv> tar_header_of (mk_header name mode sz flag lnk @ rest)"
  shows "th_name t = pad 100 name" "th_mode t = octal 7 mode @ [NUL]" "th_size t = octal 11 sz @ [NUL]"
    and "th_typeflag t = flag" "th_linkname t = pad 100 lnk" "th_prefix t = replicate 155 NUL"
  using assms unfolding t_def
  by (simp_all add: tar_header_of_def slice_def mk_header_def)

lemma length_mk_header [simp]:
  "length name \<le> 100 \<Longrightarrow> length lnk \<le> 100 \<Longrightarrow> length flag = 1 \<Longrightarrow> length (mk_header name mode sz flag lnk) = 512"
  by (simp add: mk_header_def)

lemma clean_mk_name:
  assumes "top_ok tdir" "safe_path path" "NUL \<notin> set path" "length tdir + 1 + length path \<le> 100"
    and "th_name t = pad 100 (tdir @ ''/'' @ path)" "th_prefix t = replicate 155 NUL"
  shows "clean_tar_name t = Some path"
proof -
  have "strncpy_z (th_name t) 100 = tdir @ ''/'' @ path"
    unfolding assms(5) by (rule strncpy_z_pad) (use assms(1,3,4) in \<open>auto simp: top_ok_def\<close>)
  moreover have "strip_top_dir (tdir @ ''/'' @ path) = path"
    using assms(1) by (simp add: strip_top_dir_def top_ok_def)
  ultimately show ?thesis
    using assms(2,6) by (simp add: clean_tar_name_def Let_def clean_path_iff)
qed

definition file_hdr :: "string \<Rightarrow> nat \<Rightarrow> nat \<Rightarrow> container_hdr" where
  "file_hdr path mode n = \<lparr>file_path = path, link_target = None, file_size = of_nat n, file_mode = int mode\<rparr>"

lemma read_mk_file:
  assumes "top_ok tdir" "entry_ok tdir (Tar_file path mode data)"
  shows "read_tar_header c (mk_header (tdir @ ''/'' @ path) mode (length data) REGTYPE []) =
    (0, c\<lparr>tc_file_opened := False, tc_path := Some path, tc_lnk := None,
          tc_padding := ((of_nat (length data) + 512 - 1) AND NOT (512 - 1)) - of_nat (length data),
          tc_h := file_hdr path mode (length data)\<rparr>)"
proof -
  let ?t = "tar_header_of (mk_header (tdir @ ''/'' @ path) mode (length data) REGTYPE [] @ [])"
  have len: "length (tdir @ ''/'' @ path) \<le> 100"
    using assms(2) by simp
  note f = mk_header_fields [where name = "tdir @ ''/'' @ path" and lnk = "[]" and flag = REGTYPE and rest = "[]"
      and mode = mode and sz = "length data", OF len]
  have "clean_tar_name ?t = Some path"
    by (rule clean_mk_name [OF assms(1)]) (use assms(2) f in auto)
  moreover have "strtoull 8 (strncpy_z (th_size ?t) 12) = of_nat (length data)"
    using f(3) strncpy_z_octal [of 11 "length data"] scan_int_octal [of 11 "length data"] assms(2)
    by (simp add: strtoull_def)
  moreover have "to_int32 (strtoll 8 (strncpy_z (th_mode ?t) 8)) = int mode"
    using f(2) strncpy_z_octal [of 7 mode] scan_int_octal [of 7 mode] assms(2)
    by (simp add: strtoll_def to_int32_def)
  ultimately show ?thesis
    using f(4) by (simp add: read_tar_header_def read_tar_file_header_def file_hdr_def Let_def)
qed

lemma read_mk_link:
  assumes "top_ok tdir" "entry_ok tdir (Tar_link path target)"
  shows "read_tar_header c (mk_header (tdir @ ''/'' @ path) 0 0 SYMTYPE target) =
    (0, c\<lparr>tc_file_opened := True, tc_path := Some path, tc_lnk := Some target, tc_padding := 0,
          tc_h := \<lparr>file_path = path, link_target = Some target, file_size = 0, file_mode = 0\<rparr>\<rparr>)"
proof -
  let ?t = "tar_header_of (mk_header (tdir @ ''/'' @ path) 0 0 SYMTYPE target @ [])"
  have len: "length (tdir @ ''/'' @ path) \<le> 100" "length target \<le> 100"
    using assms(2) by simp_all
  note f = mk_header_fields [where name = "tdir @ ''/'' @ path" and lnk = target and flag = SYMTYPE and rest = "[]"
      and mode = 0 and sz = 0, OF len]
  have "clean_tar_name ?t = Some path"
    by (rule clean_mk_name [OF assms(1)]) (use assms(2) f in auto)
  moreover have "clean_tar_linkname ?t = Some target"
    using f(5) assms(2) strncpy_z_pad [of target 100]
    by (auto simp: clean_tar_linkname_def safe_target_def strchr_None_iff Let_def)
  ultimately show ?thesis
    using f(4) by (simp add: read_tar_header_def read_tar_link_header_def)
qed

text \<open>The padding that the header computes with a mask is the padding to the block.\<close>

lemma and_not_mask: "(w :: 'a :: len word) AND NOT (mask k) = w - take_bit k w"
proof -
  have "w AND NOT (mask k) = push_bit k (drop_bit k w)"
    by (rule bit_word_eqI) (auto simp: bit_simps)
  moreover have "push_bit k (drop_bit k w) + take_bit k w = w"
    by (rule bits_ident)
  ultimately show ?thesis
    by (metis add_diff_cancel_right')
qed

lemma block_pad_up: "n + 511 - (n + 511) mod 512 - n = block_pad n"
proof -
  define q r where "q = n div 512" and "r = n mod 512"
  have n: "n = 512 * q + r" and r: "r < 512"
    by (simp_all add: q_def r_def)
  show ?thesis
  proof (cases "r = 0")
    case True
    then show ?thesis using n by (simp add: block_pad_def)
  next
    case False
    have "n + 511 = 512 * (q + 1) + (r - 1)"
      using n False by simp
    then have "(n + 511) mod 512 = r - 1"
      using r by (metis mod_mult_self3 add.commute mod_less mult.commute less_imp_diff_less)
    then show ?thesis
      using n r False by (simp add: block_pad_def)
  qed
qed

lemma tar_padding:
  assumes "n < 8 ^ 11"
  shows "unat (((of_nat n + 512 - 1) AND NOT (512 - 1)) - of_nat n :: uint64) = block_pad n"
proof -
  let ?w = "of_nat n + 511 :: uint64"
  have n: "unat (of_nat n :: uint64) = n"
    using assms by (simp add: unat_of_nat_small)
  have w: "unat ?w = n + 511"
    using assms n by (subst unat_add_small) simp_all
  have m: "(511 :: uint64) = mask 9"
    by (simp add: mask_eq_exp_minus_1)
  have "(of_nat n + 512 - 1) AND NOT (512 - 1) = ?w AND NOT (mask 9)"
    unfolding m [symmetric] by (simp add: add.commute)
  also have "\<dots> = ?w - take_bit 9 ?w" by (rule and_not_mask)
  finally have e: "((of_nat n + 512 - 1) AND NOT (512 - 1)) - of_nat n = ?w - take_bit 9 ?w - of_nat n" by simp
  have t: "unat (take_bit 9 ?w) = (n + 511) mod 512"
    using w by (simp add: take_bit_eq_mod unat_mod)
  have "unat (?w - take_bit 9 ?w) = n + 511 - (n + 511) mod 512"
    using w t by (subst unat_sub_small) simp_all
  moreover have "n \<le> n + 511 - (n + 511) mod 512"
    using mod_less_divisor [of 512 "n + 511"] by linarith
  ultimately show ?thesis
    unfolding e using n block_pad_up [of n] by (subst unat_sub_small) simp_all
qed


subsection \<open>The writer's output under the block scan\<close>

lemma tar_scan_file:
  assumes "entry_ok tdir (Tar_file path mode data)"
  shows "tar_scan (mk_entry tdir (Tar_file path mode data) @ rest) =
    Tar_member (mk_header (tdir @ ''/'' @ path) mode (length data) REGTYPE [])
      (data @ replicate (block_pad (length data)) NUL @ rest)"
proof -
  let ?h = "mk_header (tdir @ ''/'' @ path) mode (length data) REGTYPE []"
  have len: "length ?h = 512"
    using assms by simp
  have "th_typeflag (tar_header_of (?h @ xs)) = REGTYPE" for xs
    using assms by (subst mk_header_fields) simp_all
  then show ?thesis
    using len by (subst tar_scan.simps) auto
qed

lemma tar_scan_link:
  assumes "entry_ok tdir (Tar_link path target)"
  shows "tar_scan (mk_entry tdir (Tar_link path target) @ rest) =
    Tar_member (mk_header (tdir @ ''/'' @ path) 0 0 SYMTYPE target) rest"
proof -
  let ?h = "mk_header (tdir @ ''/'' @ path) 0 0 SYMTYPE target"
  have len: "length ?h = 512"
    using assms by simp
  have "th_typeflag (tar_header_of (?h @ xs)) = SYMTYPE" for xs
    using assms by (subst mk_header_fields) simp_all
  then show ?thesis
    using len by (subst tar_scan.simps) auto
qed

lemma tar_scan_zeros: "tar_scan (replicate (512 * k) NUL) = Tar_end"
proof (induction k)
  case 0
  then show ?case
    by (subst tar_scan.simps) simp
next
  case (Suc k)
  have "th_typeflag (tar_header_of (replicate (512 * Suc k) NUL)) = [NUL]"
    by (simp add: tar_header_of_def slice_def)
  then have "tar_scan (replicate (512 * Suc k) NUL) = tar_scan (replicate (512 * k) NUL)"
    by (subst tar_scan.simps) simp
  with Suc show ?case
    by simp
qed


subsection \<open>A member stream gives the rest of the archive back\<close>

text \<open>
  The invariant of a limiter that also fixes what follows its part of the source.
\<close>

definition limit_frame :: "('s \<Rightarrow> bool) \<Rightarrow> ('s \<Rightarrow> bytes) \<Rightarrow> bytes \<Rightarrow> 's limit_stream \<Rightarrow> bool" where
  "limit_frame I P R ls \<longleftrightarrow>
     I (ls_source ls) \<and> unat (ls_left ls) \<le> length (P (ls_source ls)) \<and> drop (unat (ls_left ls)) (P (ls_source ls)) = R"

lemma limit_frame_inv: "limit_frame I P R ls \<Longrightarrow> limit_inv I ls"
  by (simp add: limit_frame_def limit_inv_def)

context reliable_stream
begin

lemma read_limit_frame:
  assumes "limit_frame ok pending R ls" and "unat c \<le> limit_view view ls" and "unat n \<le> max_need"
    and "read_limit rd ls c n = Some (ls', Some p, len)"
  shows "limit_frame ok pending R ls'"
proof -
  have c: "unat c \<le> unat (ls_left ls)"
    using assms(2) by (simp add: limit_view_def)
  have ls': "ls_left ls' = ls_left ls - c"
    using assms(4) by (auto simp: read_limit_def Let_def split: option.splits)
  then have left: "unat (ls_left ls') = unat (ls_left ls) - unat c"
    using c by (simp add: unat_sub_small)
  let ?need = "if ls_left ls - c < n then ls_left ls - c else n"
  obtain q where "rd (ls_source ls) c ?need = Some (ls_source ls', Some p, q)"
    using assms(4) by (auto simp: read_limit_def Let_def split: option.splits)
  moreover have "ok (ls_source ls)" "unat c \<le> view (ls_source ls)" "unat ?need \<le> max_need"
    using assms(1-3) by (auto simp: limit_frame_def limit_view_def word_less_nat_alt)
  ultimately have "ok (ls_source ls')" "pending (ls_source ls') = drop (unat c) (pending (ls_source ls))"
    using rd_inv rd_pending by blast+
  with assms(1) left c show ?thesis
    by (auto simp: limit_frame_def)
qed

lemma limit_reliable:
  "reliable_stream (read_limit rd) (limit_frame ok pending R) (limit_pending pending) (limit_view view)"
proof -
  note lim = limit_stream
  have stream: "byte_stream (read_limit rd) (limit_frame ok pending R) (limit_pending pending) (limit_view view)"
  proof (rule byte_streamI, goal_cases)
    case (1 s)
    then show ?case
      using byte_stream.pending_bound [OF lim] byte_stream.view_bound [OF lim] limit_frame_inv by blast
  next
    case (2 s c n s' p len)
    from read_limit_post [OF limit_frame_inv [OF 2(1)] 2(2-4)] read_limit_frame [OF 2]
    show ?case
      by (simp add: rd_post_def)
  next
    case (3 s c n s' len)
    then show ?case
      using byte_stream.rd_null [OF lim] limit_frame_inv by blast
  next
    case (4 s c n)
    then show ?case
      using byte_stream.rd_returns [OF lim] limit_frame_inv by blast
  qed
  show ?thesis
  proof (intro reliable_stream.intro reliable_stream_axioms.intro stream)
    fix s s' c n p len
    assume a: "limit_frame ok pending R s" "unat c \<le> limit_view view s" "unat n \<le> max_need"
      "read_limit rd s c n = Some (s', p, len)"
    let ?need = "if ls_left s - c < n then ls_left s - c else n"
    have pre: "ok (ls_source s)" "unat c \<le> view (ls_source s)" "unat ?need \<le> max_need"
      using a(1-3) by (auto simp: limit_frame_def limit_view_def word_less_nat_alt)
    then show "p \<noteq> None"
      using a(4) rd_never_null [OF pre] by (auto simp: read_limit_def Let_def split: option.splits)
  qed
qed

lemma limit_frame_end:
  assumes "limit_frame ok pending R ls" and "limit_pending pending ls = []"
  shows "ok (ls_source ls)" and "pending (ls_source ls) = R"
  using assms by (auto simp: limit_frame_def limit_pending_def)

end


subsection \<open>Unpacking an archive\<close>

fun place :: "string \<Rightarrow> tar_entry \<Rightarrow> (string \<rightharpoonup> node) \<Rightarrow> (string \<rightharpoonup> node)" where
  "place dir (Tar_file path mode data) fs = fs(dir @ ''/'' @ path \<mapsto> File_node (int mode) data)"
| "place dir (Tar_link path target) fs = fs(dir @ ''/'' @ path \<mapsto> Link_node target)"

text \<open>The container has the bytes \<open>rest\<close> of the archive still to look at.\<close>

definition at_entries :: "('s \<Rightarrow> bool) \<Rightarrow> ('s \<Rightarrow> bytes) \<Rightarrow> 's tar_container \<Rightarrow> bytes \<Rightarrow> bool" where
  "at_entries ok pending c rest \<longleftrightarrow>
     ok (tc_s c) \<and> unat (tar_left c) \<le> length (pending (tc_s c)) \<and> drop (unat (tar_left c)) (pending (tc_s c)) = rest"

context reliable_stream
begin

lemma next_entry:
  assumes "at_entries ok pending c arc" and "tar_scan arc = Tar_member block rest'"
    and "\<And>c. read_tar_header c block = (0, upd c)"
  obtains c1 where "next_tar_file rd c = Some (0, c1)" "ok (tc_s c1)" "pending (tc_s c1) = rest'"
    and "c1 = (upd (c\<lparr>tc_path := None, tc_lnk := None, tc_padding := 0\<rparr>))\<lparr>tc_s := tc_s c1\<rparr>"
proof -
  let ?c0 = "c\<lparr>tc_path := None, tc_lnk := None, tc_padding := 0\<rparr>"
  have "headers_post ok pending ?c0 arc (next_tar_file rd c)"
    using next_tar_file_ok [of c] assms(1) by (auto simp: at_entries_def)
  then obtain c1 where c1: "next_tar_file rd c = Some (0, c1)" "ok (tc_s c1)" "pending (tc_s c1) = rest'"
    "c1 = (upd ?c0)\<lparr>tc_s := tc_s c1\<rparr>"
    using assms(2,3) by (auto simp: headers_post_def)
  then show thesis
    by (rule that)
qed

text \<open>One member: the header is found, the member is made and the container stands behind it.\<close>

lemma extract_entry_link:
  assumes "calm e" and "top_ok tdir" "entry_ok tdir (Tar_link path target)"
    and "at_entries ok pending c (mk_entry tdir (Tar_link path target) @ rest)"
  shows "\<exists>c' w'. extract_container e (tar_ops h rd) c dir w = extract_container e (tar_ops h rd) c' dir w'
    \<and> at_entries ok pending c' rest \<and> fs_of w' = place dir (Tar_link path target) (fs_of w)"
proof -
  note scan = tar_scan_link [OF assms(3)]
  obtain c1 where c1: "next_tar_file rd c = Some (0, c1)" "ok (tc_s c1)" "pending (tc_s c1) = rest"
    "c1 = c\<lparr>tc_file_opened := True, tc_path := Some path, tc_lnk := Some target, tc_padding := 0,
       tc_h := \<lparr>file_path = path, link_target = Some target, file_size = 0, file_mode = 0\<rparr>, tc_s := tc_s c1\<rparr>"
    by (rule next_entry [OF assms(4) scan read_mk_link [OF assms(2,3)]]) simp
  have h: "tc_h c1 = \<lparr>file_path = path, link_target = Some target, file_size = 0, file_mode = 0\<rparr>" and left: "tar_left c1 = 0"
    by (subst c1(4), simp add: tar_left_def)+
  let ?w1 = "w @ [(Sys_symlink target (dir @ ''/'' @ path), True)]"
  have "extract_link e dir path target w = (True, ?w1)"
    using assms(1) by (simp add: extract_link_def do_sys_def calm_def)
  then have "extract_container e (tar_ops h rd) c dir w = extract_container e (tar_ops h rd) c1 dir ?w1"
    using c1(1) h by (subst extract_container.simps) (simp add: tar_ops_def)
  moreover have "at_entries ok pending c1 rest"
    using c1(2,3) left by (simp add: at_entries_def)
  ultimately show ?thesis
    by (intro exI [of _ c1] exI [of _ ?w1]) (simp add: fs_of_append)
qed

lemma extract_entry_file:
  assumes "calm e" and g: "\<forall>n. grant h n" and "top_ok tdir" "entry_ok tdir (Tar_file path mode data)"
    and "at_entries ok pending c (mk_entry tdir (Tar_file path mode data) @ rest)"
  shows "\<exists>c' w'. extract_container e (tar_ops h rd) c dir w = extract_container e (tar_ops h rd) c' dir w'
    \<and> at_entries ok pending c' rest \<and> fs_of w' = place dir (Tar_file path mode data) (fs_of w)"
proof -
  let ?n = "length data"
  let ?gap = "replicate (block_pad ?n) NUL @ rest"
  let ?pad = "((of_nat ?n + 512 - 1) AND NOT (512 - 1)) - of_nat ?n :: uint64"
  have n: "?n < 8 ^ 11"
    using assms(4) by simp
  then have un: "unat (of_nat ?n :: uint64) = ?n"
    by (simp add: unat_of_nat_small)
  note scan = tar_scan_file [OF assms(4)]
  obtain c1 where c1: "next_tar_file rd c = Some (0, c1)" "ok (tc_s c1)" "pending (tc_s c1) = data @ ?gap"
    "c1 = c\<lparr>tc_file_opened := False, tc_path := Some path, tc_lnk := None, tc_padding := ?pad,
       tc_h := file_hdr path mode ?n, tc_s := tc_s c1\<rparr>"
    by (rule next_entry [OF assms(5) scan read_mk_file [OF assms(3,4)]]) simp
  have h: "tc_h c1 = file_hdr path mode ?n" "tc_padding c1 = ?pad" "\<not> tc_file_opened c1"
    by (subst c1(4), simp)+
  let ?ls = "\<lparr>ls_left = of_nat ?n, ls_source = tc_s c1\<rparr>"
  let ?c2 = "c1\<lparr>tc_file_opened := True\<rparr>"
  have o: "open_tar_file h c1 = (Some ?ls, ?c2)"
    using h g by (simp add: open_tar_file_def open_limited_def file_hdr_def)
  have frame: "limit_frame ok pending ?gap ?ls" and data: "limit_pending pending ?ls = data"
    using c1(2,3) un by (simp_all add: limit_frame_def limit_pending_def)
  note lim = limit_reliable [of ?gap]
  obtain ls' w' where x: "extract_path e (read_limit rd) ?ls dir path (int mode) w = Some (0, ls', w')"
    and fs: "fs_of w' = (fs_of w)(dir @ ''/'' @ path \<mapsto> File_node (int mode) data)"
    and ls': "limit_frame ok pending ?gap ls'" "limit_pending pending ls' = []"
    using reliable_stream.extract_path_calm [OF lim assms(1) frame, of dir path "int mode" w] data by auto
  let ?c3 = "?c2\<lparr>tc_s := ls_source ls'\<rparr>"
  have "extract_container e (tar_ops h rd) c dir w = extract_container e (tar_ops h rd) ?c3 dir w'"
    using c1(1) h o x by (subst extract_container.simps) (simp add: tar_ops_def file_hdr_def close_limit_def Let_def)
  moreover have "unat (tar_left ?c3) = block_pad ?n"
    using h(2) tar_padding [OF n] by (simp add: tar_left_def)
  then have "at_entries ok pending ?c3 rest"
    using limit_frame_end [OF ls'] by (simp add: at_entries_def)
  ultimately show ?thesis
    using fs by (intro exI conjI) simp_all
qed

lemma extract_tar:
  assumes "calm e" and "\<forall>n. grant h n" and "top_ok tdir" and "\<forall>m \<in> set ms. entry_ok tdir m"
    and "at_entries ok pending c (mk_tar tdir ms k)"
  shows "\<exists>c' w'. extract_container e (tar_ops h rd) c dir w = Some (0, c', w') \<and> fs_of w' = fold (place dir) ms (fs_of w)"
  using assms(4,5)
proof (induction ms arbitrary: c w)
  case Nil
  have "headers_post ok pending (c\<lparr>tc_path := None, tc_lnk := None, tc_padding := 0\<rparr>) (replicate (512 * k) NUL) (next_tar_file rd c)"
    using next_tar_file_ok [of c] Nil.prems(2) by (auto simp: at_entries_def mk_tar_def)
  then obtain c' where "next_tar_file rd c = Some (1, c')"
    using tar_scan_zeros by (auto simp: headers_post_def)
  then have "extract_container e (tar_ops h rd) c dir w = Some (0, c', w)"
    by (subst extract_container.simps) (simp add: tar_ops_def)
  then show ?case
    by simp
next
  case (Cons m ms)
  have arc: "at_entries ok pending c (mk_entry tdir m @ mk_tar tdir ms k)"
    using Cons.prems(2) by (simp add: mk_tar_def)
  have "\<exists>c' w'. extract_container e (tar_ops h rd) c dir w = extract_container e (tar_ops h rd) c' dir w'
    \<and> at_entries ok pending c' (mk_tar tdir ms k) \<and> fs_of w' = place dir m (fs_of w)"
  proof (cases m)
    case (Tar_file path mode data)
    then show ?thesis
      using extract_entry_file [OF assms(1-3)] arc Cons.prems(1) by auto
  next
    case (Tar_link path target)
    then show ?thesis
      using extract_entry_link [OF assms(1,3)] arc Cons.prems(1) by auto
  qed
  then obtain c' w' where s: "extract_container e (tar_ops h rd) c dir w = extract_container e (tar_ops h rd) c' dir w'"
    "at_entries ok pending c' (mk_tar tdir ms k)" "fs_of w' = place dir m (fs_of w)"
    by blast
  show ?case
    using Cons.IH [OF _ s(2), of w'] Cons.prems(1) s(1,3) by simp
qed

end

end
