(* ===== verification/Zip.thy ===== *)
theory Zip
  imports Extract
begin

text \<open>
  \<^verbatim>\<open>tools/stream/container-zip.c\<close> and \<^verbatim>\<open>tools/stream/zip.h\<close>: reading a zip archive
  from a \<^verbatim>\<open>FILE\<close>.  The container and the stream of the member it has opened share the
  \<^verbatim>\<open>FILE\<close>; the model hands it to the stream and takes it back when the stream is closed.
\<close>

subsection \<open>zip.h\<close>

record zip_central_dir_end =
  ze_sig :: bytes
  ze_disk_num :: bytes
  ze_dir_start_disk_num :: bytes
  ze_num_entries_this_disk :: bytes
  ze_num_entries :: bytes
  ze_dir_len :: bytes
  ze_dir_offset :: bytes
  ze_comment_len :: bytes

definition zip_central_dir_end_of :: "bytes \<Rightarrow> zip_central_dir_end" where
  "zip_central_dir_end_of p =
     \<lparr>ze_sig = slice 0 4 p, ze_disk_num = slice 4 2 p, ze_dir_start_disk_num = slice 6 2 p,
      ze_num_entries_this_disk = slice 8 2 p, ze_num_entries = slice 10 2 p, ze_dir_len = slice 12 4 p,
      ze_dir_offset = slice 16 4 p, ze_comment_len = slice 20 2 p\<rparr>"

record zip64_central_dir_locator =
  zl_sig :: bytes
  zl_dir_start_disk_num :: bytes
  zl_dir_offset :: bytes
  zl_total_disks :: bytes

definition zip64_central_dir_locator_of :: "bytes \<Rightarrow> zip64_central_dir_locator" where
  "zip64_central_dir_locator_of p =
     \<lparr>zl_sig = slice 0 4 p, zl_dir_start_disk_num = slice 4 4 p, zl_dir_offset = slice 8 8 p,
      zl_total_disks = slice 16 4 p\<rparr>"

record zip_file_header =
  zh_sig :: bytes
  zh_create_version :: bytes
  zh_extract_version :: bytes
  zh_flags :: bytes
  zh_compression_method :: bytes
  zh_mtime :: bytes
  zh_mdate :: bytes
  zh_crc32 :: bytes
  zh_compressed_len :: bytes
  zh_uncompressed_len :: bytes
  zh_name_len :: bytes
  zh_extra_len :: bytes
  zh_comment_len :: bytes
  zh_disk_num :: bytes
  zh_internal_attributes :: bytes
  zh_external_attributes :: bytes
  zh_header_off :: bytes

definition zip_file_header_of :: "bytes \<Rightarrow> zip_file_header" where
  "zip_file_header_of p =
     \<lparr>zh_sig = slice 0 4 p, zh_create_version = slice 4 2 p, zh_extract_version = slice 6 2 p,
      zh_flags = slice 8 2 p, zh_compression_method = slice 10 2 p, zh_mtime = slice 12 2 p,
      zh_mdate = slice 14 2 p, zh_crc32 = slice 16 4 p, zh_compressed_len = slice 20 4 p,
      zh_uncompressed_len = slice 24 4 p, zh_name_len = slice 28 2 p, zh_extra_len = slice 30 2 p,
      zh_comment_len = slice 32 2 p, zh_disk_num = slice 34 2 p, zh_internal_attributes = slice 36 2 p,
      zh_external_attributes = slice 38 4 p, zh_header_off = slice 42 4 p\<rparr>"

record zip_file_extra =
  zx_tag :: bytes
  zx_size :: bytes

definition zip_file_extra_of :: "bytes \<Rightarrow> zip_file_extra" where
  "zip_file_extra_of p = \<lparr>zx_tag = slice 0 2 p, zx_size = slice 2 2 p\<rparr>"

record zip_local_header =
  zk_sig :: bytes
  zk_extract_version :: bytes
  zk_flags :: bytes
  zk_compression_method :: bytes
  zk_mtime :: bytes
  zk_mdate :: bytes
  zk_crc32 :: bytes
  zk_compressed_len :: bytes
  zk_uncompressed_len :: bytes
  zk_name_len :: bytes
  zk_extra_len :: bytes

definition zip_local_header_of :: "bytes \<Rightarrow> zip_local_header" where
  "zip_local_header_of p =
     \<lparr>zk_sig = slice 0 4 p, zk_extract_version = slice 4 2 p, zk_flags = slice 6 2 p,
      zk_compression_method = slice 8 2 p, zk_mtime = slice 10 2 p, zk_mdate = slice 12 2 p,
      zk_crc32 = slice 14 4 p, zk_compressed_len = slice 18 4 p, zk_uncompressed_len = slice 22 4 p,
      zk_name_len = slice 26 2 p, zk_extra_len = slice 28 2 p\<rparr>"

abbreviation ZIP_CENTRAL_DIR_END_SIG :: uint32 where
  "ZIP_CENTRAL_DIR_END_SIG \<equiv> 0x06054b50"

abbreviation ZIP64_CENTRAL_DIR_LOCATOR_SIG :: uint32 where
  "ZIP64_CENTRAL_DIR_LOCATOR_SIG \<equiv> 0x07064b50"

abbreviation ZIP_FILE_HEADER_SIG :: uint32 where
  "ZIP_FILE_HEADER_SIG \<equiv> 0x02014b50"

abbreviation ZIP64_FILE_EXTRA :: uint16 where
  "ZIP64_FILE_EXTRA \<equiv> 1"


subsection \<open>Little-endian numbers\<close>

text \<open>A byte of a buffer, cast to a wider unsigned type.\<close>

definition byte_word :: "bytes \<Rightarrow> nat \<Rightarrow> 'a::len word" where
  "byte_word p i = of_nat (of_char (p ! i))"

definition little_16 :: "bytes \<Rightarrow> uint16" where
  "little_16 p = byte_word p 0 OR push_bit 8 (byte_word p 1)"

definition little_32 :: "bytes \<Rightarrow> uint32" where
  "little_32 p =
     byte_word p 0 OR push_bit 8 (byte_word p 1) OR push_bit 16 (byte_word p 2) OR push_bit 24 (byte_word p 3)"

definition little_64 :: "bytes \<Rightarrow> uint64" where
  "little_64 p =
     byte_word p 0 OR push_bit 8 (byte_word p 1) OR push_bit 16 (byte_word p 2) OR push_bit 24 (byte_word p 3)
     OR push_bit 32 (byte_word p 4) OR push_bit 40 (byte_word p 5) OR push_bit 48 (byte_word p 6)
     OR push_bit 56 (byte_word p 7)"


subsection \<open>The central directory\<close>

text \<open>\<^verbatim>\<open>ftello\<close> and \<^verbatim>\<open>fseeko\<close>: a file offset is a signed 64 bit number.\<close>

definition ftell64 :: "FILE \<Rightarrow> uint64" where
  "ftell64 f = of_nat (f_pos f)"

definition fseek64 :: "uint64 \<Rightarrow> FILE \<Rightarrow> bool \<times> FILE" where
  "fseek64 off f = fseek_set (sint off) f"

definition find_central_dir_64 :: "FILE \<Rightarrow> int \<Rightarrow> int \<times> FILE" where
  "find_central_dir_64 f off =
     (let (ok, f1) = fseek_end (- off - 20) f
      in if \<not> ok then (- 2, f1)
         else let (cd, f2) = fread 20 f1
              in if length cd \<noteq> 20 then (- 2, f2)
                 else if little_32 (zl_sig (zip64_central_dir_locator_of cd)) \<noteq> ZIP64_CENTRAL_DIR_LOCATOR_SIG
                 then (- 2, f2)
                 else let diroff = sint (little_64 (zl_dir_offset (zip64_central_dir_locator_of cd)))
                      in if diroff < 0 then (- 2, f2) else (diroff, f2))"

text \<open>The search through the buffer, from \<open>p\<close> down to 0.\<close>

fun central_dir_loop :: "FILE \<Rightarrow> bytes \<Rightarrow> int \<Rightarrow> nat \<Rightarrow> int \<times> FILE" where
  "central_dir_loop f buf off p =
     (let c = zip_central_dir_end_of (slice p 22 buf)
      in if little_32 (ze_sig c) = ZIP_CENTRAL_DIR_END_SIG
            \<and> int p + 22 + int (unat (little_16 (ze_comment_len c))) = off
         then let dir_offset = little_32 (ze_dir_offset c)
              in if dir_offset = 0xFFFFFFFF then find_central_dir_64 f (int p) else (uint dir_offset, f)
         else case p of 0 \<Rightarrow> (- 1, f) | Suc p' \<Rightarrow> central_dir_loop f buf off p')"

declare central_dir_loop.simps [simp del]

definition find_central_dir :: "FILE \<Rightarrow> int \<Rightarrow> int \<times> FILE" where
  "find_central_dir f off =
     (if off < 22 then (- 2, f)
      else let (ok, f1) = fseek_end (- off) f
           in if \<not> ok then (- 2, f1)
              else let (buf, f2) = fread (nat off) f1
                   in if int (length buf) \<noteq> off then (- 2, f2)
                      else central_dir_loop f2 buf off (nat (off - 22)))"


subsection \<open>The container\<close>

record zip_container =
  zc_h :: container_hdr
  zc_f :: FILE
  zc_diroff :: uint64
  zc_header_off :: uint64
  zc_uncompressed_len :: uint64
  zc_compressed_len :: uint64
  zc_compression_method :: uint16
  zc_path :: "string option"
  zc_executable :: bool

text \<open>
  One of the three 64 bit numbers of a zip64 extra field: it is read when the 32 bit one is
  saturated and the field is long enough.  The result is the number and what is left of the field;
  \<open>None\<close> is a short read.
\<close>

definition zip64_number :: "FILE \<Rightarrow> uint64 \<Rightarrow> uint16 \<Rightarrow> (uint64 \<times> uint16) option \<times> FILE" where
  "zip64_number f v sz =
     (if v = 0xFFFFFFFF \<and> 8 \<le> sz
      then let (buf, f1) = fread 8 f
           in if length buf \<noteq> 8 then (None, f1) else (Some (little_64 buf, sz - 8), f1)
      else (Some (v, sz), f))"

definition zip64_extra :: "zip_container \<Rightarrow> uint16 \<Rightarrow> uint16 option \<times> zip_container" where
  "zip64_extra z sz =
     (case zip64_number (zc_f z) (zc_uncompressed_len z) sz of
        (None, f1) \<Rightarrow> (None, z\<lparr>zc_f := f1\<rparr>)
      | (Some (u, sz1), f1) \<Rightarrow>
          (case zip64_number f1 (zc_compressed_len z) sz1 of
             (None, f2) \<Rightarrow> (None, z\<lparr>zc_uncompressed_len := u, zc_f := f2\<rparr>)
           | (Some (c, sz2), f2) \<Rightarrow>
               (case zip64_number f2 (zc_header_off z) sz2 of
                  (None, f3) \<Rightarrow> (None, z\<lparr>zc_uncompressed_len := u, zc_compressed_len := c, zc_f := f3\<rparr>)
                | (Some (off, sz3), f3) \<Rightarrow>
                    (Some sz3, z\<lparr>zc_uncompressed_len := u, zc_compressed_len := c, zc_header_off := off, zc_f := f3\<rparr>))))"

text \<open>The loop over the extra fields: an error, or the length left to skip.\<close>

function zip_extra_loop :: "zip_container \<Rightarrow> nat \<Rightarrow> nat option \<times> zip_container" where
  "zip_extra_loop z extralen =
     (if extralen < 4 then (Some extralen, z)
      else let (extra, f1) = fread 4 (zc_f z); z1 = z\<lparr>zc_f := f1\<rparr>
           in if length extra \<noteq> 4 then (None, z1)
              else let tag = little_16 (zx_tag (zip_file_extra_of extra));
                       sz = little_16 (zx_size (zip_file_extra_of extra))
                   in if extralen < 4 + unat sz then (Some extralen, z1)
                      else (case (if tag = ZIP64_FILE_EXTRA then zip64_extra z1 sz else (Some sz, z1)) of
                              (None, z2) \<Rightarrow> (None, z2)
                            | (Some sz1, z2) \<Rightarrow>
                                let (ok, f3) = fseek_cur (uint sz1) (zc_f z2); z3 = z2\<lparr>zc_f := f3\<rparr>
                                in if \<not> ok then (None, z3) else zip_extra_loop z3 (extralen - (4 + unat sz))))"
  by pat_completeness auto
termination
  by (relation "measure snd") auto

declare zip_extra_loop.simps [simp del]

text \<open>
  The attribute bit tested is \<^verbatim>\<open>0100 << 16\<close>.  Reading stops in front of the file comment that the
  header announces.
\<close>

definition read_zip_file_header :: "zip_container \<Rightarrow> int \<times> zip_container" where
  "read_zip_file_header z0 =
     (let (b, f1) = fread 46 (zc_f z0); z = z0\<lparr>zc_f := f1\<rparr>; fh = zip_file_header_of b
      in if length b \<noteq> 46 \<or> little_32 (zh_sig fh) \<noteq> ZIP_FILE_HEADER_SIG then (1, z)
         else let z1 = z\<lparr>zc_header_off := ucast (little_32 (zh_header_off fh)),
                         zc_compressed_len := ucast (little_32 (zh_compressed_len fh)),
                         zc_uncompressed_len := ucast (little_32 (zh_uncompressed_len fh)),
                         zc_compression_method := little_16 (zh_compression_method fh),
                         zc_executable := (little_32 (zh_external_attributes fh) AND 0x400000 \<noteq> 0)\<rparr>;
                  namelen = unat (little_16 (zh_name_len fh));
                  (name, f2) = fread namelen (zc_f z1); z2 = z1\<lparr>zc_f := f2\<rparr>
              in if length name \<noteq> namelen then (- 1, z2)
                 else let z3 = z2\<lparr>zc_path := clean_path (replace_char (cstr name) (CHR 0x5C) (CHR ''/'')) []\<rparr>
                      in if zc_path z3 = None then (- 1, z3)
                         else (case zip_extra_loop z3 (unat (little_16 (zh_extra_len fh))) of
                                 (None, z4) \<Rightarrow> (- 1, z4)
                               | (Some extralen, z4) \<Rightarrow>
                                   let (ok, f5) = fseek_cur (int extralen) (zc_f z4)
                                   in (if ok then 0 else - 1, z4\<lparr>zc_f := f5\<rparr>)))"

definition close_zip :: "zip_container \<Rightarrow> FILE" where
  "close_zip z = zc_f z"

text \<open>
  What the stream of a member is: the limited file itself, or an inflater over it.  Two error paths
  are undefined in C: an inflater that cannot be opened has closed its source, which is then closed
  again, and the default case closes a stream that is null when its allocation failed.
\<close>

datatype 'z zip_stream =
    Zip_stored "file_stream limit_stream"
  | Zip_inflated "('z, file_stream limit_stream) zlib_stream"

datatype 'z zip_open = Zip_opened "'z zip_stream" | Zip_null | Zip_double_close | Zip_null_close

definition open_zip_stream ::
  "(bool \<Rightarrow> int \<Rightarrow> 'z option) \<Rightarrow> heap \<Rightarrow> FILE \<Rightarrow> uint64 \<Rightarrow> uint16 \<Rightarrow> 'z zip_open" where
  "open_zip_stream init h f compressed_len compression_method =
     (let s = (case open_limited h (open_file_stream h f) compressed_len of Opened ls \<Rightarrow> Some ls | _ \<Rightarrow> None)
      in if compression_method = 8
         then (case open_inflate init h s of
                 Opened zs \<Rightarrow> Zip_opened (Zip_inflated zs)
               | Null_closed ls \<Rightarrow> Zip_double_close
               | Null \<Rightarrow> Zip_null_close)
         else if compression_method = 0
         then (case s of Some ls \<Rightarrow> Zip_opened (Zip_stored ls) | None \<Rightarrow> Zip_null)
         else (case s of Some ls \<Rightarrow> Zip_null | None \<Rightarrow> Zip_null_close))"

definition open_zip_file ::
  "(bool \<Rightarrow> int \<Rightarrow> 'z option) \<Rightarrow> heap \<Rightarrow> zip_container \<Rightarrow> 'z zip_open \<times> zip_container" where
  "open_zip_file init h z =
     (let (ok, f1) = fseek64 (zc_header_off z) (zc_f z)
      in if \<not> ok then (Zip_null, z\<lparr>zc_f := f1\<rparr>)
         else let (lh, f2) = fread 30 f1
              in if length lh \<noteq> 30 then (Zip_null, z\<lparr>zc_f := f2\<rparr>)
                 else let k = zip_local_header_of lh;
                          (ok3, f3) = fseek_cur (uint (little_16 (zk_name_len k)) + uint (little_16 (zk_extra_len k))) f2
                      in if \<not> ok3 then (Zip_null, z\<lparr>zc_f := f3\<rparr>)
                         else (open_zip_stream init h f3 (zc_compressed_len z) (zc_compression_method z),
                               z\<lparr>zc_f := f3\<rparr>))"

partial_function (option) next_zip_file :: "zip_container \<Rightarrow> (int \<times> zip_container) option" where
  "next_zip_file z =
     (let (ok, f1) = fseek64 (zc_diroff z) (zc_f z); z1 = z\<lparr>zc_f := f1\<rparr>
      in if \<not> ok then Some (- 1, z1)
         else let (error, z2) = read_zip_file_header z1
              in if error < 0 then Some (- 1, z2)
                 else if 0 < error then Some (1, z2)
                 else let z3 = z2\<lparr>zc_diroff := ftell64 (zc_f z2)\<rparr>
                      in case zc_path z3 of
                           None \<Rightarrow> Some (- 1, z3)
                         | Some path \<Rightarrow>
                             if last path = CHR ''/'' then next_zip_file z3
                             else Some (0, z3\<lparr>zc_h :=
                               \<lparr>file_path = path, link_target = None, file_size = zc_uncompressed_len z3,
                                file_mode = (if zc_executable z3 then 493 else 420)\<rparr>\<rparr>))"

text \<open>The search with larger and larger tails of the file; the inner \<open>None\<close> is a null container.\<close>

partial_function (option) open_zip_loop :: "FILE \<Rightarrow> uint64 \<Rightarrow> int \<Rightarrow> (int option \<times> FILE) option" where
  "open_zip_loop f zip_size off0 =
     (let off = (if uint zip_size < off0 then uint zip_size else off0);
          (diroff, f1) = find_central_dir f off
      in if diroff < - 1 then Some (None, f1)
         else if 0 \<le> diroff then Some (Some diroff, f1)
         else if off = 22 then open_zip_loop f1 zip_size 1024
         else if off = 1024 then open_zip_loop f1 zip_size (65 * 1024)
         else Some (None, f1))"

definition open_zip :: "FILE \<Rightarrow> zip_container option option" where
  "open_zip f =
     (let f1 = snd (fseek_end 0 f); zip_size = ftell64 f1
      in case open_zip_loop f1 zip_size 22 of
           None \<Rightarrow> None
         | Some (None, f2) \<Rightarrow> Some None
         | Some (Some diroff, f2) \<Rightarrow>
             Some (Some \<lparr>zc_h = \<lparr>file_path = [], link_target = None, file_size = 0, file_mode = 0\<rparr>, zc_f = f2,
               zc_diroff = of_int diroff, zc_header_off = 0, zc_uncompressed_len = 0, zc_compressed_len = 0,
               zc_compression_method = 0, zc_path = None, zc_executable = False\<rparr>))"

text \<open>The function pointers of the container and of the stream it opens.\<close>

definition read_zip_stream :: "'z zlib_run \<Rightarrow> heap \<Rightarrow> 'z zip_stream reader" where
  "read_zip_stream zrun h s consume need =
     (case s of
        Zip_stored ls \<Rightarrow>
          (case read_limit (read_file h) ls consume need of
             None \<Rightarrow> None | Some (ls1, r) \<Rightarrow> Some (Zip_stored ls1, r))
      | Zip_inflated zs \<Rightarrow>
          (case read_zlib zrun h (read_limit (read_file h)) zs consume need of
             None \<Rightarrow> None | Some (zs1, r) \<Rightarrow> Some (Zip_inflated zs1, r)))"

definition close_zip_stream :: "'z zip_stream \<Rightarrow> FILE" where
  "close_zip_stream s =
     (case s of
        Zip_stored ls \<Rightarrow> close_file (close_limit ls)
      | Zip_inflated zs \<Rightarrow> close_zlib (\<lambda>ls. close_file (close_limit ls)) zs)"

text \<open>
  To the extractor a member that could not be opened is one case: the undefined outcomes above count as a null
  stream too.
\<close>

definition zip_ops ::
  "(bool \<Rightarrow> int \<Rightarrow> 'z option) \<Rightarrow> 'z zlib_run \<Rightarrow> heap \<Rightarrow> (zip_container, 'z zip_stream) container_ops" where
  "zip_ops init zrun h =
     \<lparr>c_next = next_zip_file,
      c_open = (\<lambda>z. let (r, z1) = open_zip_file init h z in (case r of Zip_opened s \<Rightarrow> Some s | _ \<Rightarrow> None, z1)),
      c_read = read_zip_stream zrun h,
      c_close_file = (\<lambda>s z. z\<lparr>zc_f := close_zip_stream s\<rparr>), c_hdr = zc_h\<rparr>"


subsection \<open>Every member of a zip archive has a safe name\<close>

lemma zip64_extra_path: "zip64_extra z sz = (r, z') \<Longrightarrow> zc_path z' = zc_path z"
  by (auto simp: zip64_extra_def split: prod.splits option.splits)

lemma zip_extra_loop_path: "zip_extra_loop z n = (r, z') \<Longrightarrow> zc_path z' = zc_path z"
proof (induction n arbitrary: z r z' rule: less_induct)
  case (less n)
  have IH: "zc_path z2 = zc_path z1" if "zip_extra_loop z1 (n - (4 + k)) = (s, z2)" "\<not> n < 4" for z1 z2 k s
    by (rule less.IH [OF _ that(1)]) (use that(2) in linarith)
  from less.prems show ?case
    by (subst (asm) zip_extra_loop.simps)
      (auto simp: Let_def split: if_splits prod.splits option.splits dest!: zip64_extra_path IH)
qed

lemma read_zip_file_header_safe:
  assumes "read_zip_file_header z = (0, z')"
  shows "\<exists>p. zc_path z' = Some p \<and> safe_path p"
  using assms
  by (auto simp: read_zip_file_header_def Let_def clean_path_iff split: if_splits prod.splits option.splits
      dest!: zip_extra_loop_path)

lemma next_zip_file_safe:
  assumes "next_zip_file z = Some (err, z')"
  shows "err = 0 \<longrightarrow> hdr_safe (zc_h z')"
proof -
  have "fst r = 0 \<longrightarrow> hdr_safe (zc_h (snd r))" if "next_zip_file z = Some r" for r
  proof (rule next_zip_file.raw_induct [where P = "\<lambda>z r. fst r = 0 \<longrightarrow> hdr_safe (zc_h (snd r))", OF _ that], goal_cases)
    case (1 loop z r)
    then show ?case
      by (auto simp: Let_def hdr_safe_def split: option.splits prod.splits if_splits dest!: read_zip_file_header_safe)
  qed
  from this [OF assms] show ?thesis
    by simp
qed

interpretation zip_safe: safe_container "zip_ops init zrun h" for init zrun h
proof unfold_locales
  fix z z'
  assume "c_next (zip_ops init zrun h) z = Some (0, z')"
  then show "hdr_safe (c_hdr (zip_ops init zrun h) z')"
    by (auto simp: zip_ops_def dest: next_zip_file_safe)
qed

end
