(* ===== verification/Zip_Correct.thy ===== *)
theory Zip_Correct
  imports Zip
begin

text \<open>
  What \<^verbatim>\<open>container-zip.c\<close> computes: the numbers it decodes, where it finds the central directory
  and when it returns.
\<close>

subsection \<open>Little-endian numbers\<close>

fun le_nat :: "bytes \<Rightarrow> nat" where
  "le_nat [] = 0"
| "le_nat (c # cs) = of_char c + 256 * le_nat cs"

fun le_bytes :: "nat \<Rightarrow> nat \<Rightarrow> bytes" where
  "le_bytes 0 v = []"
| "le_bytes (Suc k) v = char_of (v mod 256) # le_bytes k (v div 256)"

lemma length_le_bytes [simp]: "length (le_bytes k v) = k"
  by (induction k v rule: le_bytes.induct) auto

lemma le_nat_le_bytes [simp]: "le_nat (le_bytes k v) = v mod 256 ^ k"
  by (induction k v rule: le_bytes.induct) (auto simp: mod_mult2_eq)

lemma le_bytes_4:
  "le_bytes 4 v = [char_of (v mod 256), char_of (v div 256 mod 256), char_of (v div 65536 mod 256), char_of (v div 16777216 mod 256)]"
proof -
  have four: "(4 :: nat) = Suc (Suc (Suc (Suc 0)))"
    by simp
  show ?thesis
    unfolding four by (simp add: div_mult2_eq [symmetric])
qed

lemma le_nat_mod: "le_nat (c # cs) mod 256 = of_char c"
  by simp

lemma le_nat_bound: "le_nat bs < 256 ^ length bs"
proof (induction bs)
  case (Cons c bs)
  have "(of_char c :: nat) < 256"
    by simp
  then have "of_char c + 256 * le_nat bs < 256 + 256 * le_nat bs"
    by (rule add_strict_right_mono)
  also have "\<dots> \<le> 256 * 256 ^ length bs"
    using Cons by simp
  finally show ?case
    by simp
qed simp

lemma bit_of_char_nat: "bit (of_char c :: nat) n \<Longrightarrow> n < 8"
proof (rule ccontr)
  assume b: "bit (of_char c :: nat) n" and n: "\<not> n < 8"
  have "(of_char c :: nat) < 2 ^ 8"
    by simp
  then have "take_bit 8 (of_char c :: nat) = of_char c"
    by (simp only: take_bit_nat_eq_self_iff)
  then have "bit (take_bit 8 (of_char c :: nat)) n"
    using b by simp
  with n show False
    by (simp add: bit_take_bit_iff)
qed

lemma byte_or:
  "(of_nat (of_char c) :: 'a::len word) OR push_bit 8 w = of_nat (of_char c) + 256 * w"
proof -
  have "of_nat (of_char c) AND push_bit 8 w = 0"
    by (rule bit_word_eqI) (auto simp: bit_simps dest: bit_of_char_nat)
  then have "of_nat (of_char c) OR push_bit 8 w = of_nat (of_char c) + push_bit 8 w"
    by (rule disjunctive_add_eq_or [symmetric])
  then show ?thesis
    by (simp add: push_bit_eq_mult mult.commute)
qed

lemma push_or: "push_bit 8 (a OR b) = push_bit 8 a OR push_bit 8 (b :: 'a::len word)"
  by (rule bit_word_eqI) (auto simp: bit_simps)

lemma little_16_le: "little_16 (a # b # rest) = of_nat (le_nat [a, b])"
  by (simp add: little_16_def byte_word_def byte_or)

lemma little_32_le: "little_32 (a # b # c # d # rest) = of_nat (le_nat [a, b, c, d])"
proof -
  let ?w = "\<lambda>x. of_nat (of_char x) :: uint32"
  have "little_32 (a # b # c # d # rest) = ?w a OR push_bit 8 (?w b OR push_bit 8 (?w c OR push_bit 8 (?w d)))"
    by (simp add: little_32_def byte_word_def push_or or.assoc numeral_3_eq_3)
  then show ?thesis
    by (simp add: byte_or)
qed

lemma little_64_le:
  "little_64 (a # b # c # d # e # f # g # h # rest) = of_nat (le_nat [a, b, c, d, e, f, g, h])"
proof -
  let ?w = "\<lambda>x. of_nat (of_char x) :: uint64"
  have "little_64 (a # b # c # d # e # f # g # h # rest) =
      ?w a OR push_bit 8 (?w b OR push_bit 8 (?w c OR push_bit 8 (?w d OR push_bit 8 (?w e OR push_bit 8
        (?w f OR push_bit 8 (?w g OR push_bit 8 (?w h)))))))"
    by (simp add: little_64_def byte_word_def push_or or.assoc nth_Cons_numeral)
  then show ?thesis
    by (simp add: byte_or)
qed

lemma list_split_numeral:
  "2 \<le> length p \<Longrightarrow> \<exists>a b r. p = a # b # r"
  "4 \<le> length p \<Longrightarrow> \<exists>a b c d r. p = a # b # c # d # r"
  "8 \<le> length p \<Longrightarrow> \<exists>a b c d e f g h r. p = a # b # c # d # e # f # g # h # r"
  by (auto simp: Suc_le_length_iff numeral_eq_Suc)

lemma little_decode:
  "2 \<le> length p \<Longrightarrow> little_16 p = of_nat (le_nat (take 2 p))"
  "4 \<le> length p \<Longrightarrow> little_32 p = of_nat (le_nat (take 4 p))"
  "8 \<le> length p \<Longrightarrow> little_64 p = of_nat (le_nat (take 8 p))"
  by (auto dest!: list_split_numeral simp: little_16_le little_32_le little_64_le)

lemma little_le_bytes [simp]:
  "little_16 (le_bytes 2 v) = of_nat v" "little_32 (le_bytes 4 v) = of_nat v" "little_64 (le_bytes 8 v) = of_nat v"
  by (simp_all add: little_decode word_of_nat_eq_iff take_bit_eq_mod)


subsection \<open>Where the central directory is found\<close>

text \<open>The record at \<open>p\<close> of the last \<open>off\<close> bytes is an end record that ends with the file.\<close>

definition eocd_at :: "bytes \<Rightarrow> int \<Rightarrow> nat \<Rightarrow> bool" where
  "eocd_at buf off p \<longleftrightarrow>
     (let c = zip_central_dir_end_of (slice p 22 buf)
      in little_32 (ze_sig c) = ZIP_CENTRAL_DIR_END_SIG \<and> int p + 22 + int (unat (little_16 (ze_comment_len c))) = off)"

definition eocd_result :: "FILE \<Rightarrow> bytes \<Rightarrow> nat \<Rightarrow> int \<times> FILE" where
  "eocd_result f buf p =
     (let dir_offset = little_32 (ze_dir_offset (zip_central_dir_end_of (slice p 22 buf)))
      in if dir_offset = 0xFFFFFFFF then find_central_dir_64 f (int p) else (uint dir_offset, f))"

lemma central_dir_loop_unfold:
  "central_dir_loop f buf off p =
     (if eocd_at buf off p then eocd_result f buf p
      else case p of 0 \<Rightarrow> (- 1, f) | Suc p' \<Rightarrow> central_dir_loop f buf off p')"
  by (subst central_dir_loop.simps) (simp add: eocd_at_def eocd_result_def Let_def)

lemma central_dir_loop_last:
  assumes "p \<le> p0" and "eocd_at buf off p" and "\<forall>q. p < q \<and> q \<le> p0 \<longrightarrow> \<not> eocd_at buf off q"
  shows "central_dir_loop f buf off p0 = eocd_result f buf p"
  using assms
proof (induction p0)
  case (Suc p0)
  show ?case
  proof (cases "p = Suc p0")
    case True
    with Suc.prems(2) show ?thesis
      by (subst central_dir_loop_unfold) simp
  next
    case False
    then have "p \<le> p0" "\<not> eocd_at buf off (Suc p0)"
      using Suc.prems by auto
    with Suc show ?thesis
      by (subst central_dir_loop_unfold) simp
  qed
qed (simp add: central_dir_loop_unfold)

lemma central_dir_loop_none:
  "\<forall>q \<le> p0. \<not> eocd_at buf off q \<Longrightarrow> central_dir_loop f buf off p0 = (- 1, f)"
proof (induction p0)
  case (Suc p0)
  then show ?case
    by (subst central_dir_loop_unfold) simp
qed (simp add: central_dir_loop_unfold)

text \<open>With a device that works, the buffer is the tail of the file.\<close>

lemma find_central_dir_tail:
  assumes "f_bad f = None" and "22 \<le> off" "off \<le> length (f_data f)"
  shows "\<exists>f'. f_bad f' = None \<and> f_data f' = f_data f
    \<and> find_central_dir f (int off) = central_dir_loop f' (drop (length (f_data f) - off) (f_data f)) (int off) (off - 22)"
proof -
  let ?f1 = "f\<lparr>f_pos := length (f_data f) - off, f_eof := False\<rparr>"
  have seek: "fseek_end (- int off) f = (True, ?f1)"
    using assms(3) by (simp add: fseek_end_def fseek_set_def nat_diff_distrib')
  let ?tail = "drop (length (f_data f) - off) (f_data f)"
  let ?f2 = "?f1\<lparr>f_pos := length (f_data f)\<rparr>"
  have "fread off ?f1 = (?tail, ?f2)"
    using assms by (simp add: fread_plain Let_def)
  then have "find_central_dir f (int off) = central_dir_loop ?f2 ?tail (int off) (off - 22)"
    using assms seek by (simp add: find_central_dir_def nat_diff_distrib')
  with assms(1) show ?thesis
    by (intro exI [of _ ?f2]) simp
qed

definition mk_eocd :: "bytes \<Rightarrow> nat \<Rightarrow> nat \<Rightarrow> bytes" where
  "mk_eocd mid diroff clen = le_bytes 4 0x06054b50 @ mid @ le_bytes 4 diroff @ le_bytes 2 clen"

lemma eocd_at_mk:
  assumes "length mid = 12" and "clen < 65536"
  shows "eocd_at (xs @ mk_eocd mid diroff clen @ ys) off (length xs) \<longleftrightarrow> int (length xs) + 22 + int clen = off"
    and "little_32 (ze_dir_offset (zip_central_dir_end_of (slice (length xs) 22 (xs @ mk_eocd mid diroff clen @ ys)))) = of_nat diroff"
proof -
  have s: "slice (length xs) 22 (xs @ mk_eocd mid diroff clen @ ys) = mk_eocd mid diroff clen"
    using assms(1) by (simp add: slice_def mk_eocd_def)
  have "uint (of_nat clen :: uint16) = int clen"
    using assms(2) by (simp add: unsigned_of_nat take_bit_nat_eq_self_iff)
  then show "eocd_at (xs @ mk_eocd mid diroff clen @ ys) off (length xs) \<longleftrightarrow> int (length xs) + 22 + int clen = off"
    using assms(1) unfolding eocd_at_def s
    by (simp add: Let_def zip_central_dir_end_of_def mk_eocd_def slice_def)
  show "little_32 (ze_dir_offset (zip_central_dir_end_of (slice (length xs) 22 (xs @ mk_eocd mid diroff clen @ ys)))) = of_nat diroff"
    using assms(1) unfolding s by (simp add: zip_central_dir_end_of_def mk_eocd_def slice_def)
qed

text \<open>
  An archive whose end record stands at the very end is opened at the directory the record names,
  with the first probe of the file.
\<close>

lemma find_central_dir_mk:
  assumes "f_bad f = None" "length mid = 12" "f_data f = body @ mk_eocd mid diroff 0"
  shows "\<exists>f'. f_bad f' = None \<and> f_data f' = f_data f \<and> find_central_dir f 22 = eocd_result f' (mk_eocd mid diroff 0) 0"
proof -
  have len: "length (mk_eocd mid diroff 0) = 22"
    using assms(2) by (simp add: mk_eocd_def)
  obtain f' where f': "f_bad f' = None" "f_data f' = f_data f"
    "find_central_dir f 22 = central_dir_loop f' (drop (length (f_data f) - 22) (f_data f)) 22 0"
    using find_central_dir_tail [OF assms(1), of 22] len assms(3) by auto
  have "drop (length (f_data f) - 22) (f_data f) = mk_eocd mid diroff 0"
    using len assms(3) by simp
  moreover have "eocd_at (mk_eocd mid diroff 0) 22 0"
    using eocd_at_mk(1) [OF assms(2), of 0 "[]" diroff "[]"] by simp
  ultimately show ?thesis
    using f' by (auto simp: central_dir_loop_unfold)
qed

lemma open_zip_loop_found:
  assumes "find_central_dir f 22 = (d, f')" "0 \<le> d" "22 \<le> uint n"
  shows "open_zip_loop f n 22 = Some (Some d, f')"
  using assms by (subst open_zip_loop.simps) (simp add: Let_def)

lemma ftell64_end:
  assumes "length (f_data f) < 2 ^ 63"
  shows "uint (ftell64 (snd (fseek_end 0 f))) = int (length (f_data f))"
  using assms by (simp add: ftell64_def fseek_end_def fseek_set_def unsigned_of_nat take_bit_nat_eq_self_iff)

lemma open_zip_mk:
  assumes "f_bad f = None" "length mid = 12" "f_data f = body @ mk_eocd mid diroff 0"
    and "length (f_data f) < 2 ^ 63" and "diroff < 0xFFFFFFFF"
  shows "\<exists>z. open_zip f = Some (Some z) \<and> zc_diroff z = of_nat diroff \<and> f_data (zc_f z) = f_data f \<and> f_bad (zc_f z) = None"
proof -
  let ?f1 = "snd (fseek_end 0 f)"
  have f1: "f_bad ?f1 = None" "f_data ?f1 = body @ mk_eocd mid diroff 0"
    using assms(1,3) by (simp_all add: fseek_end_def fseek_set_def)
  obtain f' where f': "f_bad f' = None" "f_data f' = f_data ?f1" "find_central_dir ?f1 22 = eocd_result f' (mk_eocd mid diroff 0) 0"
    using find_central_dir_mk [OF f1(1) assms(2) f1(2)] by blast
  have d: "uint (of_nat diroff :: uint32) = int diroff"
    using assms(5) by (simp add: unsigned_of_nat take_bit_nat_eq_self_iff)
  have "(of_nat diroff :: uint32) \<noteq> 0xFFFFFFFF"
  proof
    assume "(of_nat diroff :: uint32) = 0xFFFFFFFF"
    then have "int diroff = uint (0xFFFFFFFF :: uint32)"
      using d by simp
    with assms(5) show False
      by simp
  qed
  then have "find_central_dir ?f1 22 = (int diroff, f')"
    using f'(3) eocd_at_mk(2) [OF assms(2), of 0 "[]" diroff "[]"] d by (simp add: eocd_result_def)
  moreover have "22 \<le> uint (ftell64 ?f1)"
    unfolding ftell64_end [OF assms(4)] using assms(2,3) by (simp add: mk_eocd_def)
  ultimately have "open_zip_loop ?f1 (ftell64 ?f1) 22 = Some (Some (int diroff), f')"
    by (intro open_zip_loop_found) simp_all
  then show ?thesis
    using f' f1 assms(3) by (simp add: open_zip_def)
qed

text \<open>
  A zip64 archive announces its directory in a locator in front of the end record.  The locator is looked for
  \<open>p\<close> bytes before the end of the file, where \<open>p\<close> is the distance of the end record from the start of the
  buffer and not from the end of the file.  Without a comment \<open>p\<close> is 0: the end record itself is read and the
  archive is refused.  (With a comment of the right length the two distances are the same by chance.)
\<close>

lemma zip64_refused:
  assumes "f_bad f = None" "length mid = 12" "f_data f = body @ mk_eocd mid 0xFFFFFFFF 0"
    and "length (f_data f) < 2 ^ 63"
  shows "open_zip f = Some None"
proof -
  let ?e = "mk_eocd mid 0xFFFFFFFF 0"
  let ?f1 = "snd (fseek_end 0 f)"
  have f1: "f_bad ?f1 = None" "f_data ?f1 = body @ ?e"
    using assms(1,3) by (simp_all add: fseek_end_def fseek_set_def)
  obtain f' where f': "f_bad f' = None" "f_data f' = f_data ?f1" "find_central_dir ?f1 22 = eocd_result f' ?e 0"
    using find_central_dir_mk [OF f1(1) assms(2) f1(2)] by blast
  have e: "?e = CHR ''P'' # CHR ''K'' # CHR 5 # CHR 6 # mid @ le_bytes 4 0xFFFFFFFF @ le_bytes 2 0"
    by (simp add: mk_eocd_def le_bytes_4 char_of_eq_iff take_bit_eq_mod)
  have len: "length ?e = 22"
    using assms(2) by (simp add: mk_eocd_def)
  let ?f2 = "f'\<lparr>f_pos := length body + 2, f_eof := False\<rparr>"
  have seek: "fseek_end (- 20) f' = (True, ?f2)"
    using f'(2) f1(2) len by (simp add: fseek_end_def fseek_set_def nat_add_distrib)
  obtain f3 where rd: "fread 20 ?f2 = (drop 2 ?e, f3)"
    using f'(1,2) f1(2) len by (simp add: fread_plain Let_def)
  have sig: "little_32 (zl_sig (zip64_central_dir_locator_of (drop 2 ?e))) \<noteq> ZIP64_CENTRAL_DIR_LOCATOR_SIG"
  proof -
    obtain a b r where "mid = a # b # r"
      using list_split_numeral(1) [of mid] assms(2) by auto
    then have "zl_sig (zip64_central_dir_locator_of (drop 2 ?e)) = [CHR 5, CHR 6, a, b]"
      unfolding e by (simp add: zip64_central_dir_locator_of_def slice_def)
    then have w: "little_32 (zl_sig (zip64_central_dir_locator_of (drop 2 ?e))) = of_nat (le_nat [CHR 5, CHR 6, a, b])"
      by (simp only: little_32_le)
    have "unat (of_nat (le_nat [CHR 5, CHR 6, a, b]) :: uint32) = le_nat [CHR 5, CHR 6, a, b]"
      by (rule unat_of_nat_small) (use le_nat_bound [of "[CHR 5, CHR 6, a, b]"] in simp)
    then have "unat (of_nat (le_nat [CHR 5, CHR 6, a, b]) :: uint32) mod 256 = 5"
      by (simp only: le_nat_mod) simp
    then show ?thesis
      unfolding w by auto
  qed
  have "find_central_dir_64 f' 0 = (- 2, f3)"
    using seek rd sig by (simp add: find_central_dir_64_def Let_def)
  then have "find_central_dir ?f1 22 = (- 2, f3)"
    using f'(3) eocd_at_mk(2) [OF assms(2), of 0 "[]" "0xFFFFFFFF" "[]"] by (simp add: eocd_result_def)
  moreover have "22 \<le> uint (ftell64 ?f1)"
    unfolding ftell64_end [OF assms(4)] using len assms(3) by simp
  ultimately have "open_zip_loop ?f1 (ftell64 ?f1) 22 = Some (None, f3)"
    by (subst open_zip_loop.simps) (simp add: Let_def)
  then show ?thesis
    by (simp add: open_zip_def)
qed


subsection \<open>When opening an archive returns\<close>

lemma open_zip_loop_stop:
  assumes "min (uint n) off \<noteq> 22" "min (uint n) off \<noteq> 1024"
  shows "\<exists>r. open_zip_loop f n off = Some r"
  using assms by (subst open_zip_loop.simps) (auto simp: Let_def min_def not_le split: prod.splits if_splits)

lemma open_zip_loop_next:
  assumes "off \<le> uint n"
  shows "(\<exists>r. open_zip_loop f n off = Some r)
    \<or> (off = 22 \<and> (\<exists>f'. open_zip_loop f n off = open_zip_loop f' n 1024))
    \<or> (off = 1024 \<and> (\<exists>f'. open_zip_loop f n off = open_zip_loop f' n (65 * 1024)))"
proof -
  obtain d f' where d: "find_central_dir f off = (d, f')"
    by fastforce
  have "open_zip_loop f n off =
     (if d < - 1 then Some (None, f') else if 0 \<le> d then Some (Some d, f')
      else if off = 22 then open_zip_loop f' n 1024
      else if off = 1024 then open_zip_loop f' n (65 * 1024) else Some (None, f'))"
    using assms d by (subst open_zip_loop.simps) (simp add: Let_def)
  then show ?thesis
    by (auto split: if_splits)
qed

lemma open_zip_loop_returns:
  assumes "uint n \<noteq> 22" "uint n \<noteq> 1024"
  shows "\<exists>r. open_zip_loop f n 22 = Some r"
proof -
  have last: "\<exists>r. open_zip_loop f' n (65 * 1024) = Some r" if "1024 \<le> uint n" for f'
    by (rule open_zip_loop_stop) (use that assms in \<open>auto simp: min_def\<close>)
  have mid: "\<exists>r. open_zip_loop f' n 1024 = Some r" for f'
  proof (cases "1024 \<le> uint n")
    case True
    then show ?thesis
      using open_zip_loop_next [OF True, of f'] last by force
  next
    case False
    then show ?thesis
      by (intro open_zip_loop_stop) (use assms in auto)
  qed
  show ?thesis
  proof (cases "22 \<le> uint n")
    case True
    then show ?thesis
      using open_zip_loop_next [OF True, of f] mid by force
  next
    case False
    then show ?thesis
      by (intro open_zip_loop_stop) auto
  qed
qed

text \<open>
  The probe sizes 22 and 1024 are also the labels of the switch that chooses the next size.  When
  the whole file has one of these sizes and holds no end record, the next size is cut back to the
  size of the file and the search never ends.
\<close>

lemma eocd_at_tail:
  assumes "k \<le> length d" and "22 + q \<le> k"
  shows "eocd_at (drop (length d - k) d) (int k) q \<longleftrightarrow> eocd_at d (int (length d)) (q + (length d - k))"
proof -
  have "slice q 22 (drop (length d - k) d) = slice (q + (length d - k)) 22 d"
    by (simp add: slice_def add.commute)
  then show ?thesis
    using assms by (auto simp: eocd_at_def Let_def)
qed

lemma find_central_dir_none:
  assumes "f_bad f = None" "22 \<le> off" "off \<le> length (f_data f)"
    and "\<forall>q. 22 + q \<le> length (f_data f) \<longrightarrow> \<not> eocd_at (f_data f) (int (length (f_data f))) q"
  shows "\<exists>f'. f_bad f' = None \<and> f_data f' = f_data f \<and> find_central_dir f (int off) = (- 1, f')"
proof -
  have "\<forall>q \<le> off - 22. \<not> eocd_at (drop (length (f_data f) - off) (f_data f)) (int off) q"
  proof (intro allI impI)
    fix q
    assume "q \<le> off - 22"
    then have q: "22 + q \<le> off" "22 + (q + (length (f_data f) - off)) \<le> length (f_data f)"
      using assms(2,3) by auto
    then show "\<not> eocd_at (drop (length (f_data f) - off) (f_data f)) (int off) q"
      using eocd_at_tail [OF assms(3) q(1)] assms(4) by blast
  qed
  then show ?thesis
    using find_central_dir_tail [OF assms(1-3)] central_dir_loop_none by metis
qed

lemma open_zip_loop_hangs:
  assumes "f_bad f = None" "f_data f = d" "length d \<in> {22, 1024}" "uint n = int (length d)"
    and "\<forall>q. 22 + q \<le> length d \<longrightarrow> \<not> eocd_at d (int (length d)) q"
  shows "open_zip_loop f n 22 = None"
proof (rule ccontr)
  assume "open_zip_loop f n 22 \<noteq> None"
  then obtain r where r: "open_zip_loop f n 22 = Some r"
    by blast
  have "f_bad f = None \<and> f_data f = d \<and> n = n' \<and> off \<in> {22, 1024, 65 * 1024} \<longrightarrow> False"
    if "open_zip_loop f n' off = Some r" for f n' off
  proof (rule open_zip_loop.raw_induct
      [where P = "\<lambda>f n' off r. f_bad f = None \<and> f_data f = d \<and> n = n' \<and> off \<in> {22, 1024, 65 * 1024} \<longrightarrow> False", OF _ that],
      goal_cases)
    case (1 loop f n' off r)
    show ?case
    proof
      assume a: "f_bad f = None \<and> f_data f = d \<and> n = n' \<and> off \<in> {22, 1024, 65 * 1024}"
      obtain K where K: "K = (if uint n' < off then uint n' else off)" "K \<in> {22, 1024}" "K \<le> int (length d)"
        using a assms(3,4) by auto
      obtain f' where f': "f_bad f' = None" "f_data f' = d" "find_central_dir f K = (- 1, f')"
        using find_central_dir_none [of f "nat K"] a K(2,3) assms(5) by auto
      have "loop f' n 1024 = Some r \<or> loop f' n (65 * 1024) = Some r"
        using "1"(2) a f'(3) K(2) unfolding K(1) [symmetric] by (auto simp: Let_def)
      then show False
        using "1"(1) f'(1,2) by blast
    qed
  qed
  from this [OF r] assms(1,2) show False
    by blast
qed


subsection \<open>Walking the directory ends\<close>

lemma fseek_cur_pos: "0 \<le> k \<Longrightarrow> fseek_cur k f = (True, f\<lparr>f_pos := f_pos f + nat k, f_eof := False\<rparr>)"
  by (simp add: fseek_cur_def fseek_set_def nat_add_distrib)

lemma zip64_number_pos:
  assumes "zip64_number f v sz = (Some (v', sz'), f')"
  shows "f_pos f' + unat sz' = f_pos f + unat sz \<and> f_data f' = f_data f"
proof (cases "v = 0xFFFFFFFF \<and> 8 \<le> sz")
  case True
  then obtain buf where r: "fread 8 f = (buf, f')" "length buf = 8" "sz' = sz - 8"
    using assms by (auto simp: zip64_number_def split: prod.splits if_splits)
  have "unat (sz - 8) = unat sz - 8"
    using True by (subst unat_sub_small) (simp_all add: word_le_nat_alt)
  then show ?thesis
    using r fread_length [OF r(1)] True by (simp add: word_le_nat_alt)
qed (use assms in \<open>auto simp: zip64_number_def\<close>)

lemma zip64_extra_pos:
  assumes "zip64_extra z sz = (Some sz', z')"
  shows "f_pos (zc_f z') + unat sz' = f_pos (zc_f z) + unat sz \<and> f_data (zc_f z') = f_data (zc_f z)"
  using assms by (auto simp: zip64_extra_def split: prod.splits option.splits dest!: zip64_number_pos)

definition moved :: "nat \<Rightarrow> FILE \<Rightarrow> FILE \<Rightarrow> bool" where
  "moved k f f' \<longleftrightarrow> f_data f' = f_data f \<and> f_pos f' = f_pos f + k"

lemma zip_extra_loop_pos:
  assumes "zip_extra_loop z n = (Some m, z')"
  shows "\<exists>k. moved k (zc_f z) (zc_f z') \<and> k + m \<le> n + 4"
  using assms
proof (induction n arbitrary: z rule: less_induct)
  case (less n)
  show ?case
  proof (cases "n < 4")
    case True
    then show ?thesis
      using less.prems by (subst (asm) zip_extra_loop.simps) (auto simp: moved_def)
  next
    case n: False
    obtain extra f1 where rd: "fread 4 (zc_f z) = (extra, f1)"
      by fastforce
    let ?z1 = "z\<lparr>zc_f := f1\<rparr>" and ?sz = "little_16 (zx_size (zip_file_extra_of extra))"
    have full: "length extra = 4"
      using less.prems n rd by (subst (asm) zip_extra_loop.simps) (auto simp: Let_def split: if_splits)
    note pos1 = fread_length [OF rd, unfolded full]
    show ?thesis
    proof (cases "n < 4 + unat ?sz")
      case True
      then have "m = n" "z' = ?z1"
        using less.prems n rd full by (subst (asm) zip_extra_loop.simps, simp add: Let_def)+
      then show ?thesis
        using pos1 by (intro exI [of _ 4]) (simp add: moved_def)
    next
      case sz: False
      obtain sz1 z2 where x: "(if little_16 (zx_tag (zip_file_extra_of extra)) = ZIP64_FILE_EXTRA
          then zip64_extra ?z1 ?sz else (Some ?sz, ?z1)) = (Some sz1, z2)"
        using less.prems n rd full sz
        by (subst (asm) zip_extra_loop.simps) (auto simp: Let_def split: prod.splits option.splits)
      have pos2: "f_pos (zc_f z2) + unat sz1 = f_pos f1 + unat ?sz" "f_data (zc_f z2) = f_data f1"
        using x zip64_extra_pos [of ?z1 ?sz sz1 z2] by (auto split: if_splits)
      let ?f3 = "(zc_f z2)\<lparr>f_pos := f_pos (zc_f z2) + unat sz1, f_eof := False\<rparr>"
      have "zip_extra_loop (z2\<lparr>zc_f := ?f3\<rparr>) (n - (4 + unat ?sz)) = (Some m, z')"
        using less.prems n rd full sz x
        by (subst (asm) zip_extra_loop.simps) (simp add: Let_def fseek_cur_pos)
      from less.IH [OF _ this] n obtain k where "moved k ?f3 (zc_f z')" "k + m \<le> n - (4 + unat ?sz) + 4"
        by auto
      then show ?thesis
        using pos1 pos2 sz by (intro exI [of _ "4 + unat ?sz + k"]) (simp add: moved_def)
    qed
  qed
qed

lemma fread_inside:
  assumes "fread n f = (got, f')" "length got = n" "0 < n"
  shows "f_pos f + n \<le> length (f_data f)"
proof -
  have "got = take n (drop (f_pos f) (take (f_limit f) (f_data f)))"
    using assms(1) by (simp add: fread_def Let_def)
  then show ?thesis
    using assms(2,3) by auto
qed

lemma unat_uint16_bound: "unat (w :: uint16) < 65536"
proof -
  have "unat w < 2 ^ LENGTH(16)"
    by (rule unsigned_less)
  then show ?thesis
    by simp
qed

lemma read_zip_file_header_pos:
  assumes "read_zip_file_header z = (0, z')"
  shows "\<exists>k. moved k (zc_f z) (zc_f z') \<and> 46 \<le> k \<and> k < 46 + 65536 + 65536 + 4"
    and "f_pos (zc_f z) + 46 \<le> length (f_data (zc_f z))"
proof -
  obtain b f1 where rd: "fread 46 (zc_f z) = (b, f1)"
    by fastforce
  let ?fh = "zip_file_header_of b"
  let ?nl = "unat (little_16 (zh_name_len ?fh))" and ?el = "unat (little_16 (zh_extra_len ?fh))"
  obtain name f2 where rd2: "fread ?nl f1 = (name, f2)"
    by fastforce
  have full: "length b = 46" "length name = ?nl"
    using assms rd rd2 by (auto simp: read_zip_file_header_def Let_def split: if_splits)
  note pos = fread_length [OF rd, unfolded full] fread_length [OF rd2, unfolded full]
  have x: "\<exists>z3 m z4. zip_extra_loop z3 ?el = (Some m, z4) \<and> zc_f z3 = f2
      \<and> zc_f z' = (zc_f z4)\<lparr>f_pos := f_pos (zc_f z4) + m, f_eof := False\<rparr>"
    using assms rd rd2 full
    by (auto simp: read_zip_file_header_def Let_def fseek_cur_pos split: if_splits option.splits prod.splits)
      (intro exI conjI, assumption, simp_all)
  then obtain z3 m z4 where z4: "zip_extra_loop z3 ?el = (Some m, z4)" "zc_f z3 = f2"
    and z': "zc_f z' = (zc_f z4)\<lparr>f_pos := f_pos (zc_f z4) + m, f_eof := False\<rparr>"
    by blast
  then obtain k where k: "moved k f2 (zc_f z4)" "k + m \<le> ?el + 4"
    using zip_extra_loop_pos [OF z4(1)] by auto
  show "\<exists>k. moved k (zc_f z) (zc_f z') \<and> 46 \<le> k \<and> k < 46 + 65536 + 65536 + 4"
    using k pos z' unat_uint16_bound [of "little_16 (zh_name_len ?fh)"] unat_uint16_bound [of "little_16 (zh_extra_len ?fh)"]
    by (intro exI [of _ "46 + ?nl + k + m"]) (simp add: moved_def)
  show "f_pos (zc_f z) + 46 \<le> length (f_data (zc_f z))"
    by (rule fread_inside [OF rd full(1)]) simp
qed

lemma next_zip_file_terminates:
  assumes "length (f_data (zc_f z)) < 2 ^ 62"
  shows "\<exists>r. next_zip_file z = Some r"
  using assms
proof (induction "length (f_data (zc_f z)) - unat (zc_diroff z)" arbitrary: z rule: less_induct)
  case less
  obtain ok f1 where seek: "fseek64 (zc_diroff z) (zc_f z) = (ok, f1)"
    by fastforce
  obtain err z2 where h: "read_zip_file_header (z\<lparr>zc_f := f1\<rparr>) = (err, z2)"
    by fastforce
  let ?z3 = "z2\<lparr>zc_diroff := ftell64 (zc_f z2)\<rparr>"
  show ?case
  proof (cases "ok \<and> err = 0")
    case True
    have "f_pos f1 = nat (sint (zc_diroff z))" "f_data f1 = f_data (zc_f z)" "0 \<le> sint (zc_diroff z)"
      using seek True by (auto simp: fseek64_def fseek_set_def split: if_splits)
    then have f1: "f_pos f1 = unat (zc_diroff z)" "f_data f1 = f_data (zc_f z)"
      using sint_nonneg_uint [of "zc_diroff z"] by (simp_all add: unat_eq_nat_uint)
    obtain k where k: "moved k f1 (zc_f z2)" "46 \<le> k" "k < 46 + 65536 + 65536 + 4"
      using read_zip_file_header_pos(1) [of "z\<lparr>zc_f := f1\<rparr>" z2] h True by auto
    have inside: "f_pos f1 + 46 \<le> length (f_data f1)"
      using read_zip_file_header_pos(2) [of "z\<lparr>zc_f := f1\<rparr>" z2] h True by simp
    have "f_pos (zc_f z2) < 2 ^ LENGTH(64)"
      using k inside f1(2) less.prems by (simp add: moved_def)
    then have "unat (zc_diroff ?z3) = f_pos (zc_f z2)"
      by (simp add: ftell64_def unat_of_nat_small)
    then have "length (f_data (zc_f ?z3)) - unat (zc_diroff ?z3) < length (f_data (zc_f z)) - unat (zc_diroff z)"
      using k inside f1 by (simp add: moved_def)
    moreover have "length (f_data (zc_f ?z3)) < 2 ^ 62"
      using k f1 less.prems by (simp add: moved_def)
    ultimately obtain r where "next_zip_file ?z3 = Some r"
      using less.hyps by blast
    then show ?thesis
      using seek h True by (subst next_zip_file.simps) (auto simp: Let_def split: option.splits)
  qed (subst next_zip_file.simps, use seek h in \<open>auto simp: Let_def\<close>)
qed

end
