(* ===== verification/Inflate.thy ===== *)
theory Inflate
  imports Decoders
begin

text \<open>
  What the inflating filter of \<^verbatim>\<open>filter-deflate.c\<close> keeps, over a decoder that behaves as zlib documents.
  The counters of \<^verbatim>\<open>z_stream\<close> have 32 bits; the invariant bounds the sizes so that none of the casts
  between them and \<^verbatim>\<open>size_t\<close> loses a bit.
\<close>

subsection \<open>What zlib promises\<close>

definition max_zlib :: nat where
  "max_zlib = 2 ^ 31"

text \<open>
  One call of \<^verbatim>\<open>inflate\<close> with input to show and room for output, on a valid stream: it takes a part of the
  input, its output is the next part of the decoded data, it reports the end with the last part
  (\<^verbatim>\<open>Z_STREAM_END\<close>), and a call that does neither is not repeated for ever (\<open>gas\<close>; zlib answers
  \<^verbatim>\<open>Z_BUF_ERROR\<close> when no progress is possible).
\<close>

definition zlib_law :: "'z zlib_run \<Rightarrow> ('z \<Rightarrow> bytes \<Rightarrow> bool) \<Rightarrow> ('z \<Rightarrow> bytes \<Rightarrow> bytes) \<Rightarrow> ('z \<Rightarrow> nat) \<Rightarrow> bool" where
  "zlib_law zrun valid dec gas \<longleftrightarrow>
     (\<forall>z. \<not> valid z [])
     \<and> (\<forall>z inp more room z' k out res.
          valid z (inp @ more) \<longrightarrow> inp \<noteq> [] \<longrightarrow> 0 < room \<longrightarrow> zrun True 0 z inp room = (z', k, out, res) \<longrightarrow>
            k \<le> length inp \<and> length out \<le> room
            \<and> (if res = Z_STREAM_END then dec z (inp @ more) = out
               else res = 0 \<and> valid z' (drop k inp @ more) \<and> dec z (inp @ more) = out @ dec z' (drop k inp @ more)
                 \<and> (k = 0 \<longrightarrow> out = [] \<longrightarrow> gas z' < gas z)))"

definition zlib_input :: "('s \<Rightarrow> bytes) \<Rightarrow> ('z, 's) zlib_stream \<Rightarrow> bytes" where
  "zlib_input P ds = drop (unat (zs_read_in ds) - unat (zs_avail_in ds)) (P (zs_source ds))"

definition zlib_pending :: "('z \<Rightarrow> bytes \<Rightarrow> bytes) \<Rightarrow> ('s \<Rightarrow> bytes) \<Rightarrow> ('z, 's) zlib_stream \<Rightarrow> bytes" where
  "zlib_pending dec P ds =
     buf_view (zs_consumed ds) (zs_avail ds) (zs_buf ds)
     @ (if zs_finished ds then [] else dec (zs_z ds) (zlib_input P ds))"

definition zlib_inv ::
  "('z \<Rightarrow> bytes \<Rightarrow> bool) \<Rightarrow> ('z \<Rightarrow> bytes \<Rightarrow> bytes) \<Rightarrow> ('s \<Rightarrow> bool) \<Rightarrow> ('s \<Rightarrow> bytes) \<Rightarrow> ('s \<Rightarrow> nat)
    \<Rightarrow> ('z, 's) zlib_stream \<Rightarrow> bool" where
  "zlib_inv valid dec I P V ds \<longleftrightarrow>
     buf_ok (zs_consumed ds) (zs_avail ds) (zs_bufsz ds) (zs_buf ds)
     \<and> I (zs_source ds) \<and> zs_flush ds = 0 \<and> zs_do_inflate ds
     \<and> unat (zs_avail_in ds) \<le> unat (zs_read_in ds) \<and> unat (zs_read_in ds) \<le> V (zs_source ds)
     \<and> (zs_avail_in ds = 0 \<or> (\<exists>b. zs_next_in ds = Some b \<and>
          take (unat (zs_avail_in ds)) b = take (unat (zs_avail_in ds)) (zlib_input P ds)))
     \<and> (zs_finished ds \<or> valid (zs_z ds) (zlib_input P ds))
     \<and> length (zlib_pending dec P ds) \<le> max_zlib \<and> length (P (zs_source ds)) \<le> max_zlib
     \<and> unat (zs_bufsz ds) \<le> max_zlib + 32 * 1024"

definition zlib_view :: "('z, 's) zlib_stream \<Rightarrow> nat" where
  "zlib_view ds = unat (zs_avail ds) - unat (zs_consumed ds)"

lemma zlib_buffered:
  assumes "zlib_inv valid dec I P V ds"
  shows "take (zlib_view ds) (drop (unat (zs_consumed ds)) (zs_buf ds)) = take (zlib_view ds) (zlib_pending dec P ds)"
    and "zlib_view ds \<le> length (zlib_pending dec P ds)"
    and "zs_finished ds \<Longrightarrow> zlib_view ds = length (zlib_pending dec P ds)"
proof -
  have ok: "buf_ok (zs_consumed ds) (zs_avail ds) (zs_bufsz ds) (zs_buf ds)"
    using assms by (simp add: zlib_inv_def)
  note facts = length_buf_view [OF ok] buf_view_take [OF ok]
  then show "take (zlib_view ds) (drop (unat (zs_consumed ds)) (zs_buf ds)) = take (zlib_view ds) (zlib_pending dec P ds)"
    "zlib_view ds \<le> length (zlib_pending dec P ds)"
    "zs_finished ds \<Longrightarrow> zlib_view ds = length (zlib_pending dec P ds)"
    by (simp_all add: zlib_view_def zlib_pending_def)
qed

lemma zlib_grow_refused: "zlib_grow h ds = None \<Longrightarrow> \<exists>n. \<not> grant h n"
  by (auto simp: zlib_grow_def realloc_def Let_def split: if_splits)

text \<open>Growing keeps everything but the size of the buffer, and leaves room in it.\<close>

definition grown :: "('z, 's) zlib_stream \<Rightarrow> ('z, 's) zlib_stream \<Rightarrow> bool" where
  "grown ds ds1 \<longleftrightarrow> zs_consumed ds1 = 0 \<and> zs_avail ds1 = zs_avail ds \<and> zs_avail ds1 \<noteq> zs_bufsz ds1
     \<and> zs_z ds1 = zs_z ds \<and> zs_finished ds1 = zs_finished ds \<and> zs_source ds1 = zs_source ds
     \<and> zs_next_in ds1 = zs_next_in ds \<and> zs_avail_in ds1 = zs_avail_in ds \<and> zs_read_in ds1 = zs_read_in ds
     \<and> zs_flush ds1 = zs_flush ds \<and> zs_do_inflate ds1 = zs_do_inflate ds"

lemma zlib_grow_inv:
  assumes "zlib_inv valid dec I P V ds" and "zs_consumed ds = 0" and "zlib_grow h ds = Some ds1"
  shows "zlib_inv valid dec I P V ds1" and "zlib_pending dec P ds1 = zlib_pending dec P ds" and "grown ds ds1"
proof -
  have "zlib_inv valid dec I P V ds1 \<and> zlib_pending dec P ds1 = zlib_pending dec P ds \<and> grown ds ds1"
  proof (cases "zs_avail ds = zs_bufsz ds")
    case True
    with assms(3) obtain buf where buf: "realloc h (zs_buf ds) (zs_bufsz ds + 32768) = Some buf"
      and ds1: "ds1 = ds\<lparr>zs_bufsz := zs_bufsz ds + 32768, zs_buf := buf\<rparr>"
      by (auto simp: zlib_grow_def Let_def split: option.splits)
    have ok: "buf_ok 0 (zs_avail ds) (zs_bufsz ds) (zs_buf ds)"
      using assms(1,2) by (simp add: zlib_inv_def)
    have le: "unat (zs_bufsz ds) \<le> max_zlib"
      using assms(1,2) True length_buf_view [OF ok] by (simp add: zlib_inv_def zlib_pending_def)
    have sum: "unat (zs_bufsz ds) + unat (32768 :: size_t) < 2 ^ 64"
      using le by (simp add: max_zlib_def)
    then have "unat (zs_bufsz ds + 32768) = unat (zs_bufsz ds) + 32768"
      by (subst unat_add_small) simp_all
    moreover have "zlib_pending dec P ds1 = zlib_pending dec P ds"
      using buf_grow(2) [OF ok buf sum] assms(2) ds1 by (simp add: zlib_pending_def zlib_input_def)
    ultimately show ?thesis
      using buf_grow(1) [OF ok buf sum] le assms(1,2) ds1 True by (auto simp: zlib_inv_def zlib_input_def grown_def)
  qed (use assms in \<open>simp add: zlib_grow_def grown_def\<close>)
  then show "zlib_inv valid dec I P V ds1" "zlib_pending dec P ds1 = zlib_pending dec P ds" "grown ds ds1"
    by simp_all
qed

lemma zlib_shown_input:
  assumes "zlib_inv valid dec I P V ds" and "zs_avail_in ds \<noteq> 0"
    and "V (zs_source ds) \<le> length (P (zs_source ds))"
  shows "zlib_input P ds = zlib_shown ds @ drop (unat (zs_read_in ds)) (P (zs_source ds))"
    and "zlib_shown ds \<noteq> []" and "length (zlib_shown ds) \<le> unat (zs_avail_in ds)"
proof -
  let ?a = "unat (zs_avail_in ds)" and ?r = "unat (zs_read_in ds)" and ?src = "P (zs_source ds)"
  obtain b where b: "zs_next_in ds = Some b" "take ?a b = take ?a (zlib_input P ds)"
    using assms(1,2) by (auto simp: zlib_inv_def)
  have shown: "zlib_shown ds = take ?a (zlib_input P ds)"
    using b by (simp add: zlib_shown_def)
  have le: "?a \<le> ?r" "?r \<le> length ?src" "0 < ?a"
    using assms by (auto simp: zlib_inv_def unat_gt_0)
  show "length (zlib_shown ds) \<le> ?a"
    by (simp add: shown)
  have "drop ?a (zlib_input P ds) = drop ?r ?src"
    using le(1) by (simp add: zlib_input_def)
  then show "zlib_input P ds = zlib_shown ds @ drop ?r ?src"
    unfolding shown by (metis append_take_drop_id)
  show "zlib_shown ds \<noteq> []"
    using le by (auto simp: shown zlib_input_def)
qed

text \<open>The casts of the output counters lose nothing.\<close>

lemma zlib_produced:
  fixes room :: size_t and n :: nat
  assumes "unat room < 2 ^ 32" and "n \<le> unat (ucast room :: uint32)"
  shows "room - ucast ((ucast room :: uint32) - of_nat n) = of_nat n"
proof -
  have r: "unat (ucast room :: uint32) = unat room"
    using assms(1) by (simp add: unsigned_ucast_eq take_bit_nat_eq_self)
  have n: "unat (of_nat n :: uint32) = n"
    using assms(2) r assms(1) by (intro unat_of_nat_small) simp
  have "unat ((ucast room :: uint32) - of_nat n) = unat room - n"
    using assms(2) r n by (simp add: unat_sub_small)
  then have c: "unat (ucast ((ucast room :: uint32) - of_nat n) :: size_t) = unat room - n"
    using assms(1) by (simp add: unsigned_ucast_eq take_bit_nat_eq_self)
  have "n < 2 ^ LENGTH(64)"
    using assms r by simp
  then have "unat (room - ucast ((ucast room :: uint32) - of_nat n)) = unat (of_nat n :: size_t)"
    using c assms(2) r by (simp only: unat_sub_small unat_of_nat_small)
  then show ?thesis
    by (rule unsigned_word_eqI)
qed


subsection \<open>One step\<close>

text \<open>What one call of the decoder makes of the stream, with the counters as natural numbers.\<close>

definition zlib_after :: "('z, 's) zlib_stream \<Rightarrow> 'z \<Rightarrow> nat \<Rightarrow> bytes \<Rightarrow> ('z, 's) zlib_stream" where
  "zlib_after ds z k out =
     ds\<lparr>zs_z := z, zs_next_in := map_option (drop k) (zs_next_in ds), zs_avail_in := zs_avail_in ds - of_nat k,
        zs_buf := buf_write (zs_buf ds) (unat (zs_avail ds)) out, zs_avail := zs_avail ds + of_nat (length out)\<rparr>"

definition zlib_room :: "('z, 's) zlib_stream \<Rightarrow> nat" where
  "zlib_room ds = unat (ucast (zs_bufsz ds - zs_avail ds) :: uint32)"

lemma zlib_room_eq:
  assumes "zlib_inv valid dec I P V ds" and "zs_consumed ds = 0" and "zs_avail ds \<noteq> zs_bufsz ds"
  shows "zlib_room ds = unat (zs_bufsz ds - zs_avail ds)" and "0 < zlib_room ds"
    and "unat (zs_bufsz ds - zs_avail ds) < 2 ^ 32"
proof -
  have "unat (zs_bufsz ds - zs_avail ds) \<le> unat (zs_bufsz ds)"
    using assms(1) by (simp add: zlib_inv_def buf_ok_def unat_sub_small)
  also have "\<dots> < 2 ^ 32"
    using assms(1) by (simp add: zlib_inv_def max_zlib_def)
  finally show small: "unat (zs_bufsz ds - zs_avail ds) < 2 ^ 32" .
  then show "zlib_room ds = unat (zs_bufsz ds - zs_avail ds)"
    by (simp add: zlib_room_def unsigned_ucast_eq take_bit_nat_eq_self)
  then show "0 < zlib_room ds"
    using assms(3) by (simp add: unat_gt_0)
qed

lemma zlib_process_eq:
  assumes "zlib_inv valid dec I P V ds1" "zs_consumed ds1 = 0" "grown ds ds1" "zs_avail_in ds \<noteq> 0"
    and "zlib_grow h ds = Some ds1" "zrun True 0 (zs_z ds1) (zlib_shown ds1) (zlib_room ds1) = (z, k, out, res)"
    and "length out \<le> zlib_room ds1"
  shows "zlib_process zrun h ds =
    (if res = Z_STREAM_END then Zlib_End ((zlib_after ds1 z k out)\<lparr>zs_finished := True\<rparr>)
     else if res \<noteq> 0 then Zlib_Err (zlib_after ds1 z k out)
     else if out \<noteq> [] then Zlib_Continue (zlib_after ds1 z k out)
     else Zlib_More (zlib_after ds1 z k out))"
proof -
  have ne: "zs_avail ds1 \<noteq> zs_bufsz ds1"
    using assms(3) unfolding grown_def by blast
  note room = zlib_room_eq [OF assms(1,2) ne]
  have pr: "zs_bufsz ds1 - zs_avail ds1 - ucast ((ucast (zs_bufsz ds1 - zs_avail ds1) :: uint32) - of_nat (length out)) = of_nat (length out)"
    by (rule zlib_produced [OF room(3)]) (use assms(7) in \<open>simp add: zlib_room_def\<close>)
  have flags: "zs_do_inflate ds1" "zs_flush ds1 = 0"
    using assms(1) by (simp_all add: zlib_inv_def)
  have "length out < 2 ^ LENGTH(64)"
    using assms(7) room by simp
  then have "unat (of_nat (length out) :: size_t) = length out"
    by (rule unat_of_nat_small)
  then have zero: "(of_nat (length out) :: size_t) = 0 \<longleftrightarrow> out = []"
    by (metis length_0_conv unat_eq_0_iff)
  note unfolds = zlib_process_def Let_def zlib_after_def zlib_room_def
  show ?thesis
  proof (cases "out = []")
    case True
    then have "ucast (ucast (zs_bufsz ds1 - zs_avail ds1) :: uint32) = zs_bufsz ds1 - zs_avail ds1"
      using pr by simp
    then show ?thesis
      using True assms(4,5,6) flags by (cases ds1) (simp add: unfolds)
  next
    case False
    then show ?thesis
      using assms(4,5,6) flags by (simp add: pr zero unfolds)
  qed
qed

definition zlib_more :: "('s \<Rightarrow> bytes) \<Rightarrow> ('z, 's) zlib_stream \<Rightarrow> bytes" where
  "zlib_more P ds = drop (unat (zs_read_in ds)) (P (zs_source ds))"

lemma zlib_run_law:
  assumes law: "zlib_law zrun valid dec gas" and inv: "zlib_inv valid dec I P V ds"
    and c: "zs_consumed ds = 0" and nf: "\<not> zs_finished ds" and ne: "zs_avail ds \<noteq> zs_bufsz ds"
    and src: "V (zs_source ds) \<le> length (P (zs_source ds))" and a: "zs_avail_in ds \<noteq> 0"
    and r: "zrun True 0 (zs_z ds) (zlib_shown ds) (zlib_room ds) = (z, k, out, res)"
  shows "k \<le> length (zlib_shown ds) \<and> length out \<le> zlib_room ds
      \<and> (if res = Z_STREAM_END then dec (zs_z ds) (zlib_input P ds) = out
         else res = 0 \<and> valid z (drop k (zlib_shown ds) @ zlib_more P ds)
           \<and> dec (zs_z ds) (zlib_input P ds) = out @ dec z (drop k (zlib_shown ds) @ zlib_more P ds)
           \<and> (k = 0 \<longrightarrow> out = [] \<longrightarrow> gas z < gas (zs_z ds)))"
proof -
  note shown = zlib_shown_input [OF inv a src, folded zlib_more_def]
  have "valid (zs_z ds) (zlib_shown ds @ zlib_more P ds)"
    using inv nf shown(1) by (simp add: zlib_inv_def)
  then show ?thesis
    using law shown(2) zlib_room_eq(2) [OF inv c ne] r unfolding zlib_law_def shown(1) by blast
qed

lemma zlib_after_input:
  fixes z :: 'z and out :: bytes
  assumes inv: "zlib_inv valid dec I P V ds" and a: "zs_avail_in ds \<noteq> 0"
    and src: "V (zs_source ds) \<le> length (P (zs_source ds))" and k: "k \<le> length (zlib_shown ds)"
  defines "ds2 \<equiv> zlib_after ds z k out"
  shows "unat (zs_avail_in ds2) = unat (zs_avail_in ds) - k"
    and "zlib_input P ds2 = drop k (zlib_shown ds) @ zlib_more P ds"
    and "length (zlib_input P ds2) + k = length (zlib_input P ds)"
    and "\<exists>b. zs_next_in ds2 = Some b \<and> take (unat (zs_avail_in ds2)) b = take (unat (zs_avail_in ds2)) (zlib_input P ds2)"
proof -
  note shown = zlib_shown_input [OF inv a src, folded zlib_more_def]
  have k': "k \<le> unat (zs_avail_in ds)"
    using k shown(3) by linarith
  then have "k < 2 ^ LENGTH(32)"
    by (rule le_less_trans) (rule unsigned_less)
  then have "unat (of_nat k :: uint32) = k"
    by (rule unat_of_nat_small)
  then show av: "unat (zs_avail_in ds2) = unat (zs_avail_in ds) - k"
    using k' by (simp add: ds2_def zlib_after_def unat_sub_small)
  have "unat (zs_avail_in ds) \<le> unat (zs_read_in ds)"
    using inv by (simp add: zlib_inv_def)
  then have inp: "zlib_input P ds2 = drop k (zlib_input P ds)"
    unfolding zlib_input_def av using k' by (simp add: ds2_def zlib_after_def add.commute)
  then show "zlib_input P ds2 = drop k (zlib_shown ds) @ zlib_more P ds"
    "length (zlib_input P ds2) + k = length (zlib_input P ds)"
    using shown(1) k by simp_all
  obtain b where b: "zs_next_in ds = Some b"
    "take (unat (zs_avail_in ds)) b = take (unat (zs_avail_in ds)) (zlib_input P ds)"
    using inv a by (auto simp: zlib_inv_def)
  have "take (unat (zs_avail_in ds2)) (drop k b) = drop k (take (unat (zs_avail_in ds)) b)"
    using k' by (simp add: av drop_take)
  also have "\<dots> = take (unat (zs_avail_in ds2)) (zlib_input P ds2)"
    using k' by (simp add: b(2) av drop_take inp)
  finally show "\<exists>b. zs_next_in ds2 = Some b \<and> take (unat (zs_avail_in ds2)) b = take (unat (zs_avail_in ds2)) (zlib_input P ds2)"
    using b(1) by (simp add: ds2_def zlib_after_def)
qed

lemma zlib_after_output:
  assumes "zlib_inv valid dec I P V ds" and "zs_consumed ds = 0" and "zs_avail ds \<noteq> zs_bufsz ds"
    and "length out \<le> zlib_room ds"
  shows "buf_ok 0 (zs_avail (zlib_after ds z k out)) (zs_bufsz ds) (zs_buf (zlib_after ds z k out))"
    and "buf_view 0 (zs_avail (zlib_after ds z k out)) (zs_buf (zlib_after ds z k out)) = buf_view 0 (zs_avail ds) (zs_buf ds) @ out"
    and "unat (zs_avail (zlib_after ds z k out)) = unat (zs_avail ds) + length out"
proof -
  have "buf_ok 0 (zs_avail ds) (zs_bufsz ds) (zs_buf ds)"
    using assms(1,2) by (simp add: zlib_inv_def)
  note fill = buf_fill [OF this, of out]
  from fill assms(4) zlib_room_eq(1) [OF assms(1-3)]
  show "buf_ok 0 (zs_avail (zlib_after ds z k out)) (zs_bufsz ds) (zs_buf (zlib_after ds z k out))"
    "buf_view 0 (zs_avail (zlib_after ds z k out)) (zs_buf (zlib_after ds z k out)) = buf_view 0 (zs_avail ds) (zs_buf ds) @ out"
    "unat (zs_avail (zlib_after ds z k out)) = unat (zs_avail ds) + length out"
    by (simp_all add: zlib_after_def)
qed

lemma zlib_after_frame:
  "zs_consumed (zlib_after ds z k out) = zs_consumed ds" "zs_finished (zlib_after ds z k out) = zs_finished ds"
  "zs_source (zlib_after ds z k out) = zs_source ds" "zs_flush (zlib_after ds z k out) = zs_flush ds"
  "zs_do_inflate (zlib_after ds z k out) = zs_do_inflate ds" "zs_read_in (zlib_after ds z k out) = zs_read_in ds"
  "zs_bufsz (zlib_after ds z k out) = zs_bufsz ds" "zs_z (zlib_after ds z k out) = z"
  by (simp_all add: zlib_after_def)

lemma zlib_step_ok:
  assumes law: "zlib_law zrun valid dec gas" and inv: "zlib_inv valid dec I P V ds"
    and c: "zs_consumed ds = 0" and nf: "\<not> zs_finished ds" and ne: "zs_avail ds \<noteq> zs_bufsz ds"
    and src: "V (zs_source ds) \<le> length (P (zs_source ds))" and a: "zs_avail_in ds \<noteq> 0"
    and r: "zrun True 0 (zs_z ds) (zlib_shown ds) (zlib_room ds) = (z, k, out, res)"
  defines "ds2 \<equiv> zlib_after ds z k out"
  shows "length out \<le> zlib_room ds" and "res = Z_STREAM_END \<or> res = 0"
    and "unat (zs_avail ds2) = unat (zs_avail ds) + length out"
    and "res = Z_STREAM_END \<Longrightarrow>
      zlib_inv valid dec I P V (ds2\<lparr>zs_finished := True\<rparr>)
      \<and> zlib_pending dec P (ds2\<lparr>zs_finished := True\<rparr>) = zlib_pending dec P ds"
    and "res = 0 \<Longrightarrow>
      zlib_inv valid dec I P V ds2 \<and> zlib_pending dec P ds2 = zlib_pending dec P ds
      \<and> length (zlib_input P ds2) + k = length (zlib_input P ds)
      \<and> (k = 0 \<longrightarrow> out = [] \<longrightarrow> gas z < gas (zs_z ds))"
proof -
  note step = zlib_run_law [OF law inv c nf ne src a r]
  note inp = zlib_after_input [OF inv a src conjunct1 [OF step], of z out, folded ds2_def]
    and out = zlib_after_output [OF inv c ne conjunct1 [OF conjunct2 [OF step]], of z k, folded ds2_def]
    and frame = zlib_after_frame [of ds z k out, folded ds2_def]
  show "length out \<le> zlib_room ds" "res = Z_STREAM_END \<or> res = 0" "unat (zs_avail ds2) = unat (zs_avail ds) + length out"
    using step out(3) by (auto split: if_splits)
  have pend: "zlib_pending dec P ds = buf_view 0 (zs_avail ds) (zs_buf ds) @ dec (zs_z ds) (zlib_input P ds)"
    using nf c by (simp add: zlib_pending_def)
  have le: "unat (zs_avail_in ds) - k \<le> unat (zs_read_in ds)"
    by (rule order_trans [OF diff_le_self]) (use inv in \<open>simp add: zlib_inv_def\<close>)
  have fin: "zlib_input P (ds2\<lparr>zs_finished := True\<rparr>) = zlib_input P ds2"
    by (simp add: zlib_input_def)
  show "zlib_inv valid dec I P V (ds2\<lparr>zs_finished := True\<rparr>)
      \<and> zlib_pending dec P (ds2\<lparr>zs_finished := True\<rparr>) = zlib_pending dec P ds" if "res = Z_STREAM_END"
  proof -
    have "zlib_pending dec P (ds2\<lparr>zs_finished := True\<rparr>) = zlib_pending dec P ds"
      using that step out(2) c frame pend by (simp add: zlib_pending_def [of dec P "_\<lparr>zs_finished := True\<rparr>"])
    then show ?thesis
      using inv inp(1,4) out(1) c frame le fin by (simp add: zlib_inv_def)
  qed
  show "zlib_inv valid dec I P V ds2 \<and> zlib_pending dec P ds2 = zlib_pending dec P ds
      \<and> length (zlib_input P ds2) + k = length (zlib_input P ds)
      \<and> (k = 0 \<longrightarrow> out = [] \<longrightarrow> gas z < gas (zs_z ds))" if "res = 0"
  proof -
    have "zlib_pending dec P ds2 = zlib_pending dec P ds"
      using that step out(2) c nf frame pend inp(2) by (simp add: zlib_pending_def [of dec P ds2])
    moreover have "valid (zs_z ds2) (zlib_input P ds2)"
      using that step inp(2) frame by simp
    ultimately show ?thesis
      using that step inv inp(1,3,4) out(1) c nf frame le by (simp add: zlib_inv_def)
  qed
qed


subsection \<open>The loop\<close>

lemma zlib_frame:
  "zs_flush ds = 0 \<Longrightarrow> ds\<lparr>zs_source := src, zs_next_in := p, zs_avail_in := n, zs_read_in := n, zs_flush := 0\<rparr>
    = ds\<lparr>zs_source := src, zs_next_in := p, zs_avail_in := n, zs_read_in := n\<rparr>"
  by (cases ds) simp

text \<open>The order in which the loop goes down, as in the xz filter.\<close>

definition zlib_order :: "('s \<Rightarrow> bytes) \<Rightarrow> ('z \<Rightarrow> nat) \<Rightarrow> size_t \<Rightarrow> (('z, 's) zlib_stream \<times> ('z, 's) zlib_stream) set" where
  "zlib_order P gas need = measures
     [\<lambda>ds. unat need - unat (zs_avail ds), \<lambda>ds. length (zlib_input P ds), \<lambda>ds. gas (zs_z ds),
      \<lambda>ds. if zs_avail_in ds \<noteq> 0 then 0 else 1]"

lemma wf_zlib_order: "wf (zlib_order P gas need)"
  by (simp add: zlib_order_def)

context reliable_stream
begin

lemma zlib_refill:
  assumes law: "zlib_law zrun valid dec gas" and inv: "zlib_inv valid dec ok pending view ds" and nf: "\<not> zs_finished ds"
  obtains src p len n where
    "rd (zs_source ds) (ucast (zs_read_in ds - zs_avail_in ds)) (ucast (zs_avail_in ds + 1)) = Some (src, Some p, len)"
    and "n = (if ucast (- 1 :: uint32) < len then - 1 else ucast len)" and "n \<noteq> 0"
    and "zlib_inv valid dec ok pending view (ds\<lparr>zs_source := src, zs_next_in := Some p, zs_avail_in := n, zs_read_in := n\<rparr>)"
    and "zlib_pending dec pending (ds\<lparr>zs_source := src, zs_next_in := Some p, zs_avail_in := n, zs_read_in := n\<rparr>)
      = zlib_pending dec pending ds"
    and "pending src = zlib_input pending ds"
proof -
  let ?c = "ucast (zs_read_in ds - zs_avail_in ds) :: size_t" and ?n = "ucast (zs_avail_in ds + 1) :: size_t"
  have le: "unat (zs_avail_in ds) \<le> unat (zs_read_in ds)" "unat (zs_read_in ds) \<le> view (zs_source ds)" "ok (zs_source ds)"
    "length (pending (zs_source ds)) \<le> max_zlib"
    using inv by (simp_all add: zlib_inv_def)
  have vb: "view (zs_source ds) \<le> length (pending (zs_source ds))"
    by (rule view_bound [OF le(3)])
  have up: "unat (ucast (w :: uint32) :: size_t) = unat w" for w
    by (simp add: unsigned_ucast_eq take_bit_nat_eq_self_iff less_le_trans [OF unsigned_less])
  have c: "unat ?c = unat (zs_read_in ds) - unat (zs_avail_in ds)"
    using le(1) by (simp only: up) (simp add: unat_sub_small)
  have n: "unat ?n = unat (zs_avail_in ds) + 1"
    using le vb by (simp only: up) (subst unat_add_small, simp_all add: max_zlib_def)
  have pre: "ok (zs_source ds)" "unat ?c \<le> view (zs_source ds)" "unat ?n \<le> max_need"
    using le vb by (simp_all only: c n) (simp_all add: max_zlib_def max_need_def)
  obtain src p len where r: "rd (zs_source ds) ?c ?n = Some (src, Some p, len)"
    and post: "rd_post ok pending view (zlib_input pending ds) ?n src p len"
    using rd_reliable [OF pre] unfolding zlib_input_def c by blast
  have val: "valid (zs_z ds) (zlib_input pending ds)"
    using inv nf by (simp add: zlib_inv_def)
  then have "zlib_input pending ds \<noteq> []"
    using law by (auto simp: zlib_law_def)
  then have "0 < length (zlib_input pending ds)"
    by simp
  moreover have "min (unat ?n) (length (zlib_input pending ds)) \<le> unat len"
    using post by (simp add: rd_post_def)
  ultimately have "0 < unat len"
    unfolding n by linarith
  have src: "pending src = zlib_input pending ds" and vl: "view src = unat len"
    using post by (simp_all add: rd_post_def)
  have "unat len \<le> length (pending src)"
    using view_bound [of src] post vl by (simp add: rd_post_def)
  also have small: "\<dots> \<le> max_zlib"
    using src le(4) by (simp add: zlib_input_def)
  finally have len: "unat len \<le> max_zlib" .
  let ?m = "if ucast (- 1 :: uint32) < len then - 1 else ucast len :: uint32"
  have "\<not> ucast (- 1 :: uint32) < len"
    using len by (simp add: word_less_nat_alt up max_zlib_def unsigned_minus_1_eq_mask mask_eq_exp_minus_1)
  moreover have "unat (ucast len :: uint32) = unat len"
    using len by (simp add: unsigned_ucast_eq take_bit_nat_eq_self max_zlib_def)
  ultimately have m: "unat ?m = unat len" and m0: "?m \<noteq> 0"
    using \<open>0 < unat len\<close> by (auto simp del: unat_eq_0_iff simp flip: unat_eq_0_iff)
  let ?ds2 = "ds\<lparr>zs_source := src, zs_next_in := Some p, zs_avail_in := ?m, zs_read_in := ?m\<rparr>"
  have inp: "zlib_input pending ?ds2 = zlib_input pending ds"
    using src by (simp add: zlib_input_def)
  have pend: "zlib_pending dec pending ?ds2 = zlib_pending dec pending ds"
    using inp by (simp add: zlib_pending_def)
  have "take (unat ?m) p = take (unat ?m) (zlib_input pending ds)"
    using post src m by (simp add: rd_post_def)
  then have "zlib_inv valid dec ok pending view ?ds2"
    using inv post pend inp src vl m small le(4) by (simp add: zlib_inv_def rd_post_def)
  from that [OF r refl m0 this pend src] show thesis .
qed

lemma zlib_done:
  assumes "zlib_inv valid dec ok pending view ds" and "zs_consumed ds = 0"
    and "zs_finished ds \<or> \<not> zs_avail ds < need"
  shows "rd_post (zlib_inv valid dec ok pending view) (zlib_pending dec pending) zlib_view
    (zlib_pending dec pending ds) need ds (zs_buf ds) (zs_avail ds)"
  using zlib_buffered [OF assms(1)] assms by (auto simp: rd_post_def zlib_view_def word_less_nat_alt)

definition zlib_loop_post where
  "zlib_loop_post h valid dec rest need r \<longleftrightarrow>
     (\<exists>ds' p len. r = Some (ds', p, len) \<and>
        (case p of
           None \<Rightarrow> len = 0 \<and> (\<exists>n. \<not> grant h n)
         | Some b \<Rightarrow> rd_post (zlib_inv valid dec ok pending view) (zlib_pending dec pending) zlib_view rest need ds' b len))"


text \<open>The turn that asks for more input, given what the loop does once it is there.\<close>

lemma zlib_loop_more:
  assumes law: "zlib_law zrun valid dec gas" and inv: "zlib_inv valid dec ok pending view ds2" and nf: "\<not> zs_finished ds2"
    and c: "zs_consumed ds2 = 0" and need: "zs_avail ds2 < need" and step: "zlib_process zrun h ds = Zlib_More ds2"
    and rest: "\<And>ds3. \<lbrakk>zlib_inv valid dec ok pending view ds3; \<not> zs_finished ds3; zs_consumed ds3 = 0;
      zs_avail ds3 = zs_avail ds2; zs_z ds3 = zs_z ds2; zlib_input pending ds3 = zlib_input pending ds2; zs_avail_in ds3 \<noteq> 0\<rbrakk>
      \<Longrightarrow> zlib_loop_post h valid dec (zlib_pending dec pending ds3) need (read_zlib_loop zrun h rd ds3 need)"
  shows "zlib_loop_post h valid dec (zlib_pending dec pending ds2) need (read_zlib_loop zrun h rd ds need)"
proof -
  obtain src p len n where
    r: "rd (zs_source ds2) (ucast (zs_read_in ds2 - zs_avail_in ds2)) (ucast (zs_avail_in ds2 + 1)) = Some (src, Some p, len)"
    and n: "n = (if ucast (- 1 :: uint32) < len then - 1 else ucast len)" "n \<noteq> 0"
    and inv3: "zlib_inv valid dec ok pending view (ds2\<lparr>zs_source := src, zs_next_in := Some p, zs_avail_in := n, zs_read_in := n\<rparr>)"
    and pend3: "zlib_pending dec pending (ds2\<lparr>zs_source := src, zs_next_in := Some p, zs_avail_in := n, zs_read_in := n\<rparr>)
      = zlib_pending dec pending ds2"
    and src3: "pending src = zlib_input pending ds2"
    by (rule zlib_refill [OF law inv nf])
  let ?ds3 = "ds2\<lparr>zs_source := src, zs_next_in := Some p, zs_avail_in := n, zs_read_in := n\<rparr>"
  have "zlib_loop_post h valid dec (zlib_pending dec pending ?ds3) need (read_zlib_loop zrun h rd ?ds3 need)"
    by (rule rest) (use inv3 nf c src3 n in \<open>simp_all add: zlib_input_def\<close>)
  moreover have "zs_flush ds2 = 0"
    using inv by (simp add: zlib_inv_def)
  ultimately show ?thesis
    using step r n need pend3
    by (cases "ucast (- 1 :: uint32) < len") (simp_all add: read_zlib_loop.simps [of zrun h rd ds] Let_def zlib_frame)
qed

text \<open>The turn that calls the decoder, given what the loop does from every state further down.\<close>

lemma zlib_loop_turn:
  assumes law: "zlib_law zrun valid dec gas" and inv: "zlib_inv valid dec ok pending view ds" and nf: "\<not> zs_finished ds"
    and c: "zs_consumed ds = 0" and need: "zs_avail ds < need" and a: "zs_avail_in ds \<noteq> 0"
    and g: "zlib_grow h ds = Some ds1"
    and down: "\<And>ds3. \<lbrakk>(ds3, ds) \<in> zlib_order pending gas need; zlib_inv valid dec ok pending view ds3; \<not> zs_finished ds3;
      zs_consumed ds3 = 0; zs_avail ds3 < need\<rbrakk>
      \<Longrightarrow> zlib_loop_post h valid dec (zlib_pending dec pending ds3) need (read_zlib_loop zrun h rd ds3 need)"
  shows "zlib_loop_post h valid dec (zlib_pending dec pending ds) need (read_zlib_loop zrun h rd ds need)"
proof -
  note gr = zlib_grow_inv [OF inv c g]
  note same = gr(3) [unfolded grown_def]
  have src: "view (zs_source ds) \<le> length (pending (zs_source ds))"
    using inv view_bound by (simp add: zlib_inv_def)
  have c1: "zs_consumed ds1 = 0" and nf1: "\<not> zs_finished ds1" and ne: "zs_avail ds1 \<noteq> zs_bufsz ds1"
    and src1: "view (zs_source ds1) \<le> length (pending (zs_source ds1))" and a1: "zs_avail_in ds1 \<noteq> 0"
    and inp1: "zlib_input pending ds1 = zlib_input pending ds"
    using same nf a src by (auto simp: zlib_input_def)
  obtain z k out res where r: "zrun True 0 (zs_z ds1) (zlib_shown ds1) (zlib_room ds1) = (z, k, out, res)"
    by (metis prod_cases4)
  define ds2 where "ds2 = zlib_after ds1 z k out"
  note st = zlib_step_ok [OF law gr(1) c1 nf1 ne src1 a1 r, folded ds2_def]
  note step = zlib_process_eq [where zrun = zrun, OF gr(1) c1 gr(3) a g r st(1), folded ds2_def]
  have c2: "zs_consumed ds2 = 0" "\<not> zs_finished ds2" "zs_z ds2 = z"
    using c1 nf1 by (simp_all add: ds2_def zlib_after_frame)
  have pos: "unat (zs_avail ds2) = unat (zs_avail ds) + length out"
    using st(3) same by simp
  consider (stop) "res = Z_STREAM_END" | (more) "res = 0" "out = []"
    | (short) "res = 0" "out \<noteq> []" "zs_avail ds2 < need" | (full) "res = 0" "out \<noteq> []" "\<not> zs_avail ds2 < need"
    using st(2) by blast
  then show ?thesis
  proof cases
    case stop
    then show ?thesis
      using zlib_done [of valid dec "ds2\<lparr>zs_finished := True\<rparr>" need] st(4) c2 gr(2) step
      by (simp add: read_zlib_loop.simps [of zrun h rd ds] zlib_result_def zlib_loop_post_def)
  next
    case more
    note inv2 = st(5) [OF more(1)]
    have "zlib_loop_post h valid dec (zlib_pending dec pending ds2) need (read_zlib_loop zrun h rd ds need)"
    proof (rule zlib_loop_more [OF law conjunct1 [OF inv2] c2(2,1)])
      show "zs_avail ds2 < need" "zlib_process zrun h ds = Zlib_More ds2"
        using pos more need step by (simp_all add: word_less_nat_alt)
    qed (rule down; use inv2 more pos need inp1 c2(3) same in
        \<open>cases "k = 0"; simp add: zlib_order_def measures_def word_less_nat_alt\<close>)
    then show ?thesis
      using inv2 gr(2) by simp
  next
    case short
    have "(ds2, ds) \<in> zlib_order pending gas need"
      using short(2) pos need by (simp add: zlib_order_def measures_def word_less_nat_alt diff_less_mono2)
    then show ?thesis
      using down [of ds2] st(5) c2 short gr(2) step by (simp add: read_zlib_loop.simps [of zrun h rd ds])
  next
    case full
    then show ?thesis
      using zlib_done [of valid dec ds2 need] st(5) c2 gr(2) step
      by (simp add: read_zlib_loop.simps [of zrun h rd ds] zlib_result_def zlib_loop_post_def)
  qed
qed

lemma read_zlib_loop_ok:
  assumes law: "zlib_law zrun valid dec gas" and "zlib_inv valid dec ok pending view ds"
    and "\<not> zs_finished ds" and "zs_consumed ds = 0" and "zs_avail ds < need"
  shows "zlib_loop_post h valid dec (zlib_pending dec pending ds) need (read_zlib_loop zrun h rd ds need)"
  using assms(2-)
proof (induction ds rule: wf_induct_rule [OF wf_zlib_order [of pending gas need]])
  case (1 ds)
  show ?case
  proof (cases "zs_avail_in ds = 0")
    case True
    then have "zlib_process zrun h ds = Zlib_More ds"
      using "1.prems"(1) by (simp add: zlib_process_def zlib_inv_def)
    then show ?thesis
      by (rule zlib_loop_more [OF law "1.prems"])
        (rule "1.IH"; use True "1.prems"(4) in \<open>simp add: zlib_order_def measures_def\<close>)
  next
    case a: False
    show ?thesis
    proof (cases "zlib_grow h ds")
      case None
      then show ?thesis
        using a zlib_grow_refused [OF None]
        by (simp add: read_zlib_loop.simps [of zrun h rd ds] zlib_process_def zlib_loop_post_def)
    next
      case (Some ds1)
      show ?thesis
        by (rule zlib_loop_turn [OF law "1.prems" a Some "1.IH"])
    qed
  qed
qed

lemma read_zlib_ok:
  assumes law: "zlib_law zrun valid dec gas" and inv: "zlib_inv valid dec ok pending view ds"
    and c: "unat c \<le> zlib_view ds" and n: "unat n \<le> max_need"
  shows "zlib_loop_post h valid dec (drop (unat c) (zlib_pending dec pending ds)) n (read_zlib zrun h rd ds c n)"
proof -
  let ?ds1 = "ds\<lparr>zs_consumed := zs_consumed ds + c\<rparr>"
  have ok: "buf_ok (zs_consumed ds) (zs_avail ds) (zs_bufsz ds) (zs_buf ds)"
    using inv by (simp add: zlib_inv_def)
  have cv: "unat c \<le> unat (zs_avail ds) - unat (zs_consumed ds)"
    using c by (simp add: zlib_view_def)
  note con = buf_consume [OF ok cv]
  have pend1: "zlib_pending dec pending ?ds1 = drop (unat c) (zlib_pending dec pending ds)"
    using con(2) cv length_buf_view [OF ok] by (simp add: zlib_pending_def zlib_input_def)
  have inv1: "zlib_inv valid dec ok pending view ?ds1"
    using inv con(1) pend1 by (auto simp: zlib_inv_def zlib_input_def)
  note b1 = zlib_buffered [OF inv1]
  have le: "unat (zs_consumed ?ds1) \<le> unat (zs_avail ?ds1)" and ok1: "buf_ok (zs_consumed ?ds1) (zs_avail ?ds1) (zs_bufsz ?ds1) (zs_buf ?ds1)"
    using con(1) by (simp_all add: buf_ok_def)
  have "unat (zs_consumed ?ds1) \<le> max_stream"
    using inv1 le by (auto simp: zlib_inv_def buf_ok_def max_stream_def max_zlib_def)
  then have "unat (zs_consumed ?ds1) + unat n < 2 ^ LENGTH(64)"
    using n by (simp add: max_stream_def max_need_def)
  then have sum: "unat (zs_consumed ?ds1 + n) = unat (zs_consumed ?ds1) + unat n"
    by (rule unat_add_small)
  have diff: "unat (zs_avail ?ds1 - zs_consumed ?ds1) = zlib_view ?ds1"
    using le by (simp add: zlib_view_def unat_sub_small)
  show ?thesis
  proof (cases "zs_finished ?ds1 \<or> zs_consumed ?ds1 + n \<le> zs_avail ?ds1")
    case True
    then have "min (unat n) (length (zlib_pending dec pending ?ds1)) \<le> zlib_view ?ds1"
    proof
      assume "zs_consumed ?ds1 + n \<le> zs_avail ?ds1"
      then show ?thesis
        using sum by (simp add: word_le_nat_alt zlib_view_def)
    qed (use b1(3) in simp)
    then have "rd_post (zlib_inv valid dec ok pending view) (zlib_pending dec pending) zlib_view
        (zlib_pending dec pending ?ds1) n ?ds1 (drop (unat (zs_consumed ?ds1)) (zs_buf ?ds1))
        (zs_avail ?ds1 - zs_consumed ?ds1)"
      using inv1 b1 diff by (simp add: rd_post_def)
    then show ?thesis
      using True pend1 by (simp add: read_zlib_def Let_def zlib_loop_post_def)
  next
    case False
    let ?ds2 = "?ds1\<lparr>zs_buf := slide (zs_buf ?ds1) (zs_consumed ?ds1) (zs_avail ?ds1),
      zs_avail := zs_avail ?ds1 - zs_consumed ?ds1, zs_consumed := 0\<rparr>"
    have pend2: "zlib_pending dec pending ?ds2 = zlib_pending dec pending ?ds1"
      using buf_slide(2) [OF ok1] by (simp add: zlib_pending_def zlib_input_def)
    have inv2: "zlib_inv valid dec ok pending view ?ds2"
      using inv1 buf_slide(1) [OF ok1] pend2 by (simp add: zlib_inv_def zlib_input_def)
    have lt: "zs_avail ?ds2 < n"
      using False sum diff le by (auto simp: word_less_nat_alt word_le_nat_alt zlib_view_def)
    have "zlib_loop_post h valid dec (zlib_pending dec pending ?ds2) n (read_zlib_loop zrun h rd ?ds2 n)"
      by (rule read_zlib_loop_ok [OF law inv2 _ _ lt]) (use False in simp_all)
    then show ?thesis
      using False pend1 pend2 by (simp add: read_zlib_def Let_def)
  qed
qed

lemma zlib_stream:
  assumes law: "zlib_law zrun valid dec gas"
  shows "byte_stream (read_zlib zrun h rd) (zlib_inv valid dec ok pending view) (zlib_pending dec pending) zlib_view"
proof (rule byte_streamI, goal_cases)
  case (1 s)
  then show ?case
    using zlib_buffered(2) [OF 1] by (simp add: zlib_inv_def max_zlib_def max_stream_def)
qed (use read_zlib_ok [OF law, of _ _ _ h] in \<open>fastforce simp: zlib_loop_post_def\<close>)+

lemma zlib_reliable:
  assumes law: "zlib_law zrun valid dec gas" and g: "\<forall>n. grant h n"
  shows "reliable_stream (read_zlib zrun h rd) (zlib_inv valid dec ok pending view) (zlib_pending dec pending) zlib_view"
proof (intro reliable_stream.intro reliable_stream_axioms.intro zlib_stream [OF law])
  fix s s' c n p len
  assume "zlib_inv valid dec ok pending view s" "unat c \<le> zlib_view s" "unat n \<le> max_need"
    "read_zlib zrun h rd s c n = Some (s', p, len)"
  with read_zlib_ok [OF law, of s c n h] g show "p \<noteq> None"
    by (auto simp: zlib_loop_post_def split: option.splits)
qed

end

end
