(* ===== verification/Zip_Roundtrip.thy ===== *)
theory Zip_Roundtrip
  imports Zip_Correct Inflate Tar_Roundtrip
begin

text \<open>
  Unpacking what a zip writer packs.  \<open>mk_zip\<close> is a reference writer for the format that
  \<^verbatim>\<open>container-zip.c\<close> reads: local headers with the data, stored or deflated, the central directory and the
  end record.  The theorem is that \<open>extract_container\<close> over it makes exactly the files that went in.
\<close>

subsection \<open>The reference writer\<close>

record zip_member =
  zm_name :: string
  zm_exec :: bool
  zm_method :: nat
  zm_comp :: bytes
  zm_data :: bytes

definition mk_local :: "zip_member \<Rightarrow> bytes" where
  "mk_local m =
     le_bytes 4 0x04034b50 @ replicate 22 NUL @ le_bytes 2 (length (zm_name m)) @ replicate 2 NUL @ zm_name m @ zm_comp m"

definition mk_central :: "nat \<Rightarrow> zip_member \<Rightarrow> bytes" where
  "mk_central off m =
     le_bytes 4 0x02014b50 @ replicate 6 NUL @ le_bytes 2 (zm_method m) @ replicate 8 NUL
     @ le_bytes 4 (length (zm_comp m)) @ le_bytes 4 (length (zm_data m)) @ le_bytes 2 (length (zm_name m)) @ replicate 8 NUL
     @ le_bytes 4 (if zm_exec m then 0x81ED0000 else 0x81A40000) @ le_bytes 4 off"

fun mk_dir :: "nat \<Rightarrow> zip_member list \<Rightarrow> bytes" where
  "mk_dir off [] = []"
| "mk_dir off (m # ms) = mk_central off m @ zm_name m @ mk_dir (off + length (mk_local m)) ms"

definition mk_zip :: "zip_member list \<Rightarrow> bytes" where
  "mk_zip ms =
     (let body = concat (map mk_local ms) in body @ mk_dir 0 ms @ mk_eocd (replicate 12 NUL) (length body) 0)"

text \<open>What a member must satisfy: \<open>z0\<close> is the state of a fresh inflater.\<close>

definition member_ok :: "('z \<Rightarrow> bytes \<Rightarrow> bool) \<Rightarrow> ('z \<Rightarrow> bytes \<Rightarrow> bytes) \<Rightarrow> 'z \<Rightarrow> zip_member \<Rightarrow> bool" where
  "member_ok valid dec z0 m \<longleftrightarrow>
     safe_path (zm_name m) \<and> NUL \<notin> set (zm_name m) \<and> length (zm_name m) < 65536
     \<and> length (zm_comp m) \<le> max_zlib \<and> length (zm_data m) \<le> max_zlib
     \<and> (zm_method m = 0 \<and> zm_comp m = zm_data m \<or> zm_method m = 8 \<and> valid z0 (zm_comp m) \<and> dec z0 (zm_comp m) = zm_data m)"

definition is_dir :: "zip_member \<Rightarrow> bool" where
  "is_dir m \<longleftrightarrow> last (zm_name m) = CHR ''/''"

lemma length_mk_central [simp]: "length (mk_central off m) = 46"
  by (simp add: mk_central_def)

lemma length_mk_local [simp]: "length (mk_local m) = 30 + length (zm_name m) + length (zm_comp m)"
  by (simp add: mk_local_def)

lemma little_16_zero: "little_16 (replicate 2 NUL) = 0"
  by (simp add: little_16_def byte_word_def numeral_nat)

lemma mk_central_fields:
  fixes m off
  defines "fh \<equiv> zip_file_header_of (mk_central off m)"
  shows "little_32 (zh_sig fh) = ZIP_FILE_HEADER_SIG" and "little_32 (zh_header_off fh) = of_nat off"
    and "little_32 (zh_compressed_len fh) = of_nat (length (zm_comp m))"
    and "little_32 (zh_uncompressed_len fh) = of_nat (length (zm_data m))"
    and "little_16 (zh_compression_method fh) = of_nat (zm_method m)"
    and "little_16 (zh_name_len fh) = of_nat (length (zm_name m))"
    and "little_16 (zh_extra_len fh) = 0"
    and "little_32 (zh_external_attributes fh) = (if zm_exec m then 0x81ED0000 else 0x81A40000)"
proof -
  note fields = fh_def zip_file_header_of_def slice_def mk_central_def
  have "zh_sig fh = le_bytes 4 0x02014b50" "zh_header_off fh = le_bytes 4 off"
    "zh_compressed_len fh = le_bytes 4 (length (zm_comp m))" "zh_uncompressed_len fh = le_bytes 4 (length (zm_data m))"
    "zh_compression_method fh = le_bytes 2 (zm_method m)" "zh_name_len fh = le_bytes 2 (length (zm_name m))"
    "zh_extra_len fh = replicate 2 NUL"
    "zh_external_attributes fh = le_bytes 4 (if zm_exec m then 0x81ED0000 else 0x81A40000)"
    by (simp_all add: fields)
  then show "little_32 (zh_sig fh) = ZIP_FILE_HEADER_SIG" "little_32 (zh_header_off fh) = of_nat off"
    "little_32 (zh_compressed_len fh) = of_nat (length (zm_comp m))"
    "little_32 (zh_uncompressed_len fh) = of_nat (length (zm_data m))"
    "little_16 (zh_compression_method fh) = of_nat (zm_method m)"
    "little_16 (zh_name_len fh) = of_nat (length (zm_name m))" "little_16 (zh_extra_len fh) = 0"
    "little_32 (zh_external_attributes fh) = (if zm_exec m then 0x81ED0000 else 0x81A40000)"
    by (simp_all add: little_16_zero)
qed

lemma mk_local_fields:
  defines "k m \<equiv> zip_local_header_of (take 30 (mk_local m))"
  shows "little_16 (zk_name_len (k m)) = of_nat (length (zm_name m))" and "little_16 (zk_extra_len (k m)) = 0"
proof -
  have "zk_name_len (k m) = le_bytes 2 (length (zm_name m))" "zk_extra_len (k m) = replicate 2 NUL"
    by (simp_all add: k_def zip_local_header_of_def slice_def mk_local_def)
  then show "little_16 (zk_name_len (k m)) = of_nat (length (zm_name m))" "little_16 (zk_extra_len (k m)) = 0"
    by (simp_all add: little_16_zero)
qed


subsection \<open>Files on a working device\<close>

definition on_disk :: "bytes \<Rightarrow> FILE \<Rightarrow> bool" where
  "on_disk d f \<longleftrightarrow> f_data f = d \<and> f_bad f = None \<and> \<not> f_err f"

lemma on_disk_fread:
  assumes "on_disk d f"
  shows "fread n f = (take n (drop (f_pos f) d),
      f\<lparr>f_pos := f_pos f + length (take n (drop (f_pos f) d)), f_eof := f_eof f \<or> length (take n (drop (f_pos f) d)) < n\<rparr>)"
  using assms fread_plain [of f n] by (simp add: on_disk_def Let_def)

lemma on_disk_update [simp]:
  "on_disk d (f\<lparr>f_pos := p, f_eof := e\<rparr>) = on_disk d f" "on_disk d (f\<lparr>f_eof := e\<rparr>) = on_disk d f"
  "on_disk d (f\<lparr>f_pos := p\<rparr>) = on_disk d f"
  by (simp_all add: on_disk_def)

lemma on_disk_snd_fread: "on_disk d f \<Longrightarrow> on_disk d (snd (fread n f))"
  by (simp add: on_disk_fread)

lemma on_disk_seek: "on_disk d f \<Longrightarrow> on_disk d (snd (fseek_set off f))"
  by (simp add: fseek_set_def)

lemma on_disk_find_64: "on_disk d f \<Longrightarrow> on_disk d (snd (find_central_dir_64 f off))"
  using on_disk_seek [of d f] on_disk_snd_fread
  by (auto simp: find_central_dir_64_def fseek_end_def Let_def split: prod.splits) (metis snd_conv)+

lemma on_disk_central: "on_disk d f \<Longrightarrow> on_disk d (snd (central_dir_loop f buf off p))"
  by (induction p) (auto simp: central_dir_loop_unfold eocd_result_def Let_def on_disk_find_64)

lemma on_disk_find: "on_disk d f \<Longrightarrow> on_disk d (snd (find_central_dir f off))"
  using on_disk_seek [of d f] on_disk_snd_fread
  by (auto simp: find_central_dir_def fseek_end_def Let_def on_disk_central split: prod.splits) (metis snd_conv on_disk_central)+

lemma on_disk_open_loop:
  assumes "open_zip_loop f n off = Some r" "on_disk d f"
  shows "on_disk d (snd r)"
proof -
  have "on_disk d f \<longrightarrow> on_disk d (snd r)"
  proof (rule open_zip_loop.raw_induct [where P = "\<lambda>f n off r. on_disk d f \<longrightarrow> on_disk d (snd r)", OF _ assms(1)], goal_cases)
    case (1 loop f n off r)
    then show ?case
      using on_disk_find [of d f "if uint n < off then uint n else off"]
      by (auto simp: Let_def split: prod.splits if_splits)
  qed
  with assms(2) show ?thesis by blast
qed

lemma on_disk_open:
  assumes "open_zip f = Some (Some z)" "on_disk d f"
  shows "on_disk d (zc_f z)"
proof -
  have "on_disk d (snd (fseek_end 0 f))"
    using assms(2) on_disk_seek by (simp add: fseek_end_def)
  with assms(1) show ?thesis
    by (auto simp: open_zip_def Let_def split: option.splits dest!: on_disk_open_loop)
qed


subsection \<open>Member streams\<close>

definition file_on :: "bytes \<Rightarrow> file_stream \<Rightarrow> bool" where
  "file_on d fs \<longleftrightarrow> file_inv fs \<and> on_disk d (fs_f fs)"

lemma on_disk_fill: "on_disk d (fs_f fs) \<Longrightarrow> on_disk d (fs_f (file_fill fs))"
  using on_disk_snd_fread [of d "fs_f fs" "unat (fs_bufsz fs - fs_avail fs)"]
  by (auto simp: file_fill_def Let_def split: prod.splits)

lemma on_disk_read_loop:
  "on_disk d (fs_f fs) \<Longrightarrow> on_disk d (fs_f (fst (read_file_loop h fs need)))"
proof (induction h fs need rule: read_file_loop.induct)
  case (1 h fs need)
  show ?case
  proof (cases "file_grow h fs")
    case None
    then show ?thesis
      using "1.prems" by (simp add: read_file_loop.simps [of h fs] file_fail_def)
  next
    case (Some fs1)
    then have "on_disk d (fs_f (file_fill fs1))"
      using "1.prems" file_grow_room(2) on_disk_fill by metis
    then show ?thesis
      using "1.IH" [OF Some refl] Some by (simp add: read_file_loop.simps [of h fs] file_fail_def Let_def)
  qed
qed

lemma on_disk_read:
  "read_file h fs c n = Some (fs', p, len) \<Longrightarrow> on_disk d (fs_f fs) \<Longrightarrow> on_disk d (fs_f fs')"
  using on_disk_read_loop [of d "fs\<lparr>fs_buf := slide (fs_buf fs) (fs_consumed fs + c) (fs_avail fs),
      fs_avail := fs_avail fs - (fs_consumed fs + c), fs_consumed := 0\<rparr>" h n]
  by (auto simp: read_file_def Let_def split: if_splits)

lemma file_on_reliable:
  assumes "\<forall>n. grant h n"
  shows "reliable_stream (read_file h) (file_on d) file_pending file_view"
  unfolding file_on_def
  by (rule reliable_stream.with_frame [OF file_reliable [OF assms]]) (rule on_disk_read)

text \<open>The two kinds of member streams, and what they have in common.\<close>

abbreviation part_ok :: "bytes \<Rightarrow> bytes \<Rightarrow> file_stream limit_stream \<Rightarrow> bool" where
  "part_ok d R \<equiv> limit_frame (file_on d) file_pending R"

abbreviation part_pending :: "file_stream limit_stream \<Rightarrow> bytes" where
  "part_pending \<equiv> limit_pending file_pending"

abbreviation part_view :: "file_stream limit_stream \<Rightarrow> nat" where
  "part_view \<equiv> limit_view file_view"

definition zip_ok :: "('z \<Rightarrow> bytes \<Rightarrow> bool) \<Rightarrow> ('z \<Rightarrow> bytes \<Rightarrow> bytes) \<Rightarrow> bytes \<Rightarrow> bytes \<Rightarrow> 'z zip_stream \<Rightarrow> bool" where
  "zip_ok valid dec d R s =
     (case s of
        Zip_stored ls \<Rightarrow> part_ok d R ls
      | Zip_inflated zs \<Rightarrow> zlib_inv valid dec (part_ok d R) part_pending part_view zs)"

definition zip_pending :: "('z \<Rightarrow> bytes \<Rightarrow> bytes) \<Rightarrow> 'z zip_stream \<Rightarrow> bytes" where
  "zip_pending dec s = (case s of Zip_stored ls \<Rightarrow> part_pending ls | Zip_inflated zs \<Rightarrow> zlib_pending dec part_pending zs)"

definition zip_view :: "'z zip_stream \<Rightarrow> nat" where
  "zip_view s = (case s of Zip_stored ls \<Rightarrow> part_view ls | Zip_inflated zs \<Rightarrow> zlib_view zs)"

lemma zip_reliable:
  assumes g: "\<forall>n. grant h n" and law: "zlib_law zrun valid dec gas"
  shows "reliable_stream (read_zip_stream zrun h) (zip_ok valid dec d R) (zip_pending dec) zip_view"
proof -
  have part: "reliable_stream (read_limit (read_file h)) (part_ok d R) part_pending part_view"
    by (rule reliable_stream.limit_reliable [OF file_on_reliable [OF g]])
  have infl: "reliable_stream (read_zlib zrun h (read_limit (read_file h)))
      (zlib_inv valid dec (part_ok d R) part_pending part_view) (zlib_pending dec part_pending) zlib_view"
    by (rule reliable_stream.zlib_reliable [OF part law g])
  note part_bs = reliable_stream.axioms(1) [OF part] and infl_bs = reliable_stream.axioms(1) [OF infl]
  note defs = zip_ok_def zip_pending_def zip_view_def read_zip_stream_def
  show ?thesis
  proof (intro reliable_stream.intro reliable_stream_axioms.intro byte_streamI)
    fix s
    assume "zip_ok valid dec d R s"
    then show "length (zip_pending dec s) \<le> max_stream \<and> zip_view s \<le> length (zip_pending dec s)"
      using byte_stream.pending_bound [OF part_bs] byte_stream.view_bound [OF part_bs]
        byte_stream.pending_bound [OF infl_bs] byte_stream.view_bound [OF infl_bs]
      by (cases s) (auto simp: defs)
  next
    fix s s' p and c n len :: size_t
    assume a: "zip_ok valid dec d R s" "unat c \<le> zip_view s" "unat n \<le> max_need"
      "read_zip_stream zrun h s c n = Some (s', Some p, len)"
    show "rd_post (zip_ok valid dec d R) (zip_pending dec) zip_view (drop (unat c) (zip_pending dec s)) n s' p len"
    proof (cases s)
      case (Zip_stored ls)
      with a obtain ls1 where "read_limit (read_file h) ls c n = Some (ls1, Some p, len)" "s' = Zip_stored ls1"
        by (auto simp: defs split: option.splits)
      then show ?thesis
        using byte_stream.rd_postI [OF part_bs, of ls c n] a Zip_stored by (simp add: defs rd_post_def)
    next
      case (Zip_inflated zs)
      with a obtain zs1 where "read_zlib zrun h (read_limit (read_file h)) zs c n = Some (zs1, Some p, len)" "s' = Zip_inflated zs1"
        by (auto simp: defs split: option.splits)
      then show ?thesis
        using byte_stream.rd_postI [OF infl_bs, of zs c n] a Zip_inflated by (simp add: defs rd_post_def)
    qed
  next
    fix s s' and c n len :: size_t
    assume a: "zip_ok valid dec d R s" "unat c \<le> zip_view s" "unat n \<le> max_need"
      "read_zip_stream zrun h s c n = Some (s', None, len)"
    then show "len = 0"
      using byte_stream.rd_null [OF part_bs] byte_stream.rd_null [OF infl_bs]
      by (cases s) (auto simp: defs split: option.splits)
  next
    fix s and c n :: size_t
    assume a: "zip_ok valid dec d R s" "unat c \<le> zip_view s" "unat n \<le> max_need"
    then show "\<exists>r. read_zip_stream zrun h s c n = Some r"
      using byte_stream.rd_returns [OF part_bs, of _ c n] byte_stream.rd_returns [OF infl_bs, of _ c n]
      by (cases s) (fastforce simp: defs split: option.splits)+
  next
    fix s s' p and c n len :: size_t
    assume a: "zip_ok valid dec d R s" "unat c \<le> zip_view s" "unat n \<le> max_need"
      "read_zip_stream zrun h s c n = Some (s', p, len)"
    then show "p \<noteq> None"
      using reliable_stream.rd_never_null [OF part] reliable_stream.rd_never_null [OF infl]
      by (cases s) (fastforce simp: defs split: option.splits)+
  qed
qed

text \<open>A member stream that is closed gives the file back.\<close>

lemma zip_ok_close: "zip_ok valid dec d R s \<Longrightarrow> on_disk d (close_zip_stream s)"
  by (cases s) (auto simp: zip_ok_def close_zip_stream_def close_file_def close_limit_def close_zlib_def limit_frame_def
      file_on_def zlib_inv_def)


subsection \<open>The walk through the central directory\<close>

text \<open>The directory that is still to be read.\<close>

definition at_dir :: "bytes \<Rightarrow> zip_container \<Rightarrow> bytes \<Rightarrow> bool" where
  "at_dir d z rest \<longleftrightarrow> on_disk d (zc_f z) \<and> length d < 2 ^ 63 \<and> unat (zc_diroff z) \<le> length d \<and> drop (unat (zc_diroff z)) d = rest"

definition describes :: "zip_container \<Rightarrow> nat \<Rightarrow> zip_member \<Rightarrow> bool" where
  "describes z off m \<longleftrightarrow>
     zc_header_off z = of_nat off \<and> zc_compressed_len z = of_nat (length (zm_comp m))
     \<and> zc_uncompressed_len z = of_nat (length (zm_data m)) \<and> zc_compression_method z = of_nat (zm_method m)
     \<and> zc_path z = Some (zm_name m) \<and> zc_executable z = zm_exec m"

lemma seek_small: "unat off < 2 ^ 63 \<Longrightarrow> fseek64 off f = (True, f\<lparr>f_pos := unat off, f_eof := False\<rparr>)"
  by (simp add: fseek64_def fseek_set_def sint_small)

lemma cstr_name: "safe_path s \<Longrightarrow> NUL \<notin> set s \<Longrightarrow> clean_path (replace_char (cstr s) (CHR 0x5C) (CHR ''/'')) [] = Some s"
  by (auto simp: clean_path_iff cstr_id replace_char_map safe_path_def intro!: map_idI [symmetric])

lemma read_central:
  assumes "on_disk d (zc_f z)" "drop (f_pos (zc_f z)) d = mk_central off m @ zm_name m @ rest" "member_ok valid dec z0 m" "off < 2 ^ 32"
  shows "\<exists>z'. read_zip_file_header z = (0, z') \<and> on_disk d (zc_f z') \<and> describes z' off m
    \<and> f_pos (zc_f z') = f_pos (zc_f z) + 46 + length (zm_name m)"
proof -
  note fields = mk_central_fields [of off m]
  let ?f1 = "(zc_f z)\<lparr>f_pos := f_pos (zc_f z) + 46\<rparr>" and ?n = "length (zm_name m)"
  let ?f2 = "?f1\<lparr>f_pos := f_pos (zc_f z) + 46 + ?n\<rparr>"
  have r1: "fread 46 (zc_f z) = (mk_central off m, ?f1)"
    using assms(2) by (simp add: on_disk_fread [OF assms(1)])
  have d1: "on_disk d ?f1"
    using assms(1) by simp
  have "drop (f_pos ?f1) d = drop 46 (drop (f_pos (zc_f z)) d)"
    by (simp add: add.commute)
  then have "drop (f_pos ?f1) d = zm_name m @ rest"
    using assms(2) by simp
  then have r2: "fread ?n ?f1 = (zm_name m, ?f2)"
    by (simp add: on_disk_fread [OF d1])
  have n: "unat (of_nat ?n :: uint16) = ?n"
    using assms(3) by (simp add: member_ok_def unsigned_of_nat take_bit_nat_eq_self_iff)
  have name: "clean_path (replace_char (cstr (zm_name m)) (CHR 0x5C) (CHR ''/'')) [] = Some (zm_name m)"
    using assms(3) cstr_name by (simp add: member_ok_def)
  have wide: "ucast (of_nat v :: uint32) = (of_nat v :: uint64)" if "v < 2 ^ 32" for v
    using that by (simp add: unsigned_of_nat take_bit_nat_eq_self)
  have small: "length (zm_comp m) < 2 ^ 32" "length (zm_data m) < 2 ^ 32"
    using assms(3) by (simp_all add: member_ok_def max_zlib_def)
  have ex: "((if zm_exec m then 0x81ED0000 else 0x81A40000) AND 0x400000 \<noteq> (0 :: uint32)) = zm_exec m"
    by simp
  show ?thesis
    using r1 r2 n name d1
    by (simp add: read_zip_file_header_def Let_def fields zip_extra_loop.simps [of _ 0] fseek_cur_def fseek_set_def
        describes_def wide [OF assms(4)] wide [OF small(1)] wide [OF small(2)] ex)
qed

lemma next_member:
  assumes "at_dir d z (mk_central off m @ zm_name m @ rest)" "member_ok valid dec z0 m" "off < 2 ^ 32"
  shows "\<exists>z'. at_dir d z' rest \<and> describes z' off m
    \<and> next_zip_file z = (if is_dir m then next_zip_file z' else Some (0, z'\<lparr>zc_h :=
        file_hdr (zm_name m) (if zm_exec m then 493 else 420) (length (zm_data m))\<rparr>))"
proof -
  let ?p = "unat (zc_diroff z)"
  let ?z1 = "z\<lparr>zc_f := (zc_f z)\<lparr>f_pos := ?p, f_eof := False\<rparr>\<rparr>"
  have d: "on_disk d (zc_f z)" "length d < 2 ^ 63" "?p \<le> length d" "drop ?p d = mk_central off m @ zm_name m @ rest"
    using assms(1) by (simp_all add: at_dir_def)
  obtain z2 where z2: "read_zip_file_header ?z1 = (0, z2)" "on_disk d (zc_f z2)" "describes z2 off m"
    "f_pos (zc_f z2) = ?p + 46 + length (zm_name m)"
    using read_central [of d ?z1, OF _ _ assms(2,3)] d by auto
  have "drop (f_pos (zc_f z2)) d = drop (46 + length (zm_name m)) (drop ?p d)"
    using z2(4) by (simp add: add.commute add.left_commute)
  then have tail: "drop (f_pos (zc_f z2)) d = rest"
    using d(4) by simp
  have "46 + length (zm_name m) \<le> length (drop ?p d)"
    using d(4) by simp
  then have le: "f_pos (zc_f z2) \<le> length d"
    using z2(4) d(3) by simp
  then have u: "unat (ftell64 (zc_f z2)) = f_pos (zc_f z2)"
    using d(2) by (simp add: ftell64_def unat_of_nat_small)
  let ?z3 = "z2\<lparr>zc_diroff := ftell64 (zc_f z2)\<rparr>"
  have "at_dir d ?z3 rest" "describes ?z3 off m"
    using z2 tail le u d(2) by (simp_all add: at_dir_def describes_def)
  moreover have "next_zip_file z = (if is_dir m then next_zip_file ?z3 else Some (0, ?z3\<lparr>zc_h :=
        file_hdr (zm_name m) (if zm_exec m then 493 else 420) (length (zm_data m))\<rparr>))"
    using z2(1,3) seek_small [of "zc_diroff z"] d(2,3)
    by (subst next_zip_file.simps) (simp add: Let_def describes_def is_dir_def file_hdr_def)
  ultimately show ?thesis
    by blast
qed

text \<open>The end record is shorter than a file header.\<close>

lemma next_end:
  assumes "at_dir d z rest" "length rest < 46"
  shows "\<exists>z'. next_zip_file z = Some (1, z')"
proof -
  let ?f = "(zc_f z)\<lparr>f_pos := unat (zc_diroff z), f_eof := False\<rparr>"
  have d: "on_disk d ?f" "unat (zc_diroff z) < 2 ^ 63" "drop (f_pos ?f) d = rest"
    using assms(1) by (simp_all add: at_dir_def)
  then have "fst (fread 46 ?f) = rest"
    using assms(2) by (simp add: on_disk_fread [OF d(1)])
  then obtain f1 where "fread 46 ?f = (rest, f1)"
    by (cases "fread 46 ?f") auto
  then show ?thesis
    using assms(2) seek_small [OF d(2)] by (subst next_zip_file.simps) (simp add: Let_def read_zip_file_header_def)
qed


subsection \<open>Opening and copying a member\<close>

lemma part_at:
  assumes "on_disk d f" "\<not> f_eof f" "drop (f_pos f) d = zm_comp m @ R" "f_pos f \<le> length d" "length d \<le> max_stream"
    and "length (zm_comp m) \<le> max_zlib" "\<forall>n. grant h n"
  obtains ls where "open_limited h (open_file_stream h f) (of_nat (length (zm_comp m))) = Opened ls"
    "part_ok d R ls" "part_pending ls = zm_comp m" "part_view ls = 0"
proof -
  let ?fs = "\<lparr>fs_f = f, fs_open = True, fs_avail = 0, fs_bufsz = 0, fs_consumed = 0, fs_buf = []\<rparr>"
  let ?ls = "\<lparr>ls_left = of_nat (length (zm_comp m)), ls_source = ?fs\<rparr>"
  have pend: "file_pending ?fs = zm_comp m @ R"
    using assms(1,3) by (simp add: file_pending_def file_rest_def on_disk_def)
  have "length (zm_comp m @ R) \<le> max_stream"
    unfolding assms(3) [symmetric] using assms(5) by simp
  then have "file_on d ?fs"
    using assms(1,2,4) pend by (simp add: file_on_def file_inv_def file_core_def on_disk_def)
  moreover have "unat (of_nat (length (zm_comp m)) :: uint64) = length (zm_comp m)"
    using assms(6) by (simp add: unat_of_nat_small max_zlib_def)
  ultimately have "part_ok d R ?ls" "part_pending ?ls = zm_comp m" "part_view ?ls = 0"
    using pend by (simp_all add: limit_frame_def limit_pending_def limit_view_def file_view_def)
  moreover have "open_limited h (open_file_stream h f) (of_nat (length (zm_comp m))) = Opened ?ls"
    using assms(7) by (simp add: open_limited_def open_file_stream_def)
  ultimately show thesis
    using that by blast
qed

lemma open_part:
  assumes "on_disk d f" "\<not> f_eof f" "drop (f_pos f) d = zm_comp m @ R" "f_pos f \<le> length d" "length d \<le> max_stream"
    and m: "member_ok valid dec z0 m" and g: "\<forall>n. grant h n" and init: "init True (- 15) = Some z0"
  shows "\<exists>s. open_zip_stream init h f (of_nat (length (zm_comp m))) (of_nat (zm_method m)) = Zip_opened s
    \<and> zip_ok valid dec d R s \<and> zip_pending dec s = zm_data m"
proof -
  have len: "length (zm_comp m) \<le> max_zlib"
    using m by (simp add: member_ok_def)
  obtain ls where ls: "open_limited h (open_file_stream h f) (of_nat (length (zm_comp m))) = Opened ls"
    "part_ok d R ls" "part_pending ls = zm_comp m" "part_view ls = 0"
    using part_at [OF assms(1-5) len g] by blast
  consider (stored) "zm_method m = 0" "zm_comp m = zm_data m"
    | (deflated) "zm_method m = 8" "valid z0 (zm_comp m)" "dec z0 (zm_comp m) = zm_data m"
    using m by (auto simp: member_ok_def)
  then show ?thesis
  proof cases
    case stored
    then show ?thesis
      using ls by (simp add: open_zip_stream_def zip_ok_def zip_pending_def)
  next
    case deflated
    let ?zs = "\<lparr>zs_z = z0, zs_next_in = None, zs_avail_in = 0, zs_avail = 0, zs_bufsz = 0, zs_consumed = 0,
        zs_finished = False, zs_source = ls, zs_buf = [], zs_read_in = 0, zs_flush = 0, zs_do_inflate = True\<rparr>"
    have "open_inflate init h (Some ls) = Opened ?zs"
      using g init by (simp add: open_inflate_def open_zlib_def)
    moreover have "zlib_pending dec part_pending ?zs = zm_data m"
      using ls(3) deflated(3) by (simp add: zlib_pending_def zlib_input_def)
    moreover have "length (zm_data m) \<le> max_zlib"
      using m by (simp add: member_ok_def)
    ultimately show ?thesis
      using ls deflated len by (simp add: open_zip_stream_def zip_ok_def zip_pending_def zlib_inv_def zlib_input_def)
  qed
qed

lemma open_member:
  assumes d: "on_disk d (zc_f z)" "length d \<le> max_stream" "off < 2 ^ 32" "drop off d = mk_local m @ R" "off \<le> length d"
    and z: "describes z off m" and m: "member_ok valid dec z0 m" and g: "\<forall>n. grant h n" and init: "init True (- 15) = Some z0"
  shows "\<exists>s z'. c_open (zip_ops init zrun h) z = (Some s, z') \<and> zip_ok valid dec d R s \<and> zip_pending dec s = zm_data m
    \<and> zc_diroff z' = zc_diroff z"
proof -
  let ?n = "length (zm_name m)"
  let ?f1 = "(zc_f z)\<lparr>f_pos := off, f_eof := False\<rparr>"
  let ?f3 = "?f1\<lparr>f_pos := off + 30 + ?n\<rparr>"
  have "unat (zc_header_off z) = off"
    using z d(3) by (simp add: describes_def unat_of_nat_small)
  then have s1: "fseek64 (zc_header_off z) (zc_f z) = (True, ?f1)"
    using seek_small [of "zc_header_off z" "zc_f z"] d(3) by simp
  have d1: "on_disk d ?f1"
    using d(1) by simp
  have r: "fread 30 ?f1 = (take 30 (mk_local m), ?f1\<lparr>f_pos := off + 30\<rparr>)"
    using d(4) by (simp add: on_disk_fread [OF d1])
  have n: "uint (of_nat ?n :: uint16) = int ?n"
    using m by (simp add: member_ok_def unsigned_of_nat take_bit_nat_eq_self_iff)
  have s3: "fseek_cur (uint (of_nat ?n :: uint16)) (?f1\<lparr>f_pos := off + 30\<rparr>) = (True, ?f3)"
    unfolding n by (simp add: fseek_cur_def fseek_set_def nat_add_distrib)
  have "30 + ?n \<le> length (drop off d)"
    unfolding d(4) by simp
  then have le: "f_pos ?f3 \<le> length d"
    using d(5) by simp
  have "drop (f_pos ?f3) d = drop (30 + ?n) (drop off d)"
    by (simp add: add.commute add.left_commute)
  also have "\<dots> = zm_comp m @ R"
    unfolding d(4) by (simp add: mk_local_def)
  finally obtain s where "open_zip_stream init h ?f3 (of_nat (length (zm_comp m))) (of_nat (zm_method m)) = Zip_opened s"
    "zip_ok valid dec d R s" "zip_pending dec s = zm_data m"
    using open_part [where f = ?f3 and init = init, OF _ _ _ le d(2) m g init] d(1) by auto
  then show ?thesis
    using s1 r s3 z by (simp add: zip_ops_def open_zip_file_def Let_def mk_local_fields describes_def)
qed

definition zip_place :: "string \<Rightarrow> zip_member \<Rightarrow> (string \<rightharpoonup> node) \<Rightarrow> (string \<rightharpoonup> node)" where
  "zip_place dir m fs =
     (if is_dir m then fs else fs(dir @ ''/'' @ zm_name m \<mapsto> File_node (if zm_exec m then 493 else 420) (zm_data m)))"

lemma extract_member:
  assumes e: "calm e" and g: "\<forall>n. grant h n" and law: "zlib_law zrun valid dec gas" and init: "init True (- 15) = Some z0"
    and m: "member_ok valid dec z0 m" and z: "at_dir d z (mk_central off m @ zm_name m @ rest)"
    and d: "length d \<le> max_stream" "off < 2 ^ 32" "drop off d = mk_local m @ R" "off \<le> length d"
  shows "\<exists>z' w'. extract_container e (zip_ops init zrun h) z dir w = extract_container e (zip_ops init zrun h) z' dir w'
    \<and> at_dir d z' rest \<and> fs_of w' = zip_place dir m (fs_of w)"
proof -
  obtain z1 where z1: "at_dir d z1 rest" "describes z1 off m"
    "next_zip_file z = (if is_dir m then next_zip_file z1 else Some (0, z1\<lparr>zc_h :=
        file_hdr (zm_name m) (if zm_exec m then 493 else 420) (length (zm_data m))\<rparr>))"
    using next_member [OF z m d(2)] by blast
  show ?thesis
  proof (cases "is_dir m")
    case True
    then have "extract_container e (zip_ops init zrun h) z dir w = extract_container e (zip_ops init zrun h) z1 dir w"
      using z1(3) by (subst (1 2) extract_container.simps) (simp add: zip_ops_def)
    then show ?thesis
      using z1(1) True by (auto simp: zip_place_def)
  next
    case False
    let ?mode = "if zm_exec m then 493 else 420 :: nat"
    let ?z2 = "z1\<lparr>zc_h := file_hdr (zm_name m) ?mode (length (zm_data m))\<rparr>"
    have z2: "on_disk d (zc_f ?z2)" "describes ?z2 off m"
      using z1 by (simp_all add: at_dir_def describes_def)
    obtain s z3 where o: "c_open (zip_ops init zrun h) ?z2 = (Some s, z3)" "zip_ok valid dec d R s"
      "zip_pending dec s = zm_data m" "zc_diroff z3 = zc_diroff ?z2"
      using open_member [where init = init, OF z2(1) d z2(2) m g init] by blast
    obtain s' w' where x: "extract_path e (read_zip_stream zrun h) s dir (zm_name m) (int ?mode) w = Some (0, s', w')"
      "fs_of w' = (fs_of w)(dir @ ''/'' @ zm_name m \<mapsto> File_node (int ?mode) (zm_data m))" "zip_ok valid dec d R s'"
      using reliable_stream.extract_path_calm [OF zip_reliable [OF g law] e o(2)] o(3) by metis
    let ?z4 = "z3\<lparr>zc_f := close_zip_stream s'\<rparr>"
    have nx: "c_next (zip_ops init zrun h) z = Some (0, ?z2)"
      using z1(3) False by (simp add: zip_ops_def)
    have "extract_container e (zip_ops init zrun h) z dir w = extract_container e (zip_ops init zrun h) ?z4 dir w'"
      using nx o(1) x(1) by (subst extract_container.simps) (simp add: zip_ops_def file_hdr_def)
    moreover have "at_dir d ?z4 rest"
      using z1(1) o(4) zip_ok_close [OF x(3)] by (simp add: at_dir_def)
    ultimately show ?thesis
      using x(2) False by (intro exI [of _ ?z4] exI [of _ w']) (simp add: zip_place_def)
  qed
qed

lemma extract_dir:
  assumes e: "calm e" and g: "\<forall>n. grant h n" and law: "zlib_law zrun valid dec gas" and init: "init True (- 15) = Some z0"
    and m: "\<forall>m \<in> set ms. member_ok valid dec z0 m" and z: "at_dir d z (mk_dir off ms @ rest)" and rest: "length rest < 46"
    and d: "length d \<le> max_stream" "length d < 2 ^ 32" "drop off d = concat (map mk_local ms) @ R" "off \<le> length d"
  shows "\<exists>z' w'. extract_container e (zip_ops init zrun h) z dir w = Some (0, z', w') \<and> fs_of w' = fold (zip_place dir) ms (fs_of w)"
  using m z d(3,4)
proof (induction ms arbitrary: z w off)
  case Nil
  then obtain z' where "next_zip_file z = Some (1, z')"
    using next_end [of d z rest] rest by auto
  then have "extract_container e (zip_ops init zrun h) z dir w = Some (0, z', w)"
    by (subst extract_container.simps) (simp add: zip_ops_def)
  then show ?case
    by simp
next
  case (Cons m ms)
  let ?off = "off + length (mk_local m)"
  have at: "at_dir d z (mk_central off m @ zm_name m @ mk_dir ?off ms @ rest)"
    and dm: "drop off d = mk_local m @ concat (map mk_local ms) @ R"
    using Cons.prems(2,3) by simp_all
  obtain z' w' where s: "extract_container e (zip_ops init zrun h) z dir w = extract_container e (zip_ops init zrun h) z' dir w'"
    "at_dir d z' (mk_dir ?off ms @ rest)" "fs_of w' = zip_place dir m (fs_of w)"
    using extract_member [where init = init, OF e g law init _ at d(1) _ dm, of dir w] Cons.prems(1,4) d(2) by auto
  have "length (mk_local m) \<le> length (drop off d)"
    unfolding dm by simp
  then have le: "?off \<le> length d"
    using Cons.prems(4) by simp
  have "drop ?off d = drop (length (mk_local m)) (drop off d)"
    by (simp add: add.commute)
  then have "drop ?off d = concat (map mk_local ms) @ R"
    unfolding dm by simp
  from Cons.IH [OF _ s(2) this le, of w'] show ?case
    using Cons.prems(1) s(1,3) by simp
qed

theorem extract_mk_zip:
  assumes e: "calm e" and g: "\<forall>n. grant h n" and law: "zlib_law zrun valid dec gas" and init: "init True (- 15) = Some z0"
    and m: "\<forall>m \<in> set ms. member_ok valid dec z0 m" and len: "length (mk_zip ms) < 0xFFFFFFFF"
  shows "\<exists>z z' w'. open_zip (open_FILE (mk_zip ms)) = Some (Some z)
    \<and> extract_container e (zip_ops init zrun h) z dir w = Some (0, z', w') \<and> fs_of w' = fold (zip_place dir) ms (fs_of w)"
proof -
  let ?d = "mk_zip ms" and ?body = "concat (map mk_local ms)" and ?f = "open_FILE (mk_zip ms)"
  let ?e = "mk_eocd (replicate 12 NUL) (length ?body) 0"
  have f: "f_bad ?f = None" "f_data ?f = (?body @ mk_dir 0 ms) @ ?e" and disk: "on_disk ?d ?f"
    by (simp_all add: open_FILE_def mk_zip_def Let_def on_disk_def)
  have b: "length ?body < 0xFFFFFFFF" "length (f_data ?f) < 2 ^ 63"
    using len f(2) by (simp_all add: mk_zip_def Let_def)
  obtain z where z: "open_zip ?f = Some (Some z)" "zc_diroff z = of_nat (length ?body)"
    using open_zip_mk [OF f(1) _ f(2) b(2,1)] by auto
  have "unat (zc_diroff z) = length ?body"
    unfolding z(2) using b(1) by (simp add: unat_of_nat_small)
  then have at: "at_dir ?d z (mk_dir 0 ms @ ?e)"
    using on_disk_open [OF z(1) disk] len by (simp add: at_dir_def mk_zip_def Let_def)
  obtain z' w' where "extract_container e (zip_ops init zrun h) z dir w = Some (0, z', w')" "fs_of w' = fold (zip_place dir) ms (fs_of w)"
    using extract_dir [where init = init, OF e g law init m at, where R = "mk_dir 0 ms @ ?e" and dir = dir and w = w] len
    by (auto simp: mk_eocd_def max_stream_def mk_zip_def Let_def)
  with z(1) show ?thesis
    by blast
qed

end
