(* ===== verification/Http.thy ===== *)
theory Http
  imports Stream_Iface
begin

text \<open>
  \<^verbatim>\<open>tools/stream/source-http.c\<close>: a stream over the body of an HTTP response.

  The sockets are the operating system's and the TLS connection is BearSSL's: both are the fields of
  the record \<open>net\<close>, functions on a state \<open>'n\<close> of the network and a TLS context \<open>'x\<close>, and so are
  parameters of the model.
\<close>

subsection \<open>The network\<close>

text \<open>
  \<open>n_recv fd n\<close> is \<^verbatim>\<open>recv\<close> for at most \<open>n\<close> bytes (\<open>None\<close> is a negative result, \<open>Some []\<close> a
  closed connection); \<open>n_send\<close> returns the number of bytes taken.  \<open>x_init\<close> is the sequence of calls that sets up a TLS client for a host with the two
  callbacks; \<open>x_read\<close>, \<open>x_write_all\<close> and \<open>x_flush\<close> are the \<^verbatim>\<open>br_sslio\<close> functions.
\<close>

record ('a, 'x, 'n) net =
  n_getaddrinfo :: "string \<Rightarrow> int \<Rightarrow> 'n \<Rightarrow> 'a list option"
  n_socket :: "'a \<Rightarrow> 'n \<Rightarrow> int \<times> 'n"
  n_connect :: "int \<Rightarrow> 'a \<Rightarrow> 'n \<Rightarrow> bool \<times> 'n"
  n_close :: "int \<Rightarrow> 'n \<Rightarrow> 'n"
  n_recv :: "int \<Rightarrow> nat \<Rightarrow> 'n \<Rightarrow> bytes option \<times> 'n"
  n_send :: "int \<Rightarrow> bytes \<Rightarrow> 'n \<Rightarrow> int \<times> 'n"
  x_init :: "(nat \<Rightarrow> 'n \<Rightarrow> bytes option \<times> 'n) \<Rightarrow> (bytes \<Rightarrow> 'n \<Rightarrow> int \<times> 'n) \<Rightarrow> string \<Rightarrow> 'x"
  x_read :: "nat \<Rightarrow> 'x \<Rightarrow> 'n \<Rightarrow> bytes option \<times> 'x \<times> 'n"
  x_write_all :: "bytes \<Rightarrow> 'x \<Rightarrow> 'n \<Rightarrow> int \<times> 'x \<times> 'n"
  x_flush :: "'x \<Rightarrow> 'n \<Rightarrow> int \<times> 'x \<times> 'n"

abbreviation INT_MAX :: nat where
  "INT_MAX \<equiv> 2147483647"

abbreviation INT64_MAX :: uint64 where
  "INT64_MAX \<equiv> 0x7FFFFFFFFFFFFFFF"

text \<open>The addresses are tried in order; the first that connects wins.\<close>

fun connect_loop :: "('a, 'x, 'n) net \<Rightarrow> 'a list \<Rightarrow> 'n \<Rightarrow> int \<times> 'n" where
  "connect_loop net [] n = (- 1, n)"
| "connect_loop net (rp # rps) n =
     (let (fd, n1) = n_socket net rp n
      in if fd = - 1 then connect_loop net rps n1
         else let (ok, n2) = n_connect net fd rp n1
              in if ok then (fd, n2) else connect_loop net rps (n_close net fd n2))"

definition open_client_socket :: "('a, 'x, 'n) net \<Rightarrow> string \<Rightarrow> int \<Rightarrow> 'n \<Rightarrow> int \<times> 'n" where
  "open_client_socket net host port n =
     (case n_getaddrinfo net host port n of
        None \<Rightarrow> (- 1, n)
      | Some result \<Rightarrow> connect_loop net result n)"

definition do_read :: "('a, 'x, 'n) net \<Rightarrow> int \<Rightarrow> nat \<Rightarrow> 'n \<Rightarrow> bytes option \<times> 'n" where
  "do_read net fd len n = n_recv net fd (if INT_MAX < len then INT_MAX else len) n"

definition do_write :: "('a, 'x, 'n) net \<Rightarrow> int \<Rightarrow> bytes \<Rightarrow> 'n \<Rightarrow> int \<times> 'n" where
  "do_write net fd data n = n_send net fd (take (if INT_MAX < length data then INT_MAX else length data) data) n"


subsection \<open>The stream\<close>

record ('x, 'n) https_stream =
  os_ctx :: "'x option"
  os_fd :: int
  os_port :: int
  os_bufsz :: size_t
  os_avail :: size_t
  os_consumed :: size_t
  os_is_https :: bool
  os_host :: "string option"
  os_length_remaining :: uint64
  os_buf :: bytes
  os_net :: 'n

definition close_https :: "('a, 'x, 'n) net \<Rightarrow> ('x, 'n) https_stream \<Rightarrow> 'n" where
  "close_https net os = n_close net (os_fd os) (os_net os)"

definition https_grow :: "heap \<Rightarrow> ('x, 'n) https_stream \<Rightarrow> ('x, 'n) https_stream option" where
  "https_grow h os =
     (if os_avail os = os_bufsz os
      then let bufsz = os_bufsz os + 32 * 1024
           in case realloc h (os_buf os) bufsz of
                None \<Rightarrow> None
              | Some buf \<Rightarrow> Some (os\<lparr>os_buf := buf, os_bufsz := bufsz\<rparr>)
      else Some os)"

text \<open>
  One read from the connection into the free part of the buffer; \<open>None\<close> for \<open>r <= 0\<close>.  The cast of the free
  space to \<^verbatim>\<open>int\<close> for \<^verbatim>\<open>recv\<close> is left out: it changes nothing for less than \<open>2 ^ 31\<close> bytes.
\<close>

definition https_recv :: "('a, 'x, 'n) net \<Rightarrow> ('x, 'n) https_stream \<Rightarrow> bytes option \<times> ('x, 'n) https_stream" where
  "https_recv net os =
     (let room = unat (os_bufsz os - os_avail os);
          (r, os1) =
            (case (os_is_https os, os_ctx os) of
               (True, Some x) \<Rightarrow>
                 (let (got, x1, n1) = x_read net room x (os_net os)
                  in (got, os\<lparr>os_ctx := Some x1, os_net := n1\<rparr>))
             | _ \<Rightarrow>
                 (let (got, n1) = n_recv net (os_fd os) room (os_net os) in (got, os\<lparr>os_net := n1\<rparr>)))
      in (case r of None \<Rightarrow> None | Some got \<Rightarrow> if got = [] then None else Some got, os1))"

definition https_fail :: "('x, 'n) https_stream \<Rightarrow> (('x, 'n) https_stream \<times> bytes option \<times> size_t) option" where
  "https_fail os = Some (os\<lparr>os_length_remaining := 0\<rparr>, None, 0)"

partial_function (option) read_https_loop ::
  "('a, 'x, 'n) net \<Rightarrow> heap \<Rightarrow> ('x, 'n) https_stream \<Rightarrow> size_t
    \<Rightarrow> (('x, 'n) https_stream \<times> bytes option \<times> size_t) option" where
  "read_https_loop net h os need =
     (if \<not> os_avail os < need then Some (os, Some (os_buf os), os_avail os)
      else case https_grow h os of
             None \<Rightarrow> https_fail os
           | Some os1 \<Rightarrow>
               (case https_recv net os1 of
                  (None, os2) \<Rightarrow> https_fail os2
                | (Some got, os2) \<Rightarrow>
                    let os3 = os2\<lparr>os_buf := buf_write (os_buf os2) (unat (os_avail os2)) got,
                                  os_avail := os_avail os2 + of_nat (length got)\<rparr>
                    in if sint (os_length_remaining os3) < sint (os_avail os3) then https_fail os3
                       else read_https_loop net h os3 need))"

definition read_https :: "('a, 'x, 'n) net \<Rightarrow> heap \<Rightarrow> ('x, 'n) https_stream reader" where
  "read_https net h os consume need0 =
     (let os1 = os\<lparr>os_consumed := os_consumed os + consume,
                   os_length_remaining := os_length_remaining os - consume\<rparr>;
          need = (if sint (os_length_remaining os1) < sint need0 then os_length_remaining os1 else need0)
      in if os_consumed os1 + need \<le> os_avail os1
         then Some (os1, Some (drop (unat (os_consumed os1)) (os_buf os1)), os_avail os1 - os_consumed os1)
         else read_https_loop net h
                (os1\<lparr>os_buf := slide (os_buf os1) (os_consumed os1) (os_avail os1),
                     os_avail := os_avail os1 - os_consumed os1, os_consumed := 0\<rparr>) need)"


subsection \<open>Header lines\<close>

text \<open>
  A line of the header, without its line end, or \<open>None\<close> for an overlong one.  The view that a failing
  read returns is empty, and the loop reads again.
\<close>

partial_function (option) get_line_loop ::
  "('a, 'x, 'n) net \<Rightarrow> heap \<Rightarrow> ('x, 'n) https_stream \<Rightarrow> size_t
    \<Rightarrow> (string option \<times> ('x, 'n) https_stream) option" where
  "get_line_loop net h os line_len =
     (case read_https net h (os\<lparr>os_length_remaining := INT64_MAX\<rparr>) 0 (line_len + 1) of
        None \<Rightarrow> None
      | Some (os1, p, line_len1) \<Rightarrow>
          let line = take (unat line_len1) (case p of None \<Rightarrow> [] | Some b \<Rightarrow> b)
          in case strchr line (CHR 0x0A) of
               Some nl \<Rightarrow>
                 let text = before line nl;
                     os2 = os1\<lparr>os_consumed := os_consumed os1 + of_nat (length text) + 1\<rparr>
                 in Some (Some (cstr (if text \<noteq> [] \<and> last text = CHR 0x0D then butlast text else text)), os2)
             | None \<Rightarrow>
                 if 512 < line_len1 then Some (None, os1) else get_line_loop net h os1 line_len1)"

definition get_line ::
  "('a, 'x, 'n) net \<Rightarrow> heap \<Rightarrow> ('x, 'n) https_stream \<Rightarrow> (string option \<times> ('x, 'n) https_stream) option" where
  "get_line net h os = get_line_loop net h os 0"

definition is_space :: "char \<Rightarrow> bool" where
  "is_space ch \<longleftrightarrow> ch = CHR '' '' \<or> ch = CHR 0x09 \<or> ch = CHR 0x0D \<or> ch = CHR 0x0A"

definition trim :: "string \<Rightarrow> string" where
  "trim str = rev (dropWhile is_space (rev (dropWhile is_space str)))"

text \<open>
  The loop over the header lines: the content length and the location they give, or \<open>None\<close> when a
  line is overlong.
\<close>

partial_function (option) header_loop ::
  "('a, 'x, 'n) net \<Rightarrow> heap \<Rightarrow> ('x, 'n) https_stream \<Rightarrow> int \<Rightarrow> string option
    \<Rightarrow> ((int \<times> string option) option \<times> ('x, 'n) https_stream) option" where
  "header_loop net h os content_length location =
     (case get_line net h os of
        None \<Rightarrow> None
      | Some (None, os1) \<Rightarrow> Some (None, os1)
      | Some (Some p, os1) \<Rightarrow>
          if p = [] then Some (Some (content_length, location), os1)
          else case strchr p (CHR '':'') of
                 None \<Rightarrow> header_loop net h os1 content_length location
               | Some keysep \<Rightarrow>
                   let key = trim (before p keysep); value = trim (drop 1 keysep)
                   in if strcasecmp_eq key ''content-length''
                      then header_loop net h os1 (strtoll 0 value) location
                      else if strcasecmp_eq key ''location''
                      then header_loop net h os1 content_length (Some value)
                      else header_loop net h os1 content_length location)"


subsection \<open>open_http_downloader\<close>

text \<open>The scheme, the host, the port and the path of a URL.\<close>

definition split_url :: "string \<Rightarrow> (bool \<times> string \<times> int \<times> string) option" where
  "split_url url =
     (if strncmp_eq url ''https://'' 8 \<or> strncmp_eq url ''http://'' 7
      then let is_https = strncmp_eq url ''https://'' 8;
               rest = drop (if is_https then 8 else 7) url;
               (host, path) = (case strchr rest (CHR ''/'') of
                                 Some path \<Rightarrow> (before rest path, path)
                               | None \<Rightarrow> (rest, ''/''))
           in case strchr host (CHR '':'') of
                Some colon \<Rightarrow> Some (is_https, before host colon, atoi (drop 1 colon), path)
              | None \<Rightarrow> Some (is_https, host, if is_https then 443 else 80, path)
      else None)"

definition http_request :: "string \<Rightarrow> string \<Rightarrow> string" where
  "http_request path host =
     ''GET '' @ path @ '' HTTP/1.1'' @ [CHR 0x0D, CHR 0x0A] @ ''Host:'' @ host
     @ [CHR 0x0D, CHR 0x0A, CHR 0x0D, CHR 0x0A]"

text \<open>
  The bytes at \<^verbatim>\<open>request\<close>: a buffer of 1024 bytes that \<^verbatim>\<open>snprintf\<close> truncates to, while the
  length it returns is the length of the whole text.  What lies behind the buffer is unknown.
\<close>

definition request_bytes :: "heap \<Rightarrow> string \<Rightarrow> string \<Rightarrow> bytes" where
  "request_bytes h path host =
     (let req = http_request path host
      in if length req < 1024 then req
         else take 1023 req @ NUL # map (junk h) [0 ..< length req - 1024])"

text \<open>The loop that sends the request: the pointer stays at the start of the text.\<close>

partial_function (option) send_loop ::
  "('a, 'x, 'n) net \<Rightarrow> int \<Rightarrow> bytes \<Rightarrow> int \<Rightarrow> 'n \<Rightarrow> (bool \<times> 'n) option" where
  "send_loop net fd p reqsz n =
     (if reqsz = 0 then Some (True, n)
      else let (w, n1) = n_send net fd (take (nat reqsz) p) n
           in if w \<le> 0 then Some (False, n1) else send_loop net fd p (reqsz - w) n1)"

definition send_request ::
  "('a, 'x, 'n) net \<Rightarrow> bytes \<Rightarrow> ('x, 'n) https_stream \<Rightarrow> (bool \<times> ('x, 'n) https_stream) option" where
  "send_request net req os =
     (case (os_is_https os, os_ctx os) of
        (True, Some x) \<Rightarrow>
          let (w, x1, n1) = x_write_all net req x (os_net os);
              (f, x2, n2) = x_flush net x1 n1
          in Some (\<not> (w < 0 \<or> f < 0), os\<lparr>os_ctx := Some x2, os_net := n2\<rparr>)
      | _ \<Rightarrow>
          (case send_loop net (os_fd os) req (int (length req)) (os_net os) of
             None \<Rightarrow> None
           | Some (ok, n1) \<Rightarrow> Some (ok, os\<lparr>os_net := n1\<rparr>)))"

text \<open>A connection to the host: the one that is open already, or a new one in its place.\<close>

definition connect_to ::
  "('a, 'x, 'n) net \<Rightarrow> bool \<Rightarrow> string \<Rightarrow> int \<Rightarrow> ('x, 'n) https_stream \<Rightarrow> bool \<times> ('x, 'n) https_stream" where
  "connect_to net is_https host port os =
     (if os_host os = Some host \<and> os_is_https os = is_https \<and> os_port os = port then (True, os)
      else let (fd, n1) = open_client_socket net host port (os_net os)
           in if fd < 0 then (False, os\<lparr>os_net := n1\<rparr>)
              else (True, os\<lparr>os_net := n_close net (os_fd os) n1, os_port := port, os_host := Some host, os_fd := fd,
                             os_is_https := is_https, os_avail := 0, os_consumed := 0,
                             os_ctx := (if is_https then Some (x_init net (do_read net fd) (do_write net fd) host)
                                        else os_ctx os)\<rparr>))"

text \<open>
  What one pass of the loop ends with: the stream is ready, it has to be tried at another URL, or it
  has failed.
\<close>

datatype ('x, 'n) http_result =
    Http_ready "('x, 'n) https_stream" uint64
  | Http_redirect "('x, 'n) https_stream" string
  | Http_err "('x, 'n) https_stream"

definition http_response ::
  "('a, 'x, 'n) net \<Rightarrow> heap \<Rightarrow> ('x, 'n) https_stream \<Rightarrow> ('x, 'n) http_result option" where
  "http_response net h os =
     (case get_line net h os of
        None \<Rightarrow> None
      | Some (None, os1) \<Rightarrow> Some (Http_err os1)
      | Some (Some hdr, os1) \<Rightarrow>
          (case strchr hdr (CHR '' '') of
             None \<Rightarrow> Some (Http_err os1)
           | Some httpcode \<Rightarrow>
               let httperr = atoi httpcode
               in if 3 < httperr div 100 then Some (Http_err os1)
                  else case header_loop net h os1 (- 1) None of
                         None \<Rightarrow> None
                       | Some (None, os2) \<Rightarrow> Some (Http_err os2)
                       | Some (Some (content_length, location), os2) \<Rightarrow>
                           if httperr = 302
                           then (case location of
                                   None \<Rightarrow> Some (Http_err os2)
                                 | Some url \<Rightarrow> Some (Http_redirect os2 url))
                           else if httperr = 200
                           then if content_length < 0 then Some (Http_err os2)
                                else Some (Http_ready (os2\<lparr>os_length_remaining := of_int content_length\<rparr>)
                                       (of_int content_length))
                           else Some (Http_err os2)))"

definition http_step ::
  "('a, 'x, 'n) net \<Rightarrow> heap \<Rightarrow> ('x, 'n) https_stream \<Rightarrow> string \<Rightarrow> ('x, 'n) http_result option" where
  "http_step net h os url =
     (case split_url url of
        None \<Rightarrow> Some (Http_err os)
      | Some (is_https, host, port, path) \<Rightarrow>
          (case connect_to net is_https host port os of
             (False, os1) \<Rightarrow> Some (Http_err os1)
           | (True, os1) \<Rightarrow>
               (case send_request net (request_bytes h path host) os1 of
                  None \<Rightarrow> None
                | Some (False, os2) \<Rightarrow> Some (Http_err os2)
                | Some (True, os2) \<Rightarrow> http_response net h os2)))"

text \<open>
  \<open>redirects\<close> is the counter before its increment, so that the fifth pass is refused; the sum's left side is a null pointer, with the
  network after the socket has been closed.
\<close>

function http_loop ::
  "('a, 'x, 'n) net \<Rightarrow> heap \<Rightarrow> ('x, 'n) https_stream \<Rightarrow> string \<Rightarrow> nat
    \<Rightarrow> ('n + ('x, 'n) https_stream \<times> uint64) option" where
  "http_loop net h os url redirects =
     (if 5 \<le> redirects + 1 then Some (Inl (close_https net os))
      else case http_step net h os url of
             None \<Rightarrow> None
           | Some (Http_err os1) \<Rightarrow> Some (Inl (close_https net os1))
           | Some (Http_ready os1 sz) \<Rightarrow> Some (Inr (os1, sz))
           | Some (Http_redirect os1 url1) \<Rightarrow> http_loop net h os1 url1 (redirects + 1))"
  by pat_completeness auto
termination
  by (relation "measure (\<lambda>(net, h, os, url, redirects). 5 - redirects)") auto

declare http_loop.simps [simp del]

text \<open>\<open>os_size\<close> is the size of the struct, which depends on BearSSL's contexts.\<close>

definition open_http_downloader ::
  "('a, 'x, 'n) net \<Rightarrow> heap \<Rightarrow> size_t \<Rightarrow> string \<Rightarrow> 'n \<Rightarrow> ('n + ('x, 'n) https_stream \<times> uint64) option" where
  "open_http_downloader net h os_size url n =
     (if \<not> grant h os_size then Some (Inl n)
      else http_loop net h
             \<lparr>os_ctx = None, os_fd = - 1, os_port = 0, os_bufsz = 0, os_avail = 0, os_consumed = 0,
              os_is_https = False, os_host = None, os_length_remaining = 0, os_buf = [], os_net = n\<rparr> url 0)"

end
