(* ===== verification/Http_Correct.thy ===== *)
theory Http_Correct
  imports Http
begin

text \<open>
  What \<^verbatim>\<open>source-http.c\<close> computes: the body of a response is a stream that keeps the contract of
  \<open>byte_stream\<close>, redirects are bounded, and the behaviour of the request and header code on
  connections that are slow or closed.
\<close>

subsection \<open>What a connection promises\<close>

text \<open>
  \<open>wp fd n\<close> and \<open>wx x n\<close> are the bytes that the peer of a plain and of a TLS connection will still
  deliver.  A read gives the next part of them, no more than asked for, or it fails; an empty result
  says that there is nothing left.
\<close>

definition recv_law :: "('a, 'x, 'n) net \<Rightarrow> (int \<Rightarrow> 'n \<Rightarrow> bytes) \<Rightarrow> ('x \<Rightarrow> 'n \<Rightarrow> bytes) \<Rightarrow> bool" where
  "recv_law net wp wx \<longleftrightarrow>
     (\<forall>fd room n n' got. n_recv net fd room n = (Some got, n') \<longrightarrow>
        length got \<le> room \<and> wp fd n = got @ wp fd n')
     \<and> (\<forall>x room n x' n' got. x_read net room x n = (Some got, x', n') \<longrightarrow>
        length got \<le> room \<and> wx x n = got @ wx x' n')"

definition https_wire :: "(int \<Rightarrow> 'n \<Rightarrow> bytes) \<Rightarrow> ('x \<Rightarrow> 'n \<Rightarrow> bytes) \<Rightarrow> ('x, 'n) https_stream \<Rightarrow> bytes" where
  "https_wire wp wx os =
     (case (os_is_https os, os_ctx os) of
        (True, Some x) \<Rightarrow> wx x (os_net os)
      | _ \<Rightarrow> wp (os_fd os) (os_net os))"

definition https_pending :: "(int \<Rightarrow> 'n \<Rightarrow> bytes) \<Rightarrow> ('x \<Rightarrow> 'n \<Rightarrow> bytes) \<Rightarrow> ('x, 'n) https_stream \<Rightarrow> bytes" where
  "https_pending wp wx os = buf_view (os_consumed os) (os_avail os) (os_buf os) @ https_wire wp wx os"

definition https_view :: "('x, 'n) https_stream \<Rightarrow> nat" where
  "https_view os = unat (os_avail os) - unat (os_consumed os)"

text \<open>
  A connection and a heap that serve every request: what is left on the wire is delivered and memory
  is granted.
\<close>

definition steady :: "('a, 'x, 'n) net \<Rightarrow> (int \<Rightarrow> 'n \<Rightarrow> bytes) \<Rightarrow> ('x \<Rightarrow> 'n \<Rightarrow> bytes) \<Rightarrow> heap \<Rightarrow> bool" where
  "steady net wp wx h \<longleftrightarrow>
     (\<forall>n. grant h n)
     \<and> (\<forall>fd room n. 0 < room \<longrightarrow> wp fd n \<noteq> [] \<longrightarrow> (\<exists>got n'. n_recv net fd room n = (Some got, n') \<and> got \<noteq> []))
     \<and> (\<forall>x room n. 0 < room \<longrightarrow> wx x n \<noteq> [] \<longrightarrow> (\<exists>got x' n'. x_read net room x n = (Some got, x', n') \<and> got \<noteq> []))"

text \<open>
  The buffer is sound and the peer sends no more than the header announced; in the body of a
  response, it sends exactly that much.
\<close>

definition https_core :: "(int \<Rightarrow> 'n \<Rightarrow> bytes) \<Rightarrow> ('x \<Rightarrow> 'n \<Rightarrow> bytes) \<Rightarrow> ('x, 'n) https_stream \<Rightarrow> bool" where
  "https_core wp wx os \<longleftrightarrow>
     buf_ok (os_consumed os) (os_avail os) (os_bufsz os) (os_buf os)
     \<and> length (https_pending wp wx os) \<le> unat (os_length_remaining os)
     \<and> unat (os_length_remaining os) < 2 ^ 63
     \<and> length (https_pending wp wx os) \<le> max_stream
     \<and> unat (os_bufsz os) \<le> max_stream + 32 * 1024"

definition https_inv :: "(int \<Rightarrow> 'n \<Rightarrow> bytes) \<Rightarrow> ('x \<Rightarrow> 'n \<Rightarrow> bytes) \<Rightarrow> ('x, 'n) https_stream \<Rightarrow> bool" where
  "https_inv wp wx os \<longleftrightarrow>
     https_core wp wx os \<and> unat (os_length_remaining os) = length (https_pending wp wx os)"

lemma https_wire_simps [simp]:
  "https_wire wp wx (os\<lparr>os_buf := b\<rparr>) = https_wire wp wx os"
  "https_wire wp wx (os\<lparr>os_avail := a\<rparr>) = https_wire wp wx os"
  "https_wire wp wx (os\<lparr>os_consumed := c\<rparr>) = https_wire wp wx os"
  "https_wire wp wx (os\<lparr>os_bufsz := z\<rparr>) = https_wire wp wx os"
  "https_wire wp wx (os\<lparr>os_length_remaining := r\<rparr>) = https_wire wp wx os"
  by (simp_all add: https_wire_def split: bool.splits option.splits)

lemma https_recv_frame:
  assumes "https_recv net os = (r, os')"
  shows "os_buf os' = os_buf os" "os_avail os' = os_avail os" "os_bufsz os' = os_bufsz os"
    and "os_consumed os' = os_consumed os" "os_length_remaining os' = os_length_remaining os"
  using assms by (auto simp: https_recv_def Let_def split: prod.splits bool.splits option.splits)

lemma https_recv_wire:
  assumes "recv_law net wp wx" and "https_recv net os = (Some got, os')"
  shows "got \<noteq> []" and "length got \<le> unat (os_bufsz os - os_avail os)"
    and "https_wire wp wx os = got @ https_wire wp wx os'"
  using assms
  by (auto simp: https_recv_def https_wire_def recv_law_def Let_def
      split: prod.splits bool.splits option.splits if_splits)

lemma https_grow_inv:
  assumes "https_core wp wx os" and "os_consumed os = 0" and "https_grow h os = Some os1"
  shows "https_core wp wx os1" and "https_pending wp wx os1 = https_pending wp wx os"
    and "os_consumed os1 = 0" and "os_avail os1 = os_avail os" and "os_length_remaining os1 = os_length_remaining os"
proof -
  have "https_core wp wx os1 \<and> https_pending wp wx os1 = https_pending wp wx os \<and> os_consumed os1 = 0
      \<and> os_avail os1 = os_avail os \<and> os_length_remaining os1 = os_length_remaining os"
  proof (cases "os_avail os = os_bufsz os")
    case True
    with assms(3) obtain buf where buf: "realloc h (os_buf os) (os_bufsz os + 32768) = Some buf"
      and os1: "os1 = os\<lparr>os_buf := buf, os_bufsz := os_bufsz os + 32768\<rparr>"
      by (auto simp: https_grow_def Let_def split: option.splits)
    have ok: "buf_ok 0 (os_avail os) (os_bufsz os) (os_buf os)"
      using assms(1,2) by (simp add: https_core_def)
    have le: "unat (os_bufsz os) \<le> max_stream"
      using assms(1,2) True length_buf_view [OF ok] by (simp add: https_core_def https_pending_def)
    have sum: "unat (os_bufsz os) + unat (32768 :: size_t) < 2 ^ 64"
      using le by (simp add: max_stream_def)
    then have "unat (os_bufsz os + 32768) = unat (os_bufsz os) + 32768"
      by (subst unat_add_small) simp_all
    moreover have "https_pending wp wx os1 = https_pending wp wx os"
      using buf_grow(2) [OF ok buf sum] assms(2) os1 by (simp add: https_pending_def)
    ultimately show ?thesis
      using buf_grow(1) [OF ok buf sum] le assms(1,2) os1 by (simp add: https_core_def)
  qed (use assms in \<open>simp add: https_grow_def\<close>)
  then show "https_core wp wx os1" "https_pending wp wx os1 = https_pending wp wx os"
    "os_consumed os1 = 0" "os_avail os1 = os_avail os" "os_length_remaining os1 = os_length_remaining os"
    by auto
qed

text \<open>
  The outcome of a read that was asked for bytes that are still to come: the view is as requested, or
  the read has failed, which needs an unsteady connection.
\<close>

definition https_post where
  "https_post net h wp wx left rest need r \<longleftrightarrow>
     (\<exists>os' p len. r = Some (os', p, len) \<and>
        (case p of
           None \<Rightarrow> len = 0 \<and> \<not> steady net wp wx h
         | Some b \<Rightarrow> os_length_remaining os' = left
             \<and> rd_post (https_core wp wx) (https_pending wp wx) https_view rest need os' b len))"

lemma https_buffered:
  assumes "https_core wp wx os"
  shows "take (https_view os) (drop (unat (os_consumed os)) (os_buf os)) = take (https_view os) (https_pending wp wx os)"
    and "https_view os \<le> length (https_pending wp wx os)"
proof -
  have ok: "buf_ok (os_consumed os) (os_avail os) (os_bufsz os) (os_buf os)"
    using assms by (simp add: https_core_def)
  note facts = length_buf_view [OF ok] buf_view_take [OF ok]
  then show "take (https_view os) (drop (unat (os_consumed os)) (os_buf os)) = take (https_view os) (https_pending wp wx os)"
    "https_view os \<le> length (https_pending wp wx os)"
    by (simp_all add: https_view_def https_pending_def)
qed

lemma https_grow_room:
  assumes "https_grow h os = Some os1"
  shows "0 < unat (os_bufsz os1 - os_avail os1)"
  using assms by (auto simp: https_grow_def Let_def unat_gt_0 split: if_splits option.splits)

lemma https_recv_steady:
  assumes "steady net wp wx h" and "0 < unat (os_bufsz os - os_avail os)" and "https_wire wp wx os \<noteq> []"
  shows "fst (https_recv net os) \<noteq> None"
proof (cases "os_is_https os \<and> os_ctx os \<noteq> None")
  case True
  then obtain x where x: "os_is_https os" "os_ctx os = Some x"
    by auto
  then have "wx x (os_net os) \<noteq> []"
    using assms(3) by (simp add: https_wire_def)
  then obtain got x' n' where "x_read net (unat (os_bufsz os - os_avail os)) x (os_net os) = (Some got, x', n')" "got \<noteq> []"
    using assms(1,2) unfolding steady_def by blast
  with x show ?thesis
    by (simp add: https_recv_def)
next
  case False
  then have "https_wire wp wx os = wp (os_fd os) (os_net os)"
    by (auto simp: https_wire_def split: bool.splits option.splits)
  with assms(3) have "wp (os_fd os) (os_net os) \<noteq> []"
    by simp
  then obtain got n' where "n_recv net (os_fd os) (unat (os_bufsz os - os_avail os)) (os_net os) = (Some got, n')" "got \<noteq> []"
    using assms(1,2) unfolding steady_def by blast
  with False show ?thesis
    by (auto simp: https_recv_def Let_def split: bool.splits option.splits)
qed

text \<open>The loop only asks the connection for bytes that are still to come, so it ends.\<close>

text \<open>One turn of the loop that receives something: the bytes are on the end of the buffer.\<close>

lemma https_turn_ok:
  assumes law: "recv_law net wp wx" and inv: "https_core wp wx os" and c: "os_consumed os = 0"
    and lt: "os_avail os < need" and g: "https_grow h os = Some os1" and r: "https_recv net os1 = (Some got, os2)"
  defines "os3 \<equiv> os2\<lparr>os_buf := buf_write (os_buf os2) (unat (os_avail os2)) got,
      os_avail := os_avail os2 + of_nat (length got)\<rparr>"
  shows "read_https_loop net h os need = read_https_loop net h os3 need"
    and "https_core wp wx os3" and "https_pending wp wx os3 = https_pending wp wx os" and "os_consumed os3 = 0"
    and "os_length_remaining os3 = os_length_remaining os"
    and "unat need - unat (os_avail os3) < unat need - unat (os_avail os)"
proof -
  note gr = https_grow_inv [OF inv c g] and fr = https_recv_frame [OF r] and w = https_recv_wire [OF law r]
  have "buf_ok 0 (os_avail os1) (os_bufsz os1) (os_buf os1)"
    using gr(1,3) by (simp add: https_core_def)
  note fill = buf_fill [OF this w(2)]
  show pend: "https_pending wp wx os3 = https_pending wp wx os"
    using fill(2) w(3) gr(2,3) fr by (simp add: os3_def https_pending_def)
  have view3: "unat (os_avail os3) = unat (os_avail os) + length got"
    using fill(3) fr gr(4) by (simp add: os3_def)
  show c3: "os_consumed os3 = 0" and "os_length_remaining os3 = os_length_remaining os"
    using fr gr(3,5) by (simp_all add: os3_def)
  show inv3: "https_core wp wx os3"
    using gr(1,2,3,5) fill(1) fr pend inv by (simp add: https_core_def os3_def)
  have "unat (os_avail os3) \<le> length (https_pending wp wx os3)"
    using https_buffered(2) [OF inv3] c3 by (simp add: https_view_def)
  moreover have "length (https_pending wp wx os3) \<le> unat (os_length_remaining os3)" "unat (os_length_remaining os3) < 2 ^ 63"
    using inv3 by (simp_all add: https_core_def)
  ultimately have "\<not> sint (os_length_remaining os3) < sint (os_avail os3)"
    by (subst sint_less_small) linarith+
  then show "read_https_loop net h os need = read_https_loop net h os3 need"
    using lt g r by (simp add: read_https_loop.simps [of net h os] Let_def os3_def)
  have "0 < length got"
    using w(1) by simp
  then show "unat need - unat (os_avail os3) < unat need - unat (os_avail os)"
    unfolding view3 using lt by (simp only: word_less_nat_alt)
qed

lemma read_https_loop_ok:
  assumes law: "recv_law net wp wx" and "https_core wp wx os" and "os_consumed os = 0"
    and "unat need \<le> length (https_pending wp wx os)"
  shows "https_post net h wp wx (os_length_remaining os) (https_pending wp wx os) need (read_https_loop net h os need)"
  using assms(2-)
proof (induction "unat need - unat (os_avail os)" arbitrary: os rule: less_induct)
  case less
  note inv = less.prems(1) and c = less.prems(2) and need = less.prems(3)
  show ?case
  proof (cases "os_avail os < need")
    case False
    then show ?thesis
      using https_buffered [OF inv] c inv
      by (simp add: read_https_loop.simps [of net h os] https_post_def rd_post_def https_view_def word_less_nat_alt)
  next
    case lt: True
    show ?thesis
    proof (cases "https_grow h os")
      case None
      then have "\<not> steady net wp wx h"
        by (auto simp: https_grow_def realloc_def steady_def Let_def split: if_splits)
      with None show ?thesis
        using lt by (simp add: read_https_loop.simps [of net h os] https_post_def https_fail_def)
    next
      case (Some os1)
      note g = https_grow_inv [OF inv c Some]
      obtain r os2 where r: "https_recv net os1 = (r, os2)"
        by fastforce
      show ?thesis
      proof (cases r)
        case None
        have "https_wire wp wx os1 \<noteq> []"
          using g(1-3) lt need https_buffered(2) [OF g(1)] length_buf_view [of 0 "os_avail os1" "os_bufsz os1" "os_buf os1"] g(4)
          by (auto simp: https_core_def https_pending_def word_less_nat_alt)
        with None have "\<not> steady net wp wx h"
          using https_recv_steady [OF _ https_grow_room [OF Some]] r by force
        with None show ?thesis
          using lt Some r by (simp add: read_https_loop.simps [of net h os] https_post_def https_fail_def)
      next
        case got: (Some got)
        note turn = https_turn_ok [OF law inv c lt Some r [unfolded got]]
        show ?thesis
          using less.hyps [OF turn(6,2,4)] need unfolding turn(1,3,5) by blast
      qed
    qed
  qed
qed

lemma read_https_ok:
  assumes law: "recv_law net wp wx" and inv: "https_core wp wx os"
    and c: "unat c \<le> https_view os" and n: "unat n \<le> max_need"
    and left: "unat need = min (unat n) (unat (os_length_remaining os) - unat c)"
    and need: "unat need \<le> length (https_pending wp wx os) - unat c"
  shows "https_post net h wp wx (os_length_remaining os - c) (drop (unat c) (https_pending wp wx os)) need
    (read_https net h os c n)"
proof -
  let ?os1 = "os\<lparr>os_consumed := os_consumed os + c, os_length_remaining := os_length_remaining os - c\<rparr>"
  have ok: "buf_ok (os_consumed os) (os_avail os) (os_bufsz os) (os_buf os)"
    using inv by (simp add: https_core_def)
  have cv: "unat c \<le> unat (os_avail os) - unat (os_consumed os)"
    using c by (simp add: https_view_def)
  note con = buf_consume [OF ok cv]
  have pend1: "https_pending wp wx ?os1 = drop (unat c) (https_pending wp wx os)"
    using con(2) cv length_buf_view [OF ok] by (simp add: https_pending_def)
  have rem: "unat (os_length_remaining os - c) = unat (os_length_remaining os) - unat c"
    using inv c https_buffered(2) [OF inv] by (subst unat_sub_small) (auto simp: https_core_def)
  have inv1: "https_core wp wx ?os1"
    using inv con(1) rem by (auto simp: https_core_def pend1)
  have ok1: "buf_ok (os_consumed ?os1) (os_avail ?os1) (os_bufsz ?os1) (os_buf ?os1)"
    using con(1) by simp
  note b1 = https_buffered [OF inv1]
  have small: "unat (os_length_remaining ?os1) < 2 ^ 63" "unat n < 2 ^ 63"
    using inv1 n by (simp_all add: https_core_def max_need_def)
  have "unat (if sint (os_length_remaining ?os1) < sint n then os_length_remaining ?os1 else n) = unat need"
    using small rem left by (auto simp: sint_less_small)
  then have need_eq: "(if sint (os_length_remaining ?os1) < sint n then os_length_remaining ?os1 else n) = need"
    by (simp only: word_unat_eq_iff)
  have le: "unat (os_consumed ?os1) \<le> unat (os_avail ?os1)"
    using ok1 by (simp add: buf_ok_def)
  have "unat (os_consumed ?os1) + unat need < 2 ^ LENGTH(64)"
    using inv1 le left n by (auto simp: https_core_def buf_ok_def max_stream_def max_need_def)
  then have sum: "unat (os_consumed ?os1 + need) = unat (os_consumed ?os1) + unat need"
    by (rule unat_add_small)
  show ?thesis
  proof (cases "os_consumed ?os1 + need \<le> os_avail ?os1")
    case True
    then have "unat need \<le> https_view ?os1"
      using sum by (simp add: word_le_nat_alt https_view_def)
    moreover have "unat (os_avail ?os1 - os_consumed ?os1) = https_view ?os1"
      using le by (simp add: https_view_def unat_sub_small)
    ultimately have "https_post net h wp wx (os_length_remaining ?os1) (https_pending wp wx ?os1) need
        (Some (?os1, Some (drop (unat (os_consumed ?os1)) (os_buf ?os1)), os_avail ?os1 - os_consumed ?os1))"
      using b1 inv1 unfolding https_post_def rd_post_def by simp
    moreover have "read_https net h os c n
        = Some (?os1, Some (drop (unat (os_consumed ?os1)) (os_buf ?os1)), os_avail ?os1 - os_consumed ?os1)"
      using True need_eq by (simp add: read_https_def Let_def)
    ultimately show ?thesis
      unfolding pend1 by simp
  next
    case False
    let ?os2 = "?os1\<lparr>os_buf := slide (os_buf ?os1) (os_consumed ?os1) (os_avail ?os1),
      os_avail := os_avail ?os1 - os_consumed ?os1, os_consumed := 0\<rparr>"
    have pend2: "https_pending wp wx ?os2 = https_pending wp wx ?os1"
      using buf_slide(2) [OF ok1] by (simp add: https_pending_def)
    have inv2: "https_core wp wx ?os2"
      using inv1 buf_slide(1) [OF ok1] unfolding https_core_def pend2 by simp
    have "https_post net h wp wx (os_length_remaining ?os2) (https_pending wp wx ?os2) need (read_https_loop net h ?os2 need)"
      by (rule read_https_loop_ok [OF law inv2]) (use need pend1 pend2 in simp_all)
    moreover have "read_https net h os c n = read_https_loop net h ?os2 need"
      using False need_eq by (simp add: read_https_def Let_def)
    ultimately show ?thesis
      using pend1 pend2 by simp
  qed
qed

lemma read_https_body:
  assumes law: "recv_law net wp wx" and inv: "https_inv wp wx os"
    and c: "unat c \<le> https_view os" and n: "unat n \<le> max_need"
  obtains os' p len where "read_https net h os c n = Some (os', p, len)"
    and "p = None \<Longrightarrow> len = 0 \<and> \<not> steady net wp wx h"
    and "\<And>b. p = Some b \<Longrightarrow>
      rd_post (https_inv wp wx) (https_pending wp wx) https_view (drop (unat c) (https_pending wp wx os)) n os' b len"
proof -
  have core: "https_core wp wx os" and left: "unat (os_length_remaining os) = length (https_pending wp wx os)"
    using inv by (simp_all add: https_inv_def)
  let ?left = "os_length_remaining os - c"
  have rem: "unat ?left = length (https_pending wp wx os) - unat c"
    using left c https_buffered(2) [OF core] by (subst unat_sub_small) simp_all
  define need where "need = (if unat ?left < unat n then ?left else n)"
  have need: "unat need = min (unat n) (length (https_pending wp wx os) - unat c)"
    using rem by (simp add: need_def)
  have "https_post net h wp wx ?left (drop (unat c) (https_pending wp wx os)) need (read_https net h os c n)"
    by (rule read_https_ok [OF law core c n]) (simp_all add: need left)
  then show thesis
    using that need rem by (auto simp: https_post_def rd_post_def https_inv_def split: option.splits)
qed

lemma https_is_stream:
  assumes "recv_law net wp wx"
  shows "byte_stream (read_https net h) (https_inv wp wx) (https_pending wp wx) https_view"
proof (rule byte_streamI, goal_cases)
  case (1 s)
  then show ?case
    using https_buffered(2) [of wp wx s] by (simp add: https_inv_def https_core_def)
next
  case (2 s c n s' p len)
  show ?case
    by (rule read_https_body [OF assms 2(1-3), of h]) (use 2(4) in auto)
next
  case (3 s c n s' len)
  show ?case
    by (rule read_https_body [OF assms 3(1-3), of h]) (use 3(4) in auto)
next
  case (4 s c n)
  show ?case
    by (rule read_https_body [OF assms 4(1-3), of h]) auto
qed

lemma https_reliable:
  assumes "recv_law net wp wx" and "steady net wp wx h"
  shows "reliable_stream (read_https net h) (https_inv wp wx) (https_pending wp wx) https_view"
proof (intro reliable_stream.intro reliable_stream_axioms.intro https_is_stream [OF assms(1)])
  fix s c n s' p len
  assume pre: "https_inv wp wx s" "unat c \<le> https_view s" "unat n \<le> max_need" and r: "read_https net h s c n = Some (s', p, len)"
  show "p \<noteq> None"
    by (rule read_https_body [OF assms(1) pre, of h]) (use r assms(2) in auto)
qed


subsection \<open>Header lines\<close>

text \<open>The state in which the header is read, with the text that is still to come.\<close>

definition at_text :: "(int \<Rightarrow> 'n \<Rightarrow> bytes) \<Rightarrow> ('x \<Rightarrow> 'n \<Rightarrow> bytes) \<Rightarrow> ('x, 'n) https_stream \<Rightarrow> bytes \<Rightarrow> bool" where
  "at_text wp wx os text \<longleftrightarrow> https_core wp wx (os\<lparr>os_length_remaining := INT64_MAX\<rparr>) \<and> https_pending wp wx os = text"

definition chomp :: "string \<Rightarrow> string" where
  "chomp line = (if line \<noteq> [] \<and> last line = CHR 0x0D then butlast line else line)"

lemma https_pending_left [simp]: "https_pending wp wx (os\<lparr>os_length_remaining := r\<rparr>) = https_pending wp wx os"
  by (simp add: https_pending_def)

lemma at_text_read:
  assumes law: "recv_law net wp wx" and st: "steady net wp wx h" and at: "at_text wp wx os text"
    and n: "unat n \<le> length text"
  obtains os1 b len where "read_https net h (os\<lparr>os_length_remaining := INT64_MAX\<rparr>) 0 n = Some (os1, Some b, len)"
    and "at_text wp wx os1 text" and "take (unat len) b = take (unat len) text" and "unat n \<le> unat len"
    and "unat len = https_view os1" and "unat len \<le> length text"
proof -
  let ?os = "os\<lparr>os_length_remaining := INT64_MAX\<rparr>"
  have core: "https_core wp wx ?os" and pend: "https_pending wp wx ?os = text"
    using at by (simp_all add: at_text_def)
  then have "length text \<le> max_stream"
    by (simp add: https_core_def at_text_def)
  then have small: "unat n \<le> max_need" "unat n = min (unat n) (unat (os_length_remaining ?os) - unat (0 :: size_t))"
    using n by (simp_all add: max_stream_def max_need_def)
  have "https_post net h wp wx (os_length_remaining ?os - 0) (drop (unat (0 :: size_t)) (https_pending wp wx ?os)) n
      (read_https net h ?os 0 n)"
    by (rule read_https_ok [OF law core _ small]) (use n pend in simp_all)
  then obtain os1 b len where r: "read_https net h ?os 0 n = Some (os1, Some b, len)" "os_length_remaining os1 = INT64_MAX"
    "rd_post (https_core wp wx) (https_pending wp wx) https_view text n os1 b len"
    using st pend by (auto simp: https_post_def split: option.splits)
  then have core1: "https_core wp wx os1" "https_pending wp wx os1 = text" "https_view os1 = unat len"
      "take (unat len) b = take (unat len) text" "min (unat n) (length text) \<le> unat len"
    by (simp_all add: rd_post_def)
  have "https_core wp wx (os1\<lparr>os_length_remaining := INT64_MAX\<rparr>)"
    using core1(1) r(2) by (simp add: https_core_def)
  then have at1: "at_text wp wx os1 text"
    using core1(2) by (simp add: at_text_def)
  have le: "unat len \<le> length text"
    using https_buffered(2) [OF core1(1)] core1(2,3) by simp
  have "unat n \<le> unat len"
    using core1(5) n by simp
  from that [OF r(1) at1 core1(4) this core1(3) [symmetric] le] show thesis .
qed

lemma at_text_consume:
  assumes "at_text wp wx os (xs @ ys)" and "length xs \<le> https_view os" and "unat c = length xs"
  shows "at_text wp wx (os\<lparr>os_consumed := os_consumed os + c\<rparr>) ys"
proof -
  have ok: "buf_ok (os_consumed os) (os_avail os) (os_bufsz os) (os_buf os)"
    using assms(1) by (simp add: at_text_def https_core_def)
  have c: "unat c \<le> unat (os_avail os) - unat (os_consumed os)"
    using assms(2,3) by (simp add: https_view_def)
  note con = buf_consume [OF ok c]
  have "https_pending wp wx (os\<lparr>os_consumed := os_consumed os + c\<rparr>) = drop (unat c) (https_pending wp wx os)"
    using con(2) c length_buf_view [OF ok] by (simp add: https_pending_def)
  then have "https_pending wp wx (os\<lparr>os_consumed := os_consumed os + c\<rparr>) = ys"
    using assms(1,3) by (simp add: at_text_def)
  then show ?thesis
    using assms(1) con(1) by (auto simp: at_text_def https_core_def https_pending_def)
qed

lemma get_line_loop_ok:
  assumes law: "recv_law net wp wx" and st: "steady net wp wx h"
    and "at_text wp wx os (line @ CHR 0x0A # rest)" and lf: "CHR 0x0A \<notin> set line" and short: "length line \<le> 512"
    and "unat line_len \<le> length line"
  shows "\<exists>os'. get_line_loop net h os line_len = Some (Some (cstr (chomp line)), os') \<and> at_text wp wx os' rest"
  using assms(3,6)
proof (induction "length line - unat line_len" arbitrary: os line_len rule: less_induct)
  case less
  let ?text = "line @ CHR 0x0A # rest"
  have n: "unat (line_len + 1) = unat line_len + 1"
    using less.prems(2) short by (subst unat_add_small) simp_all
  obtain os1 b len where r: "read_https net h (os\<lparr>os_length_remaining := INT64_MAX\<rparr>) 0 (line_len + 1) = Some (os1, Some b, len)"
    and at1: "at_text wp wx os1 ?text" and data: "take (unat len) b = take (unat len) ?text"
    and need: "unat (line_len + 1) \<le> unat len" and view: "unat len = https_view os1" and inside: "unat len \<le> length ?text"
    by (rule at_text_read [OF law st less.prems(1), of "line_len + 1"]) (use n less.prems(2) in auto)
  show ?case
  proof (cases "length line < unat len")
    case True
    have "take (unat len) ?text = line @ take (unat len - length line) (CHR 0x0A # rest)"
      using True by simp
    also have "\<dots> = line @ CHR 0x0A # take (unat len - length line - 1) rest"
      using True by (cases "unat len - length line") auto
    finally have shown: "take (unat len) b = line @ CHR 0x0A # take (unat len - length line - 1) rest"
      using data by simp
    let ?os2 = "os1\<lparr>os_consumed := os_consumed os1 + of_nat (length line) + 1\<rparr>"
    have ret: "get_line_loop net h os line_len = Some (Some (cstr (chomp line)), ?os2)"
      using r shown lf by (subst get_line_loop.simps) (simp add: Let_def chomp_def)
    have "unat (of_nat (length line) + 1 :: size_t) = length (line @ [CHR 0x0A])"
      using short by (subst unat_add_small) (simp_all add: unat_of_nat_small)
    then have "at_text wp wx (os1\<lparr>os_consumed := os_consumed os1 + (of_nat (length line) + 1)\<rparr>) rest"
      using at1 True view by (intro at_text_consume [where xs = "line @ [CHR 0x0A]"]) simp_all
    then have "at_text wp wx ?os2 rest"
      by (simp add: add.assoc)
    with ret show ?thesis
      by blast
  next
    case False
    then have le: "unat len \<le> length line"
      by simp
    then have shown: "take (unat len) b = take (unat len) line"
      using data by simp
    have "CHR 0x0A \<notin> set (take (unat len) line)"
      using lf set_take_subset by fastforce
    then have "strchr (take (unat len) b) (CHR 0x0A) = None"
      unfolding shown strchr_None_iff .
    moreover have "\<not> 512 < len"
      using le short by (simp add: word_less_nat_alt)
    ultimately have step: "get_line_loop net h os line_len = get_line_loop net h os1 len"
      using r by (subst get_line_loop.simps) (simp add: Let_def)
    show ?thesis
      unfolding step by (rule less.hyps [OF _ at1 le]) (use need n le in simp)
  qed
qed

lemma get_line_ok:
  assumes "recv_law net wp wx" "steady net wp wx h" "at_text wp wx os (line @ CHR 0x0A # rest)"
    and "CHR 0x0A \<notin> set line" "length line \<le> 512"
  shows "\<exists>os'. get_line net h os = Some (Some (cstr (chomp line)), os') \<and> at_text wp wx os' rest"
  unfolding get_line_def using get_line_loop_ok [OF assms] by simp

text \<open>
  When the connection has ended, only what is buffered can still be returned.  Every further read fails with an
  empty view, which is taken for a line that is not complete yet, and the next read shows the buffered part of
  the line again: the loop never ends, unless the part is complete or longer than a line may be.
\<close>

definition unread :: "('x, 'n) https_stream \<Rightarrow> bytes" where
  "unread os = buf_view (os_consumed os) (os_avail os) (os_buf os)"

definition silent :: "('a, 'x, 'n) net \<Rightarrow> ('x, 'n) https_stream \<Rightarrow> bool" where
  "silent net os \<longleftrightarrow>
     (if os_is_https os \<and> os_ctx os \<noteq> None then \<forall>room x n. fst (x_read net room x n) \<in> {None, Some []}
      else \<forall>room n. fst (n_recv net (os_fd os) room n) \<in> {None, Some []})"

definition dead :: "('a, 'x, 'n) net \<Rightarrow> ('x, 'n) https_stream \<Rightarrow> bool" where
  "dead net os \<longleftrightarrow>
     buf_ok (os_consumed os) (os_avail os) (os_bufsz os) (os_buf os) \<and> unat (os_bufsz os) < 2 ^ 63 \<and> silent net os"

lemma silent_update [simp]:
  "silent net (os\<lparr>os_net := n\<rparr>) = silent net os" "silent net (os\<lparr>os_buf := b\<rparr>) = silent net os"
  "silent net (os\<lparr>os_bufsz := k\<rparr>) = silent net os" "silent net (os\<lparr>os_avail := k\<rparr>) = silent net os"
  "silent net (os\<lparr>os_consumed := k\<rparr>) = silent net os" "silent net (os\<lparr>os_length_remaining := j\<rparr>) = silent net os"
  by (simp_all add: silent_def del: not_None_eq)

lemma silent_ctx: "os_is_https os \<Longrightarrow> os_ctx os = Some x \<Longrightarrow> silent net (os\<lparr>os_ctx := Some y\<rparr>) = silent net os"
  by (simp add: silent_def)

lemma dead_buf: "dead net os \<Longrightarrow> buf_ok (os_consumed os) (os_avail os) (os_bufsz os) (os_buf os)"
  by (simp add: dead_def)

lemma length_unread: "dead net os \<Longrightarrow> length (unread os) = unat (os_avail os) - unat (os_consumed os)"
  by (simp add: unread_def length_buf_view [OF dead_buf])

lemma dead_recv:
  assumes "dead net os"
  shows "\<exists>os'. https_recv net os = (None, os') \<and> dead net (os'\<lparr>os_length_remaining := k\<rparr>)
    \<and> unread (os'\<lparr>os_length_remaining := k\<rparr>) = unread os"
proof (cases "os_is_https os \<and> os_ctx os \<noteq> None")
  case True
  then obtain x where x: "os_is_https os" "os_ctx os = Some x"
    by auto
  obtain r x' n where r: "x_read net (unat (os_bufsz os - os_avail os)) x (os_net os) = (r, x', n)"
    by (metis prod_cases3)
  have "r \<in> {None, Some []}"
    using assms x r unfolding dead_def silent_def by (metis fst_conv option.distinct(1))
  with assms x r show ?thesis
    by (auto simp: https_recv_def dead_def unread_def silent_ctx)
next
  case False
  obtain r n where r: "n_recv net (os_fd os) (unat (os_bufsz os - os_avail os)) (os_net os) = (r, n)"
    by fastforce
  have "r \<in> {None, Some []}"
    using assms False r unfolding dead_def silent_def by (metis fst_conv)
  with assms False r show ?thesis
    by (cases "os_is_https os"; cases "os_ctx os") (auto simp: https_recv_def dead_def unread_def)
qed

lemma dead_loop:
  assumes "dead net os" "os_consumed os = 0" "unat (os_avail os) \<le> 512" "os_avail os < need"
  shows "\<exists>os1. read_https_loop net h os need = Some (os1, None, 0) \<and> dead net os1 \<and> unread os1 = unread os"
proof (cases "https_grow h os")
  case None
  then show ?thesis
    using assms by (auto simp: read_https_loop.simps [of net h os] https_fail_def dead_def unread_def)
next
  case (Some os1)
  have "dead net os1 \<and> unread os1 = unread os"
  proof (cases "os_avail os = os_bufsz os")
    case True
    with Some obtain buf where buf: "realloc h (os_buf os) (os_bufsz os + 32768) = Some buf"
      and os1: "os1 = os\<lparr>os_buf := buf, os_bufsz := os_bufsz os + 32768\<rparr>"
      by (auto simp: https_grow_def Let_def split: option.splits)
    have ok: "buf_ok 0 (os_avail os) (os_bufsz os) (os_buf os)"
      using dead_buf [OF assms(1)] assms(2) by simp
    have sum: "unat (os_bufsz os) + unat (32768 :: size_t) < 2 ^ 64"
      using assms(3) True by simp
    then have "unat (os_bufsz os + 32768) = unat (os_bufsz os) + 32768"
      by (subst unat_add_small) simp_all
    then show ?thesis
      using buf_grow [OF ok buf sum] assms True os1 by (auto simp: dead_def unread_def)
  qed (use Some assms(1) in \<open>simp add: https_grow_def\<close>)
  moreover from this obtain os2 where "https_recv net os1 = (None, os2)" "dead net (os2\<lparr>os_length_remaining := 0\<rparr>)"
    "unread (os2\<lparr>os_length_remaining := 0\<rparr>) = unread os1"
    using dead_recv by blast
  ultimately show ?thesis
    using assms(4) Some by (auto simp: read_https_loop.simps [of net h os] https_fail_def)
qed

lemma dead_read:
  assumes dead: "dead net os" and need: "unat need \<le> 1024"
  shows "unat need \<le> length (unread os) \<Longrightarrow>
      \<exists>os1 b. read_https net h (os\<lparr>os_length_remaining := INT64_MAX\<rparr>) 0 need = Some (os1, Some b, of_nat (length (unread os)))
        \<and> take (length (unread os)) b = unread os \<and> dead net os1 \<and> unread os1 = unread os"
    and "length (unread os) < unat need \<Longrightarrow> length (unread os) \<le> 512 \<Longrightarrow>
      \<exists>os1. read_https net h (os\<lparr>os_length_remaining := INT64_MAX\<rparr>) 0 need = Some (os1, None, 0)
        \<and> dead net os1 \<and> unread os1 = unread os"
proof -
  let ?os1 = "os\<lparr>os_length_remaining := INT64_MAX\<rparr>"
  let ?os2 = "?os1\<lparr>os_buf := slide (os_buf os) (os_consumed os) (os_avail os),
      os_avail := os_avail os - os_consumed os, os_consumed := 0\<rparr>"
  note ok = dead_buf [OF dead] and len = length_unread [OF dead]
  have cmp: "\<not> sint INT64_MAX < sint need"
    using need by (subst sint_less_small) simp_all
  have le: "unat (os_consumed os) \<le> unat (os_avail os)" and "unat (os_avail os) < 2 ^ 63"
    using dead by (auto simp: dead_def buf_ok_def)
  then have sum: "unat (os_consumed os + need) = unat (os_consumed os) + unat need"
    and left: "unat (os_avail os - os_consumed os) = length (unread os)"
    using need len by (auto intro!: unat_add_small simp: unat_sub_small)
  have in_buf: "os_consumed os + need \<le> os_avail os \<longleftrightarrow> unat need \<le> length (unread os)"
    using sum le len by (auto simp: word_le_nat_alt)
  show "\<exists>os1 b. read_https net h ?os1 0 need = Some (os1, Some b, of_nat (length (unread os)))
      \<and> take (length (unread os)) b = unread os \<and> dead net os1 \<and> unread os1 = unread os"
    if "unat need \<le> length (unread os)"
  proof -
    have "read_https net h ?os1 0 need
        = Some (?os1, Some (drop (unat (os_consumed os)) (os_buf os)), os_avail os - os_consumed os)"
      using in_buf that cmp by (simp add: read_https_def Let_def)
    moreover have "os_avail os - os_consumed os = of_nat (length (unread os))"
      unfolding left [symmetric] by simp
    moreover have "take (length (unread os)) (drop (unat (os_consumed os)) (os_buf os)) = unread os"
      using buf_view_take [OF ok] len by (simp add: unread_def)
    moreover have "dead net ?os1" "unread ?os1 = unread os"
      using dead by (simp_all add: dead_def unread_def)
    ultimately show ?thesis by auto
  qed
  show "\<exists>os1. read_https net h ?os1 0 need = Some (os1, None, 0) \<and> dead net os1 \<and> unread os1 = unread os"
    if "length (unread os) < unat need" "length (unread os) \<le> 512"
  proof -
    have "read_https net h ?os1 0 need = read_https_loop net h ?os2 need"
      using in_buf that(1) cmp by (simp add: read_https_def Let_def)
    moreover have "dead net ?os2" "unread ?os2 = unread os"
      using dead buf_slide [OF ok] by (simp_all add: dead_def unread_def)
    moreover have "os_avail ?os2 < need" "unat (os_avail ?os2) \<le> 512"
      using left that by (simp_all add: word_less_nat_alt)
    ultimately show ?thesis
      using dead_loop [of net ?os2 need h] by simp
  qed
qed

lemma get_line_loop_hangs:
  assumes "dead net os" "CHR 0x0A \<notin> set (unread os)" "length (unread os) \<le> 512" "line_len \<in> {0, of_nat (length (unread os))}"
  shows "get_line_loop net h os line_len = None"
proof (rule ccontr)
  let ?stuck = "\<lambda>net os line_len. dead net os \<and> CHR 0x0A \<notin> set (unread os) \<and> length (unread os) \<le> 512
    \<and> line_len \<in> {0, of_nat (length (unread os))}"
  assume "get_line_loop net h os line_len \<noteq> None"
  then obtain r where r: "get_line_loop net h os line_len = Some r"
    by blast
  have "\<not> ?stuck net os line_len" if "get_line_loop net h os line_len = Some r" for net h os line_len
  proof (rule get_line_loop.raw_induct [where P = "\<lambda>net h os line_len r. \<not> ?stuck net os line_len", OF _ that], goal_cases)
    case (1 loop net h os line_len r)
    show ?case
    proof
      assume a: "?stuck net os line_len"
      let ?n = "length (unread os)"
      have n: "unat (of_nat ?n :: size_t) = ?n"
        using a by (intro unat_of_nat_small) simp
      then have "unat (line_len + 1) = unat line_len + 1" and need: "unat (line_len + 1) \<le> 1024"
        using a by (auto simp: unat_add_small)
      obtain os1 p len where rd: "read_https net h (os\<lparr>os_length_remaining := INT64_MAX\<rparr>) 0 (line_len + 1) = Some (os1, p, len)"
        and os1: "dead net os1" "unread os1 = unread os" and len: "len \<in> {0, of_nat ?n}"
        and p: "set (take (unat len) (case p of None \<Rightarrow> [] | Some b \<Rightarrow> b)) \<subseteq> set (unread os)"
      proof (cases "unat (line_len + 1) \<le> ?n")
        case True
        then show thesis
          using dead_read(1) [OF _ need, of net os h] a n by (auto intro: that)
      next
        case False
        then show thesis
          using dead_read(2) [OF _ need, of net os h] a by (auto intro: that)
      qed
      let ?line = "take (unat len) (case p of None \<Rightarrow> [] | Some b \<Rightarrow> b)"
      have "strchr ?line (CHR 0x0A) = None"
        using p a by (auto simp: strchr_None_iff)
      moreover have "\<not> 512 < len"
        using len a n by (auto simp: word_less_nat_alt)
      ultimately have "loop net h os1 len = Some r"
        using "1"(2) rd by (auto simp: Let_def)
      then have "\<not> ?stuck net os1 len"
        by (rule "1"(1))
      with os1 len a show False
        by simp
    qed
  qed
  from this [OF r] assms show False
    by blast
qed

lemma get_line_dead:
  assumes "dead net os"
  shows "get_line net h os = None \<longleftrightarrow> CHR 0x0A \<notin> set (unread os) \<and> length (unread os) \<le> 512"
proof
  assume "CHR 0x0A \<notin> set (unread os) \<and> length (unread os) \<le> 512"
  then show "get_line net h os = None"
    using get_line_loop_hangs [OF assms, of 0 h] by (simp add: get_line_def)
next
  assume none: "get_line net h os = None"
  let ?n = "length (unread os)"
  show "CHR 0x0A \<notin> set (unread os) \<and> ?n \<le> 512"
  proof (rule ccontr)
    assume c: "\<not> ?thesis"
    then have "unat (1 :: size_t) \<le> ?n"
      by (cases "unread os") auto
    then obtain os1 b where rd: "read_https net h (os\<lparr>os_length_remaining := INT64_MAX\<rparr>) 0 1 = Some (os1, Some b, of_nat ?n)"
      and b: "take ?n b = unread os"
      using dead_read(1) [OF assms, of 1 h] by auto
    have "?n < 2 ^ 63"
      using assms length_unread [OF assms] by (auto simp: dead_def buf_ok_def)
    then have n: "unat (of_nat ?n :: size_t) = ?n"
      by (intro unat_of_nat_small) simp
    have "strchr (unread os) (CHR 0x0A) = None \<Longrightarrow> 512 < (of_nat ?n :: size_t)"
      using c n by (auto simp: strchr_None_iff word_less_nat_alt)
    then have "get_line_loop net h os 0 \<noteq> None"
      using rd b n by (subst get_line_loop.simps) (auto simp: Let_def split: option.splits)
    with none show False
      by (simp add: get_line_def)
  qed
qed


subsection \<open>Sending the request\<close>

text \<open>\<open>sent fd n\<close> is what the peer has been sent; a successful write adds what it has taken.\<close>

definition send_law :: "('a, 'x, 'n) net \<Rightarrow> (int \<Rightarrow> 'n \<Rightarrow> bytes) \<Rightarrow> bool" where
  "send_law net sent \<longleftrightarrow>
     (\<forall>fd data n w n'. n_send net fd data n = (w, n') \<longrightarrow> 0 < w \<longrightarrow>
        nat w \<le> length data \<and> sent fd n' = sent fd n @ take (nat w) data)"

lemma send_loop_sent:
  assumes "send_law net sent" and "send_loop net fd p reqsz n = Some (True, n')" and "0 \<le> reqsz" "nat reqsz \<le> length p"
  shows "\<exists>ws. sum_list ws = nat reqsz \<and> (\<forall>w \<in> set ws. 0 < w) \<and> sent fd n' = sent fd n @ concat (map (\<lambda>w. take w p) ws)"
  using assms(2-)
proof (induction "nat reqsz" arbitrary: reqsz n rule: less_induct)
  case less
  show ?case
  proof (cases "reqsz = 0")
    case True
    then have "n' = n"
      using less.prems(1) by (simp add: send_loop.simps)
    with True show ?thesis
      by (intro exI [of _ "[]"]) simp
  next
    case False
    obtain w n1 where w: "n_send net fd (take (nat reqsz) p) n = (w, n1)"
      by fastforce
    have pos: "0 < w" and rest: "send_loop net fd p (reqsz - w) n1 = Some (True, n')"
      using less.prems(1) False w by (auto simp: send_loop.simps [of net fd p reqsz n] split: if_splits)
    have le: "nat w \<le> nat reqsz" and s1: "sent fd n1 = sent fd n @ take (nat w) p"
      using assms(1) w pos less.prems(2,3) unfolding send_law_def by fastforce+
    have "\<exists>ws. sum_list ws = nat (reqsz - w) \<and> (\<forall>w \<in> set ws. 0 < w)
        \<and> sent fd n' = sent fd n1 @ concat (map (\<lambda>w. take w p) ws)"
      by (rule less.hyps [OF _ rest]) (use False pos le less.prems(2,3) in auto)
    then obtain ws where "sum_list ws = nat (reqsz - w)" "\<forall>w \<in> set ws. 0 < w"
        "sent fd n' = sent fd n1 @ concat (map (\<lambda>w. take w p) ws)"
      by blast
    then show ?thesis
      using s1 pos le by (intro exI [of _ "nat w # ws"]) (auto simp: nat_diff_distrib)
  qed
qed


subsection \<open>A whole response\<close>

abbreviation CRLF :: string where
  "CRLF \<equiv> [CHR 0x0D, CHR 0x0A]"

definition mk_response :: "string \<Rightarrow> string list \<Rightarrow> bytes \<Rightarrow> bytes" where
  "mk_response status hdrs body = status @ CRLF @ concat (map (\<lambda>l. l @ CRLF) hdrs) @ CRLF @ body"

definition line_ok :: "string \<Rightarrow> bool" where
  "line_ok l \<longleftrightarrow> CHR 0x0A \<notin> set l \<and> NUL \<notin> set l \<and> length l < 512"

text \<open>What the header lines of a response say, read from the first to the last.\<close>

fun header_fold :: "string list \<Rightarrow> int \<times> string option \<Rightarrow> int \<times> string option" where
  "header_fold [] s = s"
| "header_fold (l # ls) (content_length, location) =
     (case strchr l (CHR '':'') of
        None \<Rightarrow> header_fold ls (content_length, location)
      | Some keysep \<Rightarrow>
          let key = trim (before l keysep); value = trim (drop 1 keysep)
          in if strcasecmp_eq key ''content-length'' then header_fold ls (strtoll 0 value, location)
             else if strcasecmp_eq key ''location'' then header_fold ls (content_length, Some value)
             else header_fold ls (content_length, location))"

lemma get_line_crlf:
  assumes "recv_law net wp wx" "steady net wp wx h" "at_text wp wx os (l @ CRLF @ rest)" "line_ok l"
  shows "\<exists>os'. get_line net h os = Some (Some l, os') \<and> at_text wp wx os' rest"
proof -
  have "cstr (chomp (l @ [CHR 0x0D])) = l"
    using assms(4) by (simp add: chomp_def line_ok_def cstr_id)
  then show ?thesis
    using get_line_ok [OF assms(1,2), of os "l @ [CHR 0x0D]" rest] assms(3,4) by (simp add: line_ok_def)
qed

lemma header_loop_ok:
  assumes "recv_law net wp wx" "steady net wp wx h"
    and "\<forall>l \<in> set hdrs. line_ok l \<and> l \<noteq> []"
    and "at_text wp wx os (concat (map (\<lambda>l. l @ CRLF) hdrs) @ CRLF @ body)"
  shows "\<exists>os'. header_loop net h os cl loc = Some (Some (header_fold hdrs (cl, loc)), os') \<and> at_text wp wx os' body"
  using assms(3,4)
proof (induction hdrs arbitrary: os cl loc)
  case Nil
  then obtain os' where "get_line net h os = Some (Some [], os')" "at_text wp wx os' body"
    using get_line_crlf [OF assms(1,2), of os "[]" body] by (auto simp: line_ok_def)
  then show ?case
    by (subst header_loop.simps) simp
next
  case (Cons l hdrs)
  then obtain os1 where l: "get_line net h os = Some (Some l, os1)"
    and at1: "at_text wp wx os1 (concat (map (\<lambda>l. l @ CRLF) hdrs) @ CRLF @ body)"
    using get_line_crlf [OF assms(1,2), of os l "concat (map (\<lambda>l. l @ CRLF) hdrs) @ CRLF @ body"] by auto
  have IH: "\<exists>os'. header_loop net h os1 cl' loc' = Some (Some (header_fold hdrs (cl', loc')), os') \<and> at_text wp wx os' body"
    for cl' loc'
    using Cons.IH [OF _ at1] Cons.prems(1) by simp
  have "l \<noteq> []"
    using Cons.prems(1) by simp
  with l show ?case
    using IH by (subst header_loop.simps) (auto simp: Let_def split: option.splits)
qed

lemma http_response_ok:
  assumes "recv_law net wp wx" "steady net wp wx h"
    and "line_ok status" "strchr status (CHR '' '') = Some code" "atoi code = 200"
    and "\<forall>l \<in> set hdrs. line_ok l \<and> l \<noteq> []"
    and "fst (header_fold hdrs (- 1, None)) = int (length body)"
    and "at_text wp wx os (mk_response status hdrs body)"
  shows "\<exists>os'. http_response net h os = Some (Http_ready os' (of_nat (length body)))
    \<and> https_inv wp wx os' \<and> https_pending wp wx os' = body"
proof -
  obtain os1 where l: "get_line net h os = Some (Some status, os1)"
    and at1: "at_text wp wx os1 (concat (map (\<lambda>l. l @ CRLF) hdrs) @ CRLF @ body)"
    using get_line_crlf [OF assms(1,2), of os status "concat (map (\<lambda>l. l @ CRLF) hdrs) @ CRLF @ body"] assms(3,8)
    by (auto simp: mk_response_def)
  obtain loc where f: "header_fold hdrs (- 1, None) = (int (length body), loc)"
    using assms(7) by (cases "header_fold hdrs (- 1, None)") simp
  obtain os2 where hd: "header_loop net h os1 (- 1) None = Some (Some (int (length body), loc), os2)"
    and at2: "at_text wp wx os2 body"
    using header_loop_ok [OF assms(1,2,6) at1, of "- 1" None] f by auto
  let ?os3 = "os2\<lparr>os_length_remaining := of_nat (length body)\<rparr>"
  have "http_response net h os = Some (Http_ready ?os3 (of_nat (length body)))"
    using l assms(4,5) hd by (simp add: http_response_def)
  moreover have "length body \<le> max_stream"
    using at2 by (auto simp: at_text_def https_core_def)
  then have "unat (of_nat (length body) :: uint64) = length body" "length body < 2 ^ 63"
    by (simp_all add: unat_of_nat_small max_stream_def)
  then have "https_inv wp wx ?os3"
    using at2 by (auto simp: https_inv_def https_core_def at_text_def)
  moreover have "https_pending wp wx ?os3 = body"
    using at2 by (simp add: at_text_def)
  ultimately show ?thesis
    by blast
qed

end
