(* ===== verification/Download.thy ===== *)
theory Download
  imports Tar Zip Http
begin

text \<open>
  \<^verbatim>\<open>tools/download/download.c\<close>: the program that fetches and unpacks what a manifest lists, with
  its two map files \<^verbatim>\<open>download.done\<close> and \<^verbatim>\<open>download.hash\<close>.  The files of the program itself are \<open>w_files\<close>; what is
  unpacked and deleted goes through the log of system calls \<open>w_log\<close>.
\<close>

subsection \<open>Fields of a line\<close>

definition trim :: "string \<Rightarrow> string" where
  "trim s =
     rev (dropWhile (\<lambda>c. c = CHR '' '' \<or> c = CHR 0x09 \<or> c = CHR 0x0D \<or> c = CHR 0x0A)
       (rev (dropWhile (\<lambda>c. c = CHR '' '' \<or> c = CHR 0x09) s)))"

text \<open>The Linux branch of the platform test.\<close>

definition is_host_platform :: "string option \<Rightarrow> bool" where
  "is_host_platform platform = (case platform of None \<Rightarrow> True | Some p \<Rightarrow> trim p = ''linux'')"

definition ends_with :: "string \<Rightarrow> nat \<Rightarrow> string \<Rightarrow> bool" where
  "ends_with s sz test \<longleftrightarrow> length test \<le> sz \<and> drop (sz - length test) s = test"


subsection \<open>Map files\<close>

text \<open>\<^verbatim>\<open>fgets(line, n, f)\<close>: at most \<open>n - 1\<close> bytes, up to and including a line end.\<close>

fun fgets_text :: "nat \<Rightarrow> bytes \<Rightarrow> bytes \<times> bytes" where
  "fgets_text 0 s = ([], s)"
| "fgets_text (Suc n) [] = ([], [])"
| "fgets_text (Suc n) (c # s) =
     (if c = CHR 0x0A then ([c], s) else (let (l, r) = fgets_text n s in (c # l, r)))"

definition fgets :: "nat \<Rightarrow> bytes \<Rightarrow> (string \<times> bytes) option" where
  "fgets n s = (if s = [] then None else (let (l, r) = fgets_text (n - 1) s in Some (cstr l, r)))"

lemma fgets_text_append: "fgets_text n s = (l, r) \<Longrightarrow> s = l @ r"
  by (induction n s arbitrary: l r rule: fgets_text.induct) (auto split: prod.splits if_splits)

lemma fgets_text_ne: "fgets_text (Suc n) s = (l, r) \<Longrightarrow> s \<noteq> [] \<Longrightarrow> l \<noteq> []"
  by (cases s) (auto split: prod.splits if_splits)

lemma fgets_length:
  assumes "fgets n s = Some (l, r)" "1 < n"
  shows "length r < length s"
proof -
  have ne: "s \<noteq> []"
    using assms(1) by (auto simp: fgets_def)
  then obtain l' where t: "fgets_text (n - 1) s = (l', r)"
    using assms(1) by (auto simp: fgets_def split: prod.splits)
  moreover obtain m where "n - 1 = Suc m"
    using assms(2) by (cases "n - 1") auto
  ultimately have "l' \<noteq> []"
    using fgets_text_ne ne by metis
  then show ?thesis
    using fgets_text_append [OF t] by simp
qed

text \<open>
  The two fields of a line.  A missing field is a null pointer that \<open>trim\<close> is called on: the inner
  \<open>None\<close>.
\<close>

definition map_fields :: "string \<Rightarrow> (string \<times> string) option" where
  "map_fields line =
     (case strtok line (CHR '','') of
        (None, _) \<Rightarrow> None
      | (Some fkey, rest) \<Rightarrow>
          (case strtok rest (CHR '','') of
             (None, _) \<Rightarrow> None
           | (Some fval, _) \<Rightarrow> Some (trim fkey, trim fval)))"

abbreviation NOVAL :: int where
  "NOVAL \<equiv> - 1"

abbreviation MATCH :: int where
  "MATCH \<equiv> 0"

abbreviation MISMATCH :: int where
  "MISMATCH \<equiv> 1"

function test_map_loop :: "bytes \<Rightarrow> string \<Rightarrow> string \<Rightarrow> int option" where
  "test_map_loop f key val =
     (case fgets 256 f of
        None \<Rightarrow> Some NOVAL
      | Some (line, rest) \<Rightarrow>
          (case map_fields line of
             None \<Rightarrow> None
           | Some (fkey, fval) \<Rightarrow>
               if fkey = key then Some (if fval \<noteq> val then MISMATCH else MATCH)
               else test_map_loop rest key val))"
  by pat_completeness auto
termination
  by (relation "measure (\<lambda>(f, key, val). length f)") (auto dest: fgets_length)

declare test_map_loop.simps [simp del]

text \<open>The result is \<open>None\<close> when a null pointer is dereferenced.\<close>

definition test_map :: "bytes option \<Rightarrow> string \<Rightarrow> string \<Rightarrow> int option" where
  "test_map file key val = (case file of None \<Rightarrow> Some NOVAL | Some f \<Rightarrow> test_map_loop f key val)"

function update_map_loop :: "bytes \<Rightarrow> string \<Rightarrow> bytes option" where
  "update_map_loop f key =
     (case fgets 256 f of
        None \<Rightarrow> Some []
      | Some (line, rest) \<Rightarrow>
          (case map_fields line of
             None \<Rightarrow> None
           | Some (fkey, fval) \<Rightarrow>
               map_option (\<lambda>out. (if fkey \<noteq> key then fkey @ '','' @ fval @ [CHR 0x0A] else []) @ out)
                 (update_map_loop rest key)))"
  by pat_completeness auto
termination
  by (relation "measure (\<lambda>(f, key). length f)") (auto dest: fgets_length)

declare update_map_loop.simps [simp del]

text \<open>
  The files the program names itself, without those that are missing or cannot be opened for reading, and
  what the system decides about them: which requests to create and rename a file it grants, whether
  \<^verbatim>\<open>download.tmp\<close> can be opened again, and what a file holds in the end of the text that was
  written to it, where the program does not look at the results of \<^verbatim>\<open>fprintf\<close>, \<^verbatim>\<open>fflush\<close> and \<^verbatim>\<open>fclose\<close>:
  \<open>fe_kept fe f t\<close> may be any text.
\<close>

type_synonym files = "string \<rightharpoonup> bytes"

record fs_env =
  fe_create :: "string \<Rightarrow> bool"
  fe_rename :: "string \<Rightarrow> string \<Rightarrow> bool"
  fe_reopen :: "string \<Rightarrow> bool"
  fe_kept :: "string \<Rightarrow> bytes \<Rightarrow> bytes"

definition update_map :: "fs_env \<Rightarrow> string \<Rightarrow> string \<Rightarrow> string \<Rightarrow> files \<Rightarrow> (int \<times> files) option" where
  "update_map fe file key val fs =
     (if \<not> fe_create fe ''download.map'' then Some (- 1, fs)
      else case (case fs file of None \<Rightarrow> Some [] | Some f \<Rightarrow> update_map_loop f key) of
             None \<Rightarrow> None
           | Some out \<Rightarrow>
               let text = fe_kept fe ''download.map'' (out @ key @ '','' @ val @ [CHR 0x0A]);
                   fs1 = (fs(file := None))(''download.map'' \<mapsto> text)
               in if fe_rename fe ''download.map'' file
                  then Some (0, (fs1(''download.map'' := None))(file \<mapsto> text))
                  else Some (- 1, fs1))"


subsection \<open>Deleting what was unpacked before\<close>

text \<open>
  \<open>es\<close> is what \<^verbatim>\<open>readdir\<close> lists in the directory \<open>path\<close>.  Its names are removed one by one relative to the
  directory, whatever the earlier removals gave.
\<close>

definition is_dot :: "string \<Rightarrow> bool" where
  "is_dot name \<longleftrightarrow> name = ''.'' \<or> name = ''..''"

fun delete_dir :: "env \<Rightarrow> string \<Rightarrow> (string \<times> fnode) list \<Rightarrow> sys_log \<Rightarrow> sys_log" where
  "delete_dir e path [] w = w"
| "delete_dir e path ((name, node) # es) w =
     (if is_dot name then delete_dir e path es w
      else let p = path @ ''/'' @ name
           in case node of
                Fn_dir sub \<Rightarrow>
                  delete_dir e path es (snd (do_sys e (Sys_rmdir p) (delete_dir e p sub w)))
              | Fn_locked \<Rightarrow> delete_dir e path es (snd (do_sys e (Sys_rmdir p) w))
              | Fn_other \<Rightarrow> delete_dir e path es (snd (do_sys e (Sys_unlink p) w)))"

text \<open>
  A path that cannot be opened, a dangling link for one, is left as it is.
\<close>

definition delete_path :: "env \<Rightarrow> string \<Rightarrow> sys_log \<Rightarrow> sys_log" where
  "delete_path e path w =
     (case e_open e w path of
        None \<Rightarrow> w
      | Some (Fn_dir es) \<Rightarrow> snd (do_sys e (Sys_rmdir path) (delete_dir e path es w))
      | Some Fn_locked \<Rightarrow> snd (do_sys e (Sys_rmdir path) w)
      | Some Fn_other \<Rightarrow> snd (do_sys e (Sys_unlink path) w))"

text \<open>A file of the program itself goes with a name that was removed.\<close>

fun forget :: "sys_log \<Rightarrow> files \<Rightarrow> files" where
  "forget [] fs = fs"
| "forget ((Sys_unlink p, True) # l) fs = forget l (fs(p := None))"
| "forget (_ # l) fs = forget l fs"


subsection \<open>The manifest\<close>

text \<open>
  Everything outside the program: the heap, the system calls of the extraction, the granted requests on
  files, the network with BearSSL, its SHA-256, xz-embedded and zlib.
\<close>

record ('a, 'x, 'n, 'h, 'd, 'z) outside =
  o_heap :: heap
  o_env :: env
  o_fs :: fs_env
  o_chdir :: "string \<Rightarrow> bool"
  o_lock :: bool
  o_net :: "('a, 'x, 'n) net"
  o_os_size :: size_t
  o_sha_init :: 'h
  o_sha_update :: "'h \<Rightarrow> bytes \<Rightarrow> 'h"
  o_sha_out :: "'h \<Rightarrow> bytes"
  o_xz_init :: "'d option"
  o_xz_run :: "'d xz_run"
  o_z_init :: "bool \<Rightarrow> int \<Rightarrow> 'z option"
  o_z_run :: "'z zlib_run"

record 'n world =
  w_files :: files
  w_log :: sys_log
  w_net :: 'n

text \<open>
  How a part of \<^verbatim>\<open>main\<close> ends: with a value to go on with, by returning from \<^verbatim>\<open>main\<close>, by
  dereferencing a null pointer, or not at all.
\<close>

datatype 'v outcome = Go 'v | Return int | Crash | Hang

text \<open>The manifest is created when it is missing; its text ends at the first NUL.\<close>

definition open_manifest :: "('a, 'x, 'n, 'h, 'd, 'z) outside \<Rightarrow> 'n world \<Rightarrow> string outcome \<times> 'n world" where
  "open_manifest o' w =
     (let created = (w_files w ''download.manifest'' = None);
          text = (case w_files w ''download.manifest'' of None \<Rightarrow> [] | Some b \<Rightarrow> b);
          w1 = (if created then w\<lparr>w_files := (w_files w)(''download.manifest'' \<mapsto> [])\<rparr> else w)
      in if created \<and> \<not> fe_create (o_fs o') ''download.manifest'' then (Return 3, w)
         else if \<not> o_lock o' then (Return 3, w1)
         else if \<not> grant (o_heap o') (of_nat (length text) + 1) then (Return 5, w1)
         else (Go (cstr text), w1))"

fun hex_digit :: "nat \<Rightarrow> char" where
  "hex_digit n = (if n < 10 then char_of (48 + n) else char_of (87 + n))"

definition hex_bytes :: "bytes \<Rightarrow> string" where
  "hex_bytes bs = concat (map (\<lambda>c. [hex_digit (of_char c div 16), hex_digit (of_char c mod 16)]) bs)"

definition sha_string :: "bytes \<Rightarrow> string" where
  "sha_string hash = ''sha256:'' @ hex_bytes hash"

text \<open>
  Fetching a URL into \<^verbatim>\<open>download.tmp\<close> and checking it against \<^verbatim>\<open>download.hash\<close>: the file that is then
  unpacked.  It is closed and opened again; when it cannot be opened, \<^verbatim>\<open>fseek\<close> is called on a null pointer.
\<close>

definition reopen_tmp :: "('a, 'x, 'n, 'h, 'd, 'z) outside \<Rightarrow> bytes \<Rightarrow> 'n world \<Rightarrow> FILE outcome \<times> 'n world" where
  "reopen_tmp o' body w =
     (if fe_reopen (o_fs o') ''download.tmp'' then (Go (open_FILE (fe_kept (o_fs o') ''download.tmp'' body)), w)
      else (Crash, w))"

definition check_hash ::
  "('a, 'x, 'n, 'h, 'd, 'z) outside \<Rightarrow> string \<Rightarrow> string \<Rightarrow> bytes \<Rightarrow> 'n world \<Rightarrow> FILE outcome \<times> 'n world" where
  "check_hash o' url str body w =
     (case test_map (w_files w ''download.hash'') url str of
        None \<Rightarrow> (Crash, w)
      | Some r \<Rightarrow>
          if r = MATCH then reopen_tmp o' body w
          else if r = MISMATCH then (Return 10, w)
          else (case update_map (o_fs o') ''download.hash'' url str (w_files w) of
                  None \<Rightarrow> (Crash, w)
                | Some (err, fs) \<Rightarrow>
                    if err \<noteq> 0 then (Return 11, w\<lparr>w_files := fs\<rparr>)
                    else reopen_tmp o' body (w\<lparr>w_files := fs\<rparr>)))"

definition fetch_http ::
  "('a, 'x, 'n, 'h, 'd, 'z) outside \<Rightarrow> string \<Rightarrow> 'n world \<Rightarrow> FILE outcome \<times> 'n world" where
  "fetch_http o' url w =
     (let h = o_heap o'; net = o_net o'
      in case open_http_downloader net h (o_os_size o') url (w_net w) of
           None \<Rightarrow> (Hang, w)
         | Some (Inl n1) \<Rightarrow> (Return 5, w\<lparr>w_net := n1\<rparr>)
         | Some (Inr (os, sz)) \<Rightarrow>
             (case open_hash h (Some os) (o_sha_init o') of
                Opened s \<Rightarrow>
                  if \<not> fe_create (o_fs o') ''download.tmp'' then (Return 6, w\<lparr>w_net := os_net os\<rparr>)
                  else (case extract_file (o_env o') (read_hash (o_sha_update o') (read_https net h)) s ''download.tmp'' sz (w_log w) of
                          None \<Rightarrow> (Hang, w)
                        | Some (err, s1, l1) \<Rightarrow>
                            let body = written ''download.tmp'' (drop (length (w_log w)) l1);
                                w1 = w\<lparr>w_log := l1, w_net := os_net (hs_source s1),
                                       w_files := (w_files w)(''download.tmp'' \<mapsto> fe_kept (o_fs o') ''download.tmp'' body)\<rparr>
                            in if err \<noteq> 0 then (Return (- 1), w1)
                               else check_hash o' url (sha_string (o_sha_out o' (hs_hash s1))) body w1)
              | _ \<Rightarrow> (Return 5, w\<lparr>w_net := close_https net os\<rparr>)))"

definition fetch ::
  "('a, 'x, 'n, 'h, 'd, 'z) outside \<Rightarrow> string \<Rightarrow> 'n world \<Rightarrow> FILE outcome \<times> 'n world" where
  "fetch o' url w =
     (if strncmp_eq url ''http://'' 7 \<or> strncmp_eq url ''https://'' 8 then fetch_http o' url w
      else if strncmp_eq url ''file:'' 5
      then (case w_files w (drop 5 url) of
              None \<Rightarrow> (Return 5, w)
            | Some b \<Rightarrow> (Go (open_FILE b), w))
      else (Return 4, w))"

text \<open>
  Unpacking by the suffix of the URL.  A stream that could not be opened is a null pointer: a tar
  container over it, and a copy from it, dereference it, as does \<open>extract_container\<close> on the null
  container that \<open>open_zip\<close> returns for a file that is no archive.
\<close>

definition opened :: "('s, 'r) open_result \<Rightarrow> 's option" where
  "opened r = (case r of Opened s \<Rightarrow> Some s | _ \<Rightarrow> None)"

definition unpack_tar ::
  "('a, 'x, 'n, 'h, 'd, 'z) outside \<Rightarrow> 's reader \<Rightarrow> 's option \<Rightarrow> string \<Rightarrow> 'n world \<Rightarrow> int outcome \<times> 'n world" where
  "unpack_tar o' rd s path w =
     (case s of
        None \<Rightarrow> (Crash, w)
      | Some s1 \<Rightarrow>
          (case extract_container (o_env o') (tar_ops (o_heap o') rd) (open_tar s1) path (w_log w) of
             None \<Rightarrow> (Hang, w)
           | Some (err, c, l) \<Rightarrow> (Go err, w\<lparr>w_log := l\<rparr>)))"

definition unpack_stream ::
  "('a, 'x, 'n, 'h, 'd, 'z) outside \<Rightarrow> 's reader \<Rightarrow> 's option \<Rightarrow> string \<Rightarrow> 'n world \<Rightarrow> int outcome \<times> 'n world" where
  "unpack_stream o' rd s path w =
     (case s of
        None \<Rightarrow> (Crash, w)
      | Some s1 \<Rightarrow>
          (case extract_path (o_env o') rd s1 ''.'' path 420 (w_log w) of
             None \<Rightarrow> (Hang, w)
           | Some (err, c, l) \<Rightarrow> (Go err, w\<lparr>w_log := l\<rparr>)))"

definition unpack_zip ::
  "('a, 'x, 'n, 'h, 'd, 'z) outside \<Rightarrow> FILE \<Rightarrow> string \<Rightarrow> 'n world \<Rightarrow> int outcome \<times> 'n world" where
  "unpack_zip o' f path w =
     (case open_zip f of
        None \<Rightarrow> (Hang, w)
      | Some None \<Rightarrow> (Crash, w)
      | Some (Some z) \<Rightarrow>
          (case extract_container (o_env o') (zip_ops (o_z_init o') (o_z_run o') (o_heap o')) z path (w_log w) of
             None \<Rightarrow> (Hang, w)
           | Some (err, c, l) \<Rightarrow> (Go err, w\<lparr>w_log := l\<rparr>)))"

definition unpack ::
  "('a, 'x, 'n, 'h, 'd, 'z) outside \<Rightarrow> string \<Rightarrow> FILE \<Rightarrow> string \<Rightarrow> 'n world \<Rightarrow> int outcome \<times> 'n world" where
  "unpack o' url f path w =
     (let h = o_heap o'; urlsz = length url; s = open_file_stream h f;
          x = opened (open_xz_decoder (o_xz_init o') h s)
      in if ends_with url urlsz ''.txz'' \<or> ends_with url urlsz ''.tar.xz''
         then unpack_tar o' (read_xz (o_xz_run o') h (read_file h)) x path w
         else if ends_with url urlsz ''.tar'' then unpack_tar o' (read_file h) s path w
         else if ends_with url urlsz ''.zip'' then unpack_zip o' f path w
         else if ends_with url urlsz ''.xz'' then unpack_stream o' (read_xz (o_xz_run o') h (read_file h)) x path w
         else unpack_stream o' (read_file h) s path w)"

text \<open>One target: delete the old one, fetch, unpack and record it.\<close>

definition remove_target :: "('a, 'x, 'n, 'h, 'd, 'z) outside \<Rightarrow> string \<Rightarrow> 'n world \<Rightarrow> 'n world" where
  "remove_target o' path w =
     (let l = delete_path (o_env o') path (w_log w)
      in w\<lparr>w_log := l, w_files := forget (drop (length (w_log w)) l) (w_files w)\<rparr>)"

definition process_target ::
  "('a, 'x, 'n, 'h, 'd, 'z) outside \<Rightarrow> string \<Rightarrow> string \<Rightarrow> 'n world \<Rightarrow> unit outcome \<times> 'n world" where
  "process_target o' path url w =
     (case test_map (w_files w ''download.done'') path url of
        None \<Rightarrow> (Crash, w)
      | Some r \<Rightarrow>
          if r = MATCH then (Go (), w)
          else case fetch o' url (remove_target o' path w) of
                 (Return k, w2) \<Rightarrow> (Return k, w2)
               | (Crash, w2) \<Rightarrow> (Crash, w2)
               | (Hang, w2) \<Rightarrow> (Hang, w2)
               | (Go f, w2) \<Rightarrow>
                   (case unpack o' url f path w2 of
                      (Return k, w3) \<Rightarrow> (Return k, w3)
                    | (Crash, w3) \<Rightarrow> (Crash, w3)
                    | (Hang, w3) \<Rightarrow> (Hang, w3)
                    | (Go err, w3) \<Rightarrow>
                        let w4 = w3\<lparr>w_files := (w_files w3)(''download.tmp'' := None)\<rparr>
                        in if err \<noteq> 0 then (Return 7, w4)
                           else (case update_map (o_fs o') ''download.done'' path url (w_files w4) of
                                   None \<Rightarrow> (Crash, w4)
                                 | Some (e, fs) \<Rightarrow>
                                     if e \<noteq> 0 then (Return 7, w4\<lparr>w_files := fs\<rparr>)
                                     else (Go (), w4\<lparr>w_files := fs\<rparr>))))"

definition process_line ::
  "('a, 'x, 'n, 'h, 'd, 'z) outside \<Rightarrow> string \<Rightarrow> 'n world \<Rightarrow> unit outcome \<times> 'n world" where
  "process_line o' line w =
     (let p = trim line
      in if take 1 p = ''#'' \<or> p = [] then (Go (), w)
         else let (path, r1) = strtok p (CHR '',''); (url, r2) = strtok r1 (CHR '','');
                  (platform, r3) = strtok r2 (CHR '','')
              in if \<not> is_host_platform platform then (Go (), w)
                 else case (path, url) of
                        (Some path, Some url) \<Rightarrow> process_target o' (trim path) (trim url) w
                      | _ \<Rightarrow> (Return 3, w))"

function main_loop ::
  "('a, 'x, 'n, 'h, 'd, 'z) outside \<Rightarrow> string \<Rightarrow> 'n world \<Rightarrow> unit outcome \<times> 'n world" where
  "main_loop o' next w =
     (if next = [] then (Return 0, w)
      else let (line, next1) = (case strchr next (CHR 0x0A) of
                                  None \<Rightarrow> (next, [])
                                | Some nl \<Rightarrow> (before next nl, drop 1 nl))
           in case process_line o' line w of
                (Go u, w1) \<Rightarrow> main_loop o' next1 w1
              | r \<Rightarrow> r)"
  by pat_completeness auto
termination
proof (relation "measure (\<lambda>(o', next, w). length next)", goal_cases)
  case (2 o' s w x line next1 outcome w1 u)
  then show ?case
    using strchr_length [of s "CHR 0x0A"]
    by (auto split: option.splits simp del: length_greater_0_conv simp flip: length_greater_0_conv)
qed simp

declare main_loop.simps [simp del]

definition main :: "('a, 'x, 'n, 'h, 'd, 'z) outside \<Rightarrow> string list \<Rightarrow> 'n world \<Rightarrow> unit outcome \<times> 'n world" where
  "main o' argv w =
     (if 1 < length argv \<and> \<not> o_chdir o' (argv ! 1) then (Return 1, w)
      else case open_manifest o' w of
             (Go manifest, w1) \<Rightarrow> main_loop o' manifest w1
           | (Return k, w1) \<Rightarrow> (Return k, w1)
           | (Crash, w1) \<Rightarrow> (Crash, w1)
           | (Hang, w1) \<Rightarrow> (Hang, w1))"

end
