(* ===== verification/Download_Correct.thy ===== *)
theory Download_Correct
  imports Download Disk
begin

text \<open>
  What \<^verbatim>\<open>download.c\<close> computes: the map files are finite maps as long as written text is kept, a target that is
  recorded as done is left alone, and deletion removes a target and what is below it, and nothing else, when
  the system removes what can be removed and the target is not a link that leads to a directory or nowhere.
\<close>

subsection \<open>Map files as finite maps\<close>

definition mk_map :: "(string \<times> string) list \<Rightarrow> bytes" where
  "mk_map kvs = concat (map (\<lambda>(k, v). k @ '','' @ v @ [CHR 0x0A]) kvs)"

definition field_ok :: "string \<Rightarrow> bool" where
  "field_ok s \<longleftrightarrow> s \<noteq> [] \<and> CHR '','' \<notin> set s \<and> CHR 0x0A \<notin> set s \<and> NUL \<notin> set s \<and> trim s = s"

definition pair_ok :: "string \<Rightarrow> string \<Rightarrow> bool" where
  "pair_ok k v \<longleftrightarrow> field_ok k \<and> field_ok v \<and> length k + length v \<le> 253"

function map_entries :: "bytes \<Rightarrow> (string \<times> string) list" where
  "map_entries s =
     (if s = [] then []
      else let l = takeWhile (\<lambda>c. c \<noteq> CHR 0x0A) s; r = drop 1 (dropWhile (\<lambda>c. c \<noteq> CHR 0x0A) s)
           in (takeWhile (\<lambda>c. c \<noteq> CHR '','') l, drop 1 (dropWhile (\<lambda>c. c \<noteq> CHR '','') l)) # map_entries r)"
  by pat_completeness auto
termination
proof (relation "measure length", goal_cases)
  case (2 s l r)
  then show ?case
    using length_dropWhile_le [of "\<lambda>c. c \<noteq> CHR 0x0A" s] by (cases s) (auto simp: less_Suc_eq_le)
qed simp

declare map_entries.simps [simp del]

lemma mk_map_simps [simp]:
  "mk_map [] = []" "mk_map ((k, v) # kvs) = k @ CHR '','' # v @ CHR 0x0A # mk_map kvs"
  "mk_map (xs @ ys) = mk_map xs @ mk_map ys"
  by (simp_all add: mk_map_def)

lemma map_entries_mk: "\<forall>(k, v) \<in> set kvs. pair_ok k v \<Longrightarrow> map_entries (mk_map kvs) = kvs"
proof (induction kvs)
  case (Cons kv kvs)
  obtain k v where kv: "kv = (k, v)"
    by fastforce
  then have ok: "field_ok k" "field_ok v"
    using Cons.prems by (auto simp: pair_ok_def)
  have tw: "takeWhile (\<lambda>c. c \<noteq> CHR 0x0A) ((k @ CHR '','' # v) @ CHR 0x0A # mk_map kvs) = k @ CHR '','' # v"
    "dropWhile (\<lambda>c. c \<noteq> CHR 0x0A) ((k @ CHR '','' # v) @ CHR 0x0A # mk_map kvs) = CHR 0x0A # mk_map kvs"
    using ok by (intro takeWhile_append_stop dropWhile_append_stop; auto simp: field_ok_def)+
  have tw2: "takeWhile (\<lambda>c. c \<noteq> CHR '','') (k @ CHR '','' # v) = k"
    "dropWhile (\<lambda>c. c \<noteq> CHR '','') (k @ CHR '','' # v) = CHR '','' # v"
    using ok by (intro takeWhile_append_stop dropWhile_append_stop; auto simp: field_ok_def)+
  have "map_entries (mk_map (kv # kvs)) = (k, v) # map_entries (mk_map kvs)"
    using tw tw2 kv by (subst map_entries.simps) (simp add: Let_def)
  with Cons kv show ?case
    by simp
qed (simp add: map_entries.simps)

lemma dropWhile_eq_self: "dropWhile P xs = xs \<longleftrightarrow> xs = [] \<or> \<not> P (hd xs)"
proof (cases xs)
  case (Cons x ys)
  have "length (dropWhile P ys) \<le> length ys"
    by (rule length_dropWhile_le)
  then have "dropWhile P ys \<noteq> x # ys"
    by auto
  with Cons show ?thesis
    by auto
qed simp

lemma trim_id_iff:
  assumes "s \<noteq> []"
  shows "trim s = s \<longleftrightarrow> hd s \<notin> {CHR '' '', CHR 0x09} \<and> last s \<notin> {CHR '' '', CHR 0x09, CHR 0x0D, CHR 0x0A}"
proof -
  let ?p = "\<lambda>c. c = CHR '' '' \<or> c = CHR 0x09" and ?q = "\<lambda>c. c = CHR '' '' \<or> c = CHR 0x09 \<or> c = CHR 0x0D \<or> c = CHR 0x0A"
  have len: "length (trim s) \<le> length (dropWhile ?p s)" "length (dropWhile ?p s) \<le> length s"
    unfolding trim_def using length_dropWhile_le [of ?q "rev (dropWhile ?p s)"] length_dropWhile_le [of ?p s] by simp_all
  show ?thesis
  proof
    assume t: "trim s = s"
    then have "length (dropWhile ?p s) = length s"
      using len by simp
    then have d: "dropWhile ?p s = s"
      using dropWhile_eq_drop [of ?p s] by (metis append_Nil length_dropWhile_le takeWhile_dropWhile_id append_eq_append_conv length_append add_cancel_left_left length_0_conv)
    with t have "dropWhile ?q (rev s) = rev s"
      by (simp add: trim_def) (metis rev_rev_ident)
    with d show "hd s \<notin> {CHR '' '', CHR 0x09} \<and> last s \<notin> {CHR '' '', CHR 0x09, CHR 0x0D, CHR 0x0A}"
      using assms by (simp add: dropWhile_eq_self hd_rev)
  next
    assume h: "hd s \<notin> {CHR '' '', CHR 0x09} \<and> last s \<notin> {CHR '' '', CHR 0x09, CHR 0x0D, CHR 0x0A}"
    then have "dropWhile ?p s = s" "dropWhile ?q (rev s) = rev s"
      using assms by (simp_all add: dropWhile_eq_self hd_rev)
    then show "trim s = s"
      by (simp add: trim_def)
  qed
qed

lemma trim_newline:
  assumes "s \<noteq> []" "trim s = s"
  shows "trim (s @ [CHR 0x0A]) = s"
proof -
  let ?p = "\<lambda>c. c = CHR '' '' \<or> c = CHR 0x09" and ?q = "\<lambda>c. c = CHR '' '' \<or> c = CHR 0x09 \<or> c = CHR 0x0D \<or> c = CHR 0x0A"
  have h: "hd s \<notin> {CHR '' '', CHR 0x09}" "last s \<notin> {CHR '' '', CHR 0x09, CHR 0x0D, CHR 0x0A}"
    using assms trim_id_iff by blast+
  then have "dropWhile ?p (s @ [CHR 0x0A]) = s @ [CHR 0x0A]" "dropWhile ?q (rev s) = rev s"
    using assms(1) by (simp_all add: dropWhile_eq_self hd_rev)
  then show ?thesis
    by (simp add: trim_def)
qed

lemma fgets_text_line:
  "CHR 0x0A \<notin> set l \<Longrightarrow> length l < n \<Longrightarrow> fgets_text n (l @ CHR 0x0A # r) = (l @ [CHR 0x0A], r)"
proof (induction l arbitrary: n)
  case Nil
  then show ?case
    by (cases n) auto
next
  case (Cons c l)
  then show ?case
    by (cases n) auto
qed

lemma map_fields_two:
  assumes "field_ok k" "w \<noteq> []" "CHR '','' \<notin> set w"
  shows "map_fields (k @ CHR '','' # w) = Some (k, trim w)"
proof -
  have "hd k \<noteq> CHR '',''" "hd w \<noteq> CHR '',''"
    using assms unfolding field_ok_def by (metis hd_in_set)+
  then have nc: "dropWhile (\<lambda>c. c = CHR '','') (k @ CHR '','' # w) = k @ CHR '','' # w" "dropWhile (\<lambda>c. c = CHR '','') w = w"
    using assms by (auto simp: dropWhile_eq_self field_ok_def)
  have t1: "takeWhile (\<lambda>c. c \<noteq> CHR '','') (k @ CHR '','' # w) = k"
    "dropWhile (\<lambda>c. c \<noteq> CHR '','') (k @ CHR '','' # w) = CHR '','' # w"
    using assms by (intro takeWhile_append_stop dropWhile_append_stop; auto simp: field_ok_def)+
  have t2: "takeWhile (\<lambda>c. c \<noteq> CHR '','') w = w"
    using assms by (auto simp: takeWhile_eq_all_conv)
  have "strtok (k @ CHR '','' # w) (CHR '','') = (Some k, w)"
    using nc(1) t1 by (simp add: strtok_def)
  moreover have "fst (strtok w (CHR '','')) = Some w"
    using nc(2) t2 assms(2) by (simp add: strtok_def)
  ultimately show ?thesis
    using assms(1) by (auto simp: map_fields_def field_ok_def split: prod.splits)
qed

lemma map_fields_pair:
  assumes "field_ok k" "field_ok v"
  shows "map_fields (k @ CHR '','' # v @ [CHR 0x0A]) = Some (k, v)"
  using map_fields_two [OF assms(1), of "v @ [CHR 0x0A]"] assms(2) trim_newline [of v] by (simp add: field_ok_def)

lemma fgets_mk_map:
  assumes "pair_ok k v"
  shows "fgets 256 (mk_map ((k, v) # kvs) @ t) = Some (k @ CHR '','' # v @ [CHR 0x0A], mk_map kvs @ t)"
proof -
  have "fgets_text 255 ((k @ CHR '','' # v) @ CHR 0x0A # mk_map kvs @ t) = ((k @ CHR '','' # v) @ [CHR 0x0A], mk_map kvs @ t)"
    using assms by (intro fgets_text_line) (auto simp: pair_ok_def field_ok_def)
  moreover have "cstr (k @ CHR '','' # v @ [CHR 0x0A]) = k @ CHR '','' # v @ [CHR 0x0A]"
    using assms by (intro cstr_id) (auto simp: pair_ok_def field_ok_def)
  ultimately show ?thesis
    by (simp add: fgets_def)
qed

text \<open>A lookup passes the entries of other keys.\<close>

lemma test_map_loop_prefix:
  "\<forall>(k, v) \<in> set kvs. pair_ok k v \<Longrightarrow>
   test_map_loop (mk_map kvs @ t) key val =
     (case map_of kvs key of None \<Rightarrow> test_map_loop t key val | Some v \<Rightarrow> Some (if v \<noteq> val then MISMATCH else MATCH))"
proof (induction kvs)
  case (Cons kv kvs)
  obtain k v where kv: "kv = (k, v)"
    by fastforce
  then have "pair_ok k v"
    using Cons.prems by simp
  then show ?case
    using Cons fgets_mk_map [of k v kvs t] map_fields_pair [of k v] unfolding kv
    by (subst test_map_loop.simps) (simp add: pair_ok_def)
qed simp

lemma test_map_loop_mk:
  "\<forall>(k, v) \<in> set kvs. pair_ok k v \<Longrightarrow>
   test_map_loop (mk_map kvs) key val =
     Some (case map_of kvs key of None \<Rightarrow> NOVAL | Some v \<Rightarrow> if v \<noteq> val then MISMATCH else MATCH)"
  using test_map_loop_prefix [of kvs "[]" key val] by (simp add: test_map_loop.simps [of "[]"] fgets_def split: option.splits)

lemma update_map_loop_mk:
  "\<forall>(k, v) \<in> set kvs. pair_ok k v \<Longrightarrow>
   update_map_loop (mk_map kvs) key = Some (mk_map (filter (\<lambda>kv. fst kv \<noteq> key) kvs))"
proof (induction kvs)
  case Nil
  then show ?case
    by (subst update_map_loop.simps) (simp add: fgets_def)
next
  case (Cons kv kvs)
  obtain k v where kv: "kv = (k, v)"
    by fastforce
  then have "pair_ok k v"
    using Cons.prems by simp
  then show ?case
    using Cons fgets_mk_map [of k v kvs "[]"] map_fields_pair [of k v] unfolding kv
    by (subst update_map_loop.simps) (simp add: pair_ok_def)
qed

text \<open>
  The contract of a map file: it holds a finite map, \<open>test\<close> compares with an entry of it and \<open>upd\<close>
  replaces one.  A missing file holds the empty map.
\<close>

locale map_store =
  fixes wf :: "'f \<Rightarrow> bool"
    and content :: "'f \<Rightarrow> string \<rightharpoonup> string"
    and fits :: "string \<Rightarrow> string \<Rightarrow> bool"
    and test :: "'f \<Rightarrow> string \<Rightarrow> string \<Rightarrow> int option"
    and upd :: "'f \<Rightarrow> string \<Rightarrow> string \<Rightarrow> 'f option"
  assumes test_spec: "wf f \<Longrightarrow>
      test f k v = Some (case content f k of None \<Rightarrow> NOVAL | Some u \<Rightarrow> if u \<noteq> v then MISMATCH else MATCH)"
    and upd_wf: "wf f \<Longrightarrow> fits k v \<Longrightarrow> upd f k v = Some f' \<Longrightarrow> wf f'"
    and upd_content: "wf f \<Longrightarrow> fits k v \<Longrightarrow> upd f k v = Some f' \<Longrightarrow> content f' = (content f)(k \<mapsto> v)"
    and upd_total: "wf f \<Longrightarrow> fits k v \<Longrightarrow> upd f k v \<noteq> None"
begin

lemma test_after_upd:
  assumes "wf f" "fits k v"
  shows "\<exists>f'. upd f k v = Some f' \<and> wf f' \<and> test f' k v = Some MATCH
    \<and> (\<forall>k' v'. k' \<noteq> k \<longrightarrow> test f' k' v' = test f k' v')"
proof -
  obtain f' where f': "upd f k v = Some f'"
    using upd_total [OF assms] by blast
  note wf' = upd_wf [OF assms f'] and c = upd_content [OF assms f']
  show ?thesis
    using f' wf' by (simp add: test_spec assms(1) c)
qed

end

definition map_wf :: "bytes option \<Rightarrow> bool" where
  "map_wf fl \<longleftrightarrow>
     (case fl of
        None \<Rightarrow> True
      | Some f \<Rightarrow> f = mk_map (map_entries f) \<and> (\<forall>(k, v) \<in> set (map_entries f). pair_ok k v))"

definition map_content :: "bytes option \<Rightarrow> string \<rightharpoonup> string" where
  "map_content fl = (case fl of None \<Rightarrow> Map.empty | Some f \<Rightarrow> map_of (map_entries f))"

lemma map_wf_mk: "\<forall>(k, v) \<in> set kvs. pair_ok k v \<Longrightarrow> map_wf (Some (mk_map kvs)) \<and> map_content (Some (mk_map kvs)) = map_of kvs"
  by (simp add: map_wf_def map_content_def map_entries_mk)

lemma map_of_filter_append: "map_of (filter (\<lambda>kv. fst kv \<noteq> k) kvs @ [(k, v)]) = (map_of kvs)(k \<mapsto> v)"
  by (induction kvs) (auto simp: fun_eq_iff)

lemma test_map_spec:
  assumes "map_wf fl"
  shows "test_map fl k v = Some (case map_content fl k of None \<Rightarrow> NOVAL | Some u \<Rightarrow> if u \<noteq> v then MISMATCH else MATCH)"
proof (cases fl)
  case (Some f)
  then have f: "f = mk_map (map_entries f)" "\<forall>(k, v) \<in> set (map_entries f). pair_ok k v"
    using assms by (simp_all add: map_wf_def)
  show ?thesis
    using test_map_loop_mk [OF f(2), folded f(1), of k v] Some by (simp add: test_map_def map_content_def)
qed (simp add: test_map_def map_content_def)

text \<open>The text that is written to the file is what the file holds in the end.\<close>

definition keeps :: "fs_env \<Rightarrow> string \<Rightarrow> bool" where
  "keeps fe f \<longleftrightarrow> (\<forall>t. fe_kept fe f t = t)"

lemma update_map_ok:
  assumes "keeps fe ''download.map''"
    and "map_wf (fs fl)" "pair_ok k v" "fl \<noteq> ''download.map''" "update_map fe fl k v fs = Some (r, fs')"
  shows "r = 0 \<Longrightarrow> map_wf (fs' fl)" and "r = 0 \<Longrightarrow> map_content (fs' fl) = (map_content (fs fl))(k \<mapsto> v)"
proof -
  obtain kvs where kvs: "\<forall>(k, v) \<in> set kvs. pair_ok k v" "map_of kvs = map_content (fs fl)"
    and out: "(case fs fl of None \<Rightarrow> Some [] | Some f \<Rightarrow> update_map_loop f k) = Some (mk_map (filter (\<lambda>kv. fst kv \<noteq> k) kvs))"
  proof (cases "fs fl")
    case None
    then show thesis
      by (intro that [of "[]"]) (simp_all add: map_content_def)
  next
    case (Some f)
    then have f: "f = mk_map (map_entries f)" "\<forall>(k, v) \<in> set (map_entries f). pair_ok k v"
      using assms(2) by (simp_all add: map_wf_def)
    show thesis
      by (rule that [of "map_entries f"]) (use f Some update_map_loop_mk [OF f(2), folded f(1), of k] in \<open>simp_all add: map_content_def\<close>)
  qed
  let ?new = "filter (\<lambda>kv. fst kv \<noteq> k) kvs @ [(k, v)]"
  have line_eq: "mk_map (filter (\<lambda>kv. fst kv \<noteq> k) kvs) @ k @ '','' @ v @ [CHR 0x0A] = mk_map ?new"
    by simp
  have new: "\<forall>(k, v) \<in> set ?new. pair_ok k v"
    using kvs(1) assms(3) by auto
  have stored: "map_wf (Some (mk_map ?new))" "map_content (Some (mk_map ?new)) = (map_content (fs fl))(k \<mapsto> v)"
    using map_wf_mk [OF new] map_of_filter_append [of k kvs v] kvs(2) by (simp_all only:)
  show "r = 0 \<Longrightarrow> map_wf (fs' fl)" "r = 0 \<Longrightarrow> map_content (fs' fl) = (map_content (fs fl))(k \<mapsto> v)"
    using assms(1,5) stored unfolding keeps_def update_map_def out option.case Let_def line_eq
    by (auto simp del: mk_map_simps split: if_splits)
qed

lemma update_map_other:
  assumes "update_map fe fl k v fs = Some (r, fs')" "g \<noteq> fl" "g \<noteq> ''download.map''"
  shows "fs' g = fs g"
  using assms by (auto simp: update_map_def Let_def split: if_splits option.splits)

lemma update_map_granted:
  assumes "map_wf (fs fl)" "pair_ok k v" and "fe_create fe ''download.map''" "fe_rename fe ''download.map'' fl"
  shows "\<exists>fs'. update_map fe fl k v fs = Some (0, fs')"
proof (cases "fs fl")
  case None
  then show ?thesis
    using assms by (simp add: update_map_def Let_def)
next
  case (Some f)
  then have f: "f = mk_map (map_entries f)" "\<forall>(k, v) \<in> set (map_entries f). pair_ok k v"
    using assms(1) by (simp_all add: map_wf_def)
  show ?thesis
    using update_map_loop_mk [OF f(2), folded f(1), of k] Some assms by (simp add: update_map_def Let_def)
qed

definition permissive :: fs_env where
  "permissive = \<lparr>fe_create = (\<lambda>_. True), fe_rename = (\<lambda>_ _. True), fe_reopen = (\<lambda>_. True), fe_kept = (\<lambda>_ t. t)\<rparr>"

lemma permissive_keeps [simp]: "keeps permissive f"
  by (simp add: keeps_def permissive_def)

text \<open>
  A disk that is full: \<open>update_map\<close> reports success although nothing of the text reached the file.
\<close>

lemma update_map_lost:
  "\<exists>fs'. update_map (permissive\<lparr>fe_kept := \<lambda>_ _. []\<rparr>) fl k v fs = Some (0, fs') \<and> test_map (fs' fl) k v = Some NOVAL"
  if "map_wf (fs fl)" "pair_ok k v"
  using update_map_granted [where fs = fs and fl = fl and fe = "permissive\<lparr>fe_kept := \<lambda>_ _. []\<rparr>", OF that]
  by (auto simp: update_map_def permissive_def test_map_def test_map_loop.simps [of "[]"] fgets_def Let_def
      split: option.splits if_splits)

definition upd_store :: "string \<Rightarrow> files \<Rightarrow> string \<Rightarrow> string \<Rightarrow> files option" where
  "upd_store fl fs k v =
     (case update_map permissive fl k v fs of Some (r, fs') \<Rightarrow> if r = 0 then Some fs' else None | None \<Rightarrow> None)"

lemma map_store_file:
  assumes "fl \<noteq> ''download.map''"
  shows "map_store (\<lambda>fs. map_wf (fs fl)) (\<lambda>fs. map_content (fs fl)) pair_ok (\<lambda>fs. test_map (fs fl)) (upd_store fl)"
proof (unfold_locales, goal_cases)
  case (1 fs k v)
  then show ?case by (rule test_map_spec)
next
  case (2 fs k v fs')
  then show ?case
    using update_map_ok(1) [where fs = fs and fl = fl and k = k and v = v, OF permissive_keeps 2(1,2) assms] by (auto simp: upd_store_def split: option.splits if_splits)
next
  case (3 fs k v fs')
  then show ?case
    using update_map_ok(2) [where fs = fs and fl = fl and k = k and v = v, OF permissive_keeps 3(1,2) assms] by (auto simp: upd_store_def split: option.splits if_splits)
next
  case (4 fs k v)
  then show ?case
    using update_map_granted [where fs = fs and fl = fl and k = k and v = v and fe = permissive, OF 4(1,2)] by (auto simp: upd_store_def permissive_def)
qed

interpretation done_map: map_store "\<lambda>fs. map_wf (fs ''download.done'')" "\<lambda>fs. map_content (fs ''download.done'')"
    pair_ok "\<lambda>fs. test_map (fs ''download.done'')" "upd_store ''download.done''"
  by (rule map_store_file) simp

interpretation hash_map: map_store "\<lambda>fs. map_wf (fs ''download.hash'')" "\<lambda>fs. map_content (fs ''download.hash'')"
    pair_ok "\<lambda>fs. test_map (fs ''download.hash'')" "upd_store ''download.hash''"
  by (rule map_store_file) simp

text \<open>
  A line of more than 255 bytes is read in two pieces.  The second piece has no comma, so the field
  after it is a null pointer that is dereferenced.
\<close>

lemma fgets_text_full: "CHR 0x0A \<notin> set a \<Longrightarrow> fgets_text (length a) (a @ r) = (a, r)"
  by (induction a) auto

lemma map_fields_no_comma:
  assumes "CHR '','' \<notin> set s"
  shows "map_fields s = None"
proof (cases "strtok s (CHR '','')")
  case (Pair tok rest)
  have d1: "dropWhile (\<lambda>c. c = CHR '','') s = s"
    using assms unfolding dropWhile_eq_self by (metis hd_in_set)
  have d2: "dropWhile (\<lambda>c. c \<noteq> CHR '','') s = []"
    using assms by (auto simp: dropWhile_eq_Nil_conv)
  have "snd (strtok s (CHR '','')) = []"
    unfolding strtok_def Let_def d1 d2 by simp
  with Pair have "rest = []"
    by simp
  moreover have "strtok [] (CHR '','') = (None, [])"
    by (simp add: strtok_def)
  ultimately show ?thesis
    using Pair by (auto simp: map_fields_def split: option.splits)
qed

lemma fgets_text_within:
  "a \<noteq> [] \<Longrightarrow> n \<le> length a \<or> CHR 0x0A \<in> set a \<Longrightarrow> set (fst (fgets_text n (a @ r))) \<subseteq> set a"
proof (induction a arbitrary: n)
  case (Cons c a)
  show ?case
  proof (cases n)
    case (Suc m)
    have "set (fst (fgets_text m (a @ r))) \<subseteq> set a" if "c \<noteq> CHR 0x0A"
      using Cons.IH [of m] Cons.prems(2) that Suc by (cases "a = []") auto
    with Suc show ?thesis
      by (auto simp: case_prod_beta)
  qed simp
qed simp

lemma test_map_loop_no_comma:
  assumes "CHR '','' \<notin> set a" "a \<noteq> []" "255 \<le> length a \<or> CHR 0x0A \<in> set a"
  shows "test_map_loop (a @ rest) key val = None"
proof -
  obtain l r where l: "fgets_text 255 (a @ rest) = (l, r)"
    by fastforce
  then have "CHR '','' \<notin> set (cstr l)"
    using fgets_text_within [OF assms(2,3), of rest] assms(1) by (auto simp: cstr_def dest: set_takeWhileD)
  moreover have "fgets 256 (a @ rest) = Some (cstr l, r)"
    using assms(2) l by (simp add: fgets_def)
  ultimately show ?thesis
    by (subst test_map_loop.simps) (simp add: map_fields_no_comma)
qed

lemma fgets_full:
  assumes "length a = 255" "CHR 0x0A \<notin> set a" "NUL \<notin> set a"
  shows "fgets 256 (a @ r) = Some (a, r)"
  using fgets_text_full [OF assms(2), of r] assms(1) cstr_id [OF assms(3)] unfolding fgets_def by auto

lemma map_fields_key_only:
  assumes "field_ok k"
  shows "map_fields (k @ '','') = None"
proof -
  have "hd k \<noteq> CHR '',''" "CHR '','' \<notin> set k" "k \<noteq> []"
    using assms hd_in_set unfolding field_ok_def by metis+
  moreover from this have "takeWhile (\<lambda>c. c \<noteq> CHR '','') (k @ '','') = k" "dropWhile (\<lambda>c. c \<noteq> CHR '','') (k @ '','') = '',''"
    by (intro takeWhile_append_stop dropWhile_append_stop; auto)+
  moreover have "dropWhile (\<lambda>c. c = CHR '','') (k @ '','') = k @ '',''"
    using calculation by (simp add: dropWhile_eq_self)
  ultimately have "strtok (k @ '','') (CHR '','') = (Some k, [])"
    unfolding strtok_def Let_def by simp
  then show ?thesis
    by (simp add: map_fields_def strtok_def)
qed

lemma test_map_long_line:
  assumes "field_ok k" "field_ok v" "254 \<le> length k + length v" "key \<noteq> k"
  shows "test_map_loop (mk_map [(k, v)] @ rest) key val = None"
proof -
  consider "255 \<le> length k" | "length k = 254" | "length k \<le> 253"
    by linarith
  then show ?thesis
  proof cases
    case 1
    then show ?thesis
      using test_map_loop_no_comma [of k "CHR '','' # v @ CHR 0x0A # rest"] assms(1) by (auto simp: field_ok_def)
  next
    case 2
    then have "fgets 256 ((k @ '','') @ v @ CHR 0x0A # rest) = Some (k @ '','', v @ CHR 0x0A # rest)"
      using assms(1) by (intro fgets_full) (auto simp: field_ok_def)
    then show ?thesis
      using map_fields_key_only [OF assms(1)] by (subst test_map_loop.simps) simp
  next
    case 3
    define v1 v2 where "v1 = take (254 - length k) v" and "v2 = drop (254 - length k) v @ [CHR 0x0A]"
    have v: "v @ CHR 0x0A # rest = v1 @ v2 @ rest" and len: "length (k @ CHR '','' # v1) = 255"
      using assms(3) 3 by (simp_all add: v1_def v2_def)
    have sub: "set v1 \<subseteq> set v" "set v2 \<subseteq> set v \<union> {CHR 0x0A}"
      using set_take_subset set_drop_subset unfolding v1_def v2_def by fastforce+
    have chars: "CHR 0x0A \<notin> set (k @ CHR '','' # v1)" "NUL \<notin> set (k @ CHR '','' # v1)" "CHR '','' \<notin> set v1" "CHR '','' \<notin> set v2"
      using assms(1,2) sub by (auto simp: field_ok_def)
    have "v1 \<noteq> []"
      using len 3 by auto
    then have "map_fields (k @ CHR '','' # v1) = Some (k, trim v1)"
      by (intro map_fields_two [OF assms(1) _ chars(3)])
    then have "test_map_loop (mk_map [(k, v)] @ rest) key val = test_map_loop (v2 @ rest) key val"
      using fgets_full [OF len chars(1,2), of "v2 @ rest"] assms(4) v by (subst test_map_loop.simps) simp
    also have "\<dots> = None"
      using chars(4) by (intro test_map_loop_no_comma) (auto simp: v2_def)
    finally show ?thesis .
  qed
qed

lemma test_map_long:
  assumes "\<forall>(k, v) \<in> set kvs. pair_ok k v" "field_ok k" "field_ok v" "254 \<le> length k + length v" "key \<noteq> k"
  shows "test_map (Some (mk_map (kvs @ [(k, v)]) @ rest)) key val
    = map_option (\<lambda>u. if u \<noteq> val then MISMATCH else MATCH) (map_of kvs key)"
  using test_map_loop_prefix [OF assms(1), of "mk_map [(k, v)] @ rest"] test_map_long_line [OF assms(2-5)]
  by (simp add: test_map_def split: option.splits)


subsection \<open>Deletion\<close>

definition below :: "string \<Rightarrow> string \<Rightarrow> bool" where
  "below p q \<longleftrightarrow> (\<exists>r. q = p @ ''/'' @ r)"

lemma below_not_self [simp]: "\<not> below p p"
  by (simp add: below_def)

lemma below_child: "below (p @ ''/'' @ n) q \<Longrightarrow> below p q"
  by (auto simp: below_def)

text \<open>The paths a listing names: what is no directory, and the directories.\<close>

fun tree_files :: "string \<Rightarrow> (string \<times> fnode) list \<Rightarrow> string set" where
  "tree_files path [] = {}"
| "tree_files path ((name, node) # es) =
     (if is_dot name then {}
      else case node of Fn_other \<Rightarrow> {path @ ''/'' @ name} | Fn_locked \<Rightarrow> {} | Fn_dir sub \<Rightarrow> tree_files (path @ ''/'' @ name) sub)
     \<union> tree_files path es"

fun tree_dirs :: "string \<Rightarrow> (string \<times> fnode) list \<Rightarrow> string set" where
  "tree_dirs path [] = {}"
| "tree_dirs path ((name, node) # es) =
     (if is_dot name then {}
      else case node of Fn_dir sub \<Rightarrow> insert (path @ ''/'' @ name) (tree_dirs (path @ ''/'' @ name) sub) | _ \<Rightarrow> {})
     \<union> tree_dirs path es"

text \<open>
  A listing is complete when nothing that is stored below the directory is missing from it, and a tree of
  listings when that holds for every directory in it and none of them is locked.
\<close>

definition complete :: "(string \<rightharpoonup> node) \<Rightarrow> string set \<Rightarrow> string \<Rightarrow> (string \<times> fnode) list \<Rightarrow> bool" where
  "complete fs ds path es \<longleftrightarrow>
     (\<forall>q. below path q \<longrightarrow> (q \<in> dom fs \<longrightarrow> q \<in> tree_files path es) \<and> (q \<in> ds \<longrightarrow> q \<in> tree_dirs path es))"

fun tree_complete :: "(string \<rightharpoonup> node) \<Rightarrow> string set \<Rightarrow> string \<Rightarrow> (string \<times> fnode) list \<Rightarrow> bool" where
  "tree_complete fs ds path [] \<longleftrightarrow> True"
| "tree_complete fs ds path ((name, node) # es) \<longleftrightarrow>
     (is_dot name
      \<or> (case node of
           Fn_other \<Rightarrow> True
         | Fn_locked \<Rightarrow> False
         | Fn_dir sub \<Rightarrow> complete fs ds (path @ ''/'' @ name) sub \<and> tree_complete fs ds (path @ ''/'' @ name) sub))
     \<and> tree_complete fs ds path es"

text \<open>
  The system removes what can be removed: a file or link that is there, and a directory with nothing below it.
\<close>

definition removable :: "env \<Rightarrow> bool" where
  "removable e \<longleftrightarrow>
     (\<forall>w p. p \<in> dom (fs_of w) \<longrightarrow> e_sys e w (Sys_unlink p))
     \<and> (\<forall>w p. p \<in> dirs_of w \<longrightarrow> (\<forall>q. below p q \<longrightarrow> q \<notin> dom (fs_of w) \<and> q \<notin> dirs_of w) \<longrightarrow> e_sys e w (Sys_rmdir p))"

text \<open>
  Opening a path shows what is stored there.  Where a link is stored this asks that the link does not lead to
  a directory and is not dangling.
\<close>

definition opens_as_stored :: "env \<Rightarrow> sys_log \<Rightarrow> string \<Rightarrow> bool" where
  "opens_as_stored e w path \<longleftrightarrow>
     (case e_open e w path of
        None \<Rightarrow> path \<notin> dom (fs_of w) \<and> path \<notin> dirs_of w \<and> complete (fs_of w) (dirs_of w) path []
      | Some Fn_other \<Rightarrow> path \<notin> dirs_of w \<and> complete (fs_of w) (dirs_of w) path []
      | Some Fn_locked \<Rightarrow> False
      | Some (Fn_dir es) \<Rightarrow> path \<notin> dom (fs_of w) \<and> complete (fs_of w) (dirs_of w) path es
          \<and> tree_complete (fs_of w) (dirs_of w) path es)"

lemma tree_below: "tree_files path es \<union> tree_dirs path es \<subseteq> {q. below path q}"
proof (induction path es rule: tree_files.induct)
  case (2 path name node es)
  then show ?case
    by (auto simp: below_def split: fnode.splits if_splits) blast+
qed simp

lemma complete_mono: "complete fs ds p es \<Longrightarrow> dom fs' \<subseteq> dom fs \<Longrightarrow> ds' \<subseteq> ds \<Longrightarrow> complete fs' ds' p es"
  unfolding complete_def by (meson subsetD)

lemma tree_complete_mono:
  "tree_complete fs ds p es \<Longrightarrow> dom fs' \<subseteq> dom fs \<Longrightarrow> ds' \<subseteq> ds \<Longrightarrow> tree_complete fs' ds' p es"
  by (induction fs ds p es rule: tree_complete.induct) (auto split: fnode.splits dest: complete_mono)

lemma fs_of_snoc: "fs_of (w @ [x]) = run_call x (fs_of w)"
  by (simp add: fs_of_def)

lemma dirs_of_snoc: "dirs_of (w @ [x]) = run_dir x (dirs_of w)"
  by (simp add: dirs_of_def)

lemma Compl_insert: "- insert x A = - {x} \<inter> - A"
  by auto

lemma unlink_removes:
  assumes "removable e"
  shows "fs_of (snd (do_sys e (Sys_unlink p) w)) = fs_of w |` (- {p})"
    and "dirs_of (snd (do_sys e (Sys_unlink p) w)) = dirs_of w"
proof -
  have "p \<notin> dom (fs_of w)" if "\<not> e_sys e w (Sys_unlink p)"
    using assms that by (auto simp: removable_def)
  then show "fs_of (snd (do_sys e (Sys_unlink p) w)) = fs_of w |` (- {p})"
    by (cases "e_sys e w (Sys_unlink p)") (auto simp: do_sys_def Let_def fs_of_snoc restrict_map_def fun_eq_iff)
  show "dirs_of (snd (do_sys e (Sys_unlink p) w)) = dirs_of w"
    by (simp add: do_sys_def Let_def dirs_of_snoc)
qed

lemma rmdir_removes:
  assumes "removable e" "complete (fs_of w) (dirs_of w) p []"
  shows "fs_of (snd (do_sys e (Sys_rmdir p) w)) = fs_of w"
    and "dirs_of (snd (do_sys e (Sys_rmdir p) w)) = dirs_of w - {p}"
proof -
  have "p \<notin> dirs_of w" if "\<not> e_sys e w (Sys_rmdir p)"
    using assms that by (auto simp: removable_def complete_def)
  then show "dirs_of (snd (do_sys e (Sys_rmdir p) w)) = dirs_of w - {p}"
    by (cases "e_sys e w (Sys_rmdir p)") (auto simp: do_sys_def Let_def dirs_of_snoc)
  show "fs_of (snd (do_sys e (Sys_rmdir p) w)) = fs_of w"
    by (simp add: do_sys_def Let_def fs_of_snoc)
qed

lemma delete_dir_removes:
  assumes "removable e" "tree_complete (fs_of w) (dirs_of w) path es"
  shows "fs_of (delete_dir e path es w) = fs_of w |` (- tree_files path es)
    \<and> dirs_of (delete_dir e path es w) = dirs_of w - tree_dirs path es"
  using assms
proof (induction e path es w rule: delete_dir.induct)
  case (2 e path name node es w)
  let ?p = "path @ ''/'' @ name"
  note rest = tree_complete_mono [of "fs_of w" "dirs_of w" path es]
  consider "is_dot name" | "\<not> is_dot name" "node = Fn_other" | sub where "\<not> is_dot name" "node = Fn_dir sub"
    using "2.prems" by (cases node) auto
  then show ?case
  proof cases
    case 2
    let ?w1 = "snd (do_sys e (Sys_unlink ?p) w)"
    note un = unlink_removes [OF "2.prems"(1), of ?p w]
    have "tree_complete (fs_of ?w1) (dirs_of ?w1) path es"
      by (rule rest) (use "2.prems"(2) un in auto)
    with "2.IH" "2.prems"(1) 2 un show ?thesis
      by (auto simp: Let_def Compl_insert [of _ "tree_files path es"])
  next
    case (3 sub)
    let ?w1 = "delete_dir e ?p sub w"
    let ?w2 = "snd (do_sys e (Sys_rmdir ?p) ?w1)"
    have comp: "complete (fs_of w) (dirs_of w) ?p sub" "tree_complete (fs_of w) (dirs_of w) ?p sub"
      "tree_complete (fs_of w) (dirs_of w) path es"
      using "2.prems"(2) 3 by auto
    then have w1: "fs_of ?w1 = fs_of w |` (- tree_files ?p sub)" "dirs_of ?w1 = dirs_of w - tree_dirs ?p sub"
      using "2.IH" "2.prems"(1) 3 by auto
    then have "complete (fs_of ?w1) (dirs_of ?w1) ?p []"
      using comp(1) by (auto simp: complete_def)
    note w2 = rmdir_removes [OF "2.prems"(1) this]
    have tc: "tree_complete (fs_of ?w2) (dirs_of ?w2) path es"
      by (rule rest [OF comp(3)]) (use w1 w2 in auto)
    have "fs_of (delete_dir e path es ?w2) = fs_of ?w2 |` (- tree_files path es)
        \<and> dirs_of (delete_dir e path es ?w2) = dirs_of ?w2 - tree_dirs path es"
      by (rule "2.IH"(5) [OF 3(1) refl 3(2) "2.prems"(1) tc])
    moreover have "delete_dir e path ((name, node) # es) w = delete_dir e path es ?w2"
      using 3 by (simp add: Let_def)
    ultimately show ?thesis
      using 3 w1 w2 by (auto simp del: delete_dir.simps)
  qed (use 2 in auto)
qed (simp add: restrict_map_def)

text \<open>The disk without a path and everything below it.\<close>

definition cleared :: "string \<Rightarrow> string set" where
  "cleared path = {q. q \<noteq> path \<and> \<not> below path q}"

lemma delete_path_clears:
  assumes "removable e" "opens_as_stored e w path"
  shows "fs_of (delete_path e path w) = fs_of w |` cleared path"
    and "dirs_of (delete_path e path w) = dirs_of w \<inter> cleared path"
proof -
  note cut = cleared_def complete_def restrict_map_def fun_eq_iff
  have "fs_of (delete_path e path w) = fs_of w |` cleared path
    \<and> dirs_of (delete_path e path w) = dirs_of w \<inter> cleared path"
  proof (cases "e_open e w path")
    case None
    then show ?thesis
      using assms(2) by (auto simp: delete_path_def opens_as_stored_def cut)
  next
    case (Some node)
    show ?thesis
    proof (cases node)
      case Fn_other
      then show ?thesis
        using assms Some unlink_removes [OF assms(1), of path w] by (auto simp: delete_path_def opens_as_stored_def cut)
    next
      case Fn_locked
      then show ?thesis
        using assms(2) Some by (simp add: opens_as_stored_def)
    next
      case (Fn_dir es)
      let ?w1 = "delete_dir e path es w"
      have st: "path \<notin> dom (fs_of w)" "complete (fs_of w) (dirs_of w) path es" "tree_complete (fs_of w) (dirs_of w) path es"
        using assms(2) Some Fn_dir by (simp_all add: opens_as_stored_def)
      note w1 = delete_dir_removes [OF assms(1) st(3)]
      then have "complete (fs_of ?w1) (dirs_of ?w1) path []"
        using st(2) by (auto simp: complete_def)
      note w2 = rmdir_removes [OF assms(1) this]
      have "fs_of w |` (- tree_files path es) = fs_of w |` cleared path"
        "dirs_of w - tree_dirs path es - {path} = dirs_of w \<inter> cleared path"
        using st(1,2) tree_below [of path es] by (fastforce simp: cut)+
      then show ?thesis
        using w1 w2 Some Fn_dir by (simp add: delete_path_def)
    qed
  qed
  then show "fs_of (delete_path e path w) = fs_of w |` cleared path"
    "dirs_of (delete_path e path w) = dirs_of w \<inter> cleared path"
    by auto
qed

text \<open>
  A link to a directory is followed: everything in that directory is asked to be removed, through the link, and
  the link itself stays, since \<^verbatim>\<open>rmdir\<close> is what is called on it.
\<close>

definition removes_below :: "string \<Rightarrow> sys_call \<Rightarrow> bool" where
  "removes_below path c \<longleftrightarrow> (\<exists>q. below path q \<and> (c = Sys_unlink q \<or> c = Sys_rmdir q))"

lemma removes_below_child: "removes_below (p @ ''/'' @ n) c \<Longrightarrow> removes_below p c"
  using below_child by (auto simp: removes_below_def)

lemma grows_removal:
  "grows (removes_below path) w (snd (do_sys e (Sys_unlink (path @ ''/'' @ name)) w))"
  "grows (removes_below path) w (snd (do_sys e (Sys_rmdir (path @ ''/'' @ name)) w))"
  by (rule grows_snd_do_sys; auto simp: removes_below_def below_def)+

lemma delete_dir_grows: "grows (removes_below path) w (delete_dir e path es w)"
proof (induction e path es w rule: delete_dir.induct)
  case (2 e path name node es w)
  have "grows (removes_below path) w (delete_dir e (path @ ''/'' @ name) sub w)"
    if "grows (removes_below (path @ ''/'' @ name)) w (delete_dir e (path @ ''/'' @ name) sub w)" for sub
    by (rule grows_mono [OF that]) (rule removes_below_child)
  with 2 show ?case
    by (cases node) (simp_all add: Let_def, (metis grows_removal grows_trans append_Cons append_Nil)+)
qed simp

lemma grows_set: "grows Q w w' \<Longrightarrow> set w \<subseteq> set w'"
  by (auto simp: grows_def)

lemma delete_dir_unlinks: "q \<in> tree_files path es \<Longrightarrow> \<exists>ok. (Sys_unlink q, ok) \<in> set (delete_dir e path es w)"
proof (induction e path es w rule: delete_dir.induct)
  case (2 e path name node es w)
  have rest: "x \<in> set (delete_dir e path es w')" if "x \<in> set w'" for x w'
    using that grows_set [OF delete_dir_grows] by blast
  have step: "(Sys_unlink p, e_sys e w (Sys_unlink p)) \<in> set (snd (do_sys e (Sys_unlink p) w))" for p
    by (auto simp: do_sys_def Let_def)
  have kept: "x \<in> set (snd (do_sys e c w'))" if "x \<in> set w'" for x c w'
    using that by (auto simp: do_sys_def Let_def)
  from 2 show ?case
    by (cases node) (auto simp: Let_def split: if_splits intro: rest kept step, meson rest kept)
qed simp

lemma linked_target_stays:
  assumes "fs_of w path = Some (Link_node t)" "e_open e w path = Some (Fn_dir es)"
  shows "fs_of (delete_path e path w) path = Some (Link_node t)
    \<and> (\<forall>q \<in> tree_files path es. \<exists>ok. (Sys_unlink q, ok) \<in> set (delete_path e path w))"
proof -
  obtain l where l: "delete_dir e path es w = w @ l" "\<forall>x \<in> set l. removes_below path (fst x)"
    using delete_dir_grows [of path w e es] by (auto simp: grows_def)
  have "fold run_call l fs path = fs path" if "\<forall>x \<in> set l. removes_below path (fst x)" for fs
    using that
  proof (induction l arbitrary: fs)
    case (Cons x l)
    have "run_call x fs path = fs path"
      using Cons.prems by (cases x; cases "snd x") (auto simp: removes_below_def)
    with Cons show ?case by simp
  qed simp
  then have "fs_of (delete_dir e path es w) path = Some (Link_node t)"
    using l assms(1) by (simp add: fs_of_append)
  moreover have "delete_path e path w = delete_dir e path es w @ [(Sys_rmdir path, e_sys e (delete_dir e path es w) (Sys_rmdir path))]"
    using assms(2) by (simp add: delete_path_def do_sys_def Let_def)
  ultimately show ?thesis
    using delete_dir_unlinks [of _ path es e w] by (auto simp: fs_of_snoc)
qed


subsection \<open>Targets\<close>

text \<open>Fetching and unpacking leave the record of what is done alone.\<close>

lemma check_hash_done:
  assumes "check_hash o' url str body w = (r, w')"
  shows "w_files w' ''download.done'' = w_files w ''download.done''"
  using assms
  by (auto simp: check_hash_def reopen_tmp_def split: option.splits prod.splits if_splits
      dest: update_map_other [where g = "''download.done''"])

lemma fetch_http_done:
  assumes "fetch_http o' url w = (r, w')"
  shows "w_files w' ''download.done'' = w_files w ''download.done''"
  using assms
  by (auto simp: fetch_http_def Let_def split: option.splits sum.splits prod.splits open_result.splits if_splits
      dest: check_hash_done)

lemma fetch_done:
  assumes "fetch o' url w = (r, w')"
  shows "w_files w' ''download.done'' = w_files w ''download.done''"
  using assms by (auto simp: fetch_def split: if_splits option.splits dest: fetch_http_done)

lemma unpack_files:
  assumes "unpack o' url f path w = (r, w')"
  shows "w_files w' = w_files w"
  using assms
  by (auto simp: unpack_def unpack_tar_def unpack_stream_def unpack_zip_def Let_def
      split: if_splits option.splits prod.splits)

text \<open>
  A target that was processed is recorded, and processing it again does nothing.
\<close>

text \<open>The old target may have had the name of a file of the program.\<close>

lemma forget_cases: "forget l fs f = fs f \<or> forget l fs f = None"
  by (induction l fs rule: forget.induct) (auto simp: fun_upd_def split: if_splits)

lemma remove_target_files: "w_files (remove_target o' path w) f = w_files w f \<or> w_files (remove_target o' path w) f = None"
  using forget_cases by (simp add: remove_target_def Let_def)

lemma map_wf_None [simp]: "map_wf None" and map_content_None [simp]: "map_content None = Map.empty"
  by (simp_all add: map_wf_def map_content_def)

lemma process_target_recorded:
  assumes "keeps (o_fs o') ''download.map''" and "map_wf (w_files w ''download.done'')" "pair_ok path url" "process_target o' path url w = (Go (), w')"
  shows "map_wf (w_files w' ''download.done'')" and "map_content (w_files w' ''download.done'') path = Some url"
proof -
  let ?done = "\<lambda>w. w_files w ''download.done''"
  have "map_wf (?done w') \<and> map_content (?done w') path = Some url"
  proof (cases "test_map (?done w) path url = Some MATCH")
    case True
    then have "w' = w"
      using assms(4) by (simp add: process_target_def)
    with True assms(2) show ?thesis
      using test_map_spec [OF assms(2), of path url] by (auto split: option.splits if_splits)
  next
    case False
    let ?w1 = "remove_target o' path w"
    obtain f w2 w3 fs where f: "fetch o' url ?w1 = (Go f, w2)" and u: "unpack o' url f path w2 = (Go 0, w3)"
      and m: "update_map (o_fs o') ''download.done'' path url ((w_files w3)(''download.tmp'' := None)) = Some (0, fs)"
      and w': "w_files w' = fs"
      using assms(4) False test_map_spec [OF assms(2), of path url]
      by (auto simp: process_target_def Let_def split: option.splits prod.splits outcome.splits if_splits)
    have "?done w3 = ?done ?w1"
      using fetch_done [OF f] unpack_files [OF u] by simp
    then have wf: "map_wf (((w_files w3)(''download.tmp'' := None)) ''download.done'')"
      using assms(2) remove_target_files [of o' path w "''download.done''"] by auto
    from update_map_ok [OF assms(1) wf assms(3) _ m] show ?thesis
      using w' by simp
  qed
  then show "map_wf (w_files w' ''download.done'')" "map_content (w_files w' ''download.done'') path = Some url"
    by auto
qed

lemma process_target_again:
  assumes "keeps (o_fs o') ''download.map''" and "map_wf (w_files w ''download.done'')" "pair_ok path url" "process_target o' path url w = (Go (), w')"
  shows "process_target o'' path url w' = (Go (), w')"
  using test_map_spec [OF process_target_recorded(1) [OF assms], of path url] process_target_recorded(2) [OF assms]
  by (simp add: process_target_def)

text \<open>A body that does not have the recorded hash is not unpacked.\<close>

lemma hash_mismatch:
  assumes "map_wf (w_files w ''download.hash'')" "map_content (w_files w ''download.hash'') url = Some old" "old \<noteq> str"
  shows "check_hash o' url str body w = (Return 10, w)"
  using test_map_spec [OF assms(1), of url str] assms(2,3) by (simp add: check_hash_def)

end
