(* ===== verification/Pipeline.thy ===== *)
theory Pipeline
  imports Tar_Roundtrip Zip_Roundtrip Http_Correct Download_Correct
begin

text \<open>
  The components put together, as \<^verbatim>\<open>main\<close> of \<^verbatim>\<open>download.c\<close> does: what the program hashes is what it
  stored, what it unpacks is what it hashed, unpacking stays below the target, and an archive of the
  reference writer is unpacked to its members, through a decoder or without one.
\<close>

subsection \<open>The hash covers the stored bytes\<close>

text \<open>
  The streaming law of a hash: feeding two pieces is feeding their concatenation.  Nothing is asked of
  the source: it may fail, lie about its views or end early.
\<close>

definition streaming :: "('h \<Rightarrow> bytes \<Rightarrow> 'h) \<Rightarrow> bool" where
  "streaming upd \<longleftrightarrow> (\<forall>h a b. upd (upd h a) b = upd h (a @ b))"

definition shown :: "('h, 's) hash_stream \<Rightarrow> size_t \<Rightarrow> bytes" where
  "shown s len = (case hs_data s of None \<Rightarrow> [] | Some d \<Rightarrow> take (unat len) d)"

lemma read_hash_shown:
  assumes "read_hash upd rd s len n = Some (s1, p, len1)"
  shows "hs_hash s1 = upd (hs_hash s) (shown s len)"
    and "shown s1 len1 = take (unat len1) (case p of None \<Rightarrow> [] | Some b \<Rightarrow> b)"
  using assms by (auto simp: read_hash_def Let_def shown_def split: option.splits)

lemma written_do_sys:
  "written f (snd (do_sys e (Sys_write f bs) w)) = written f w @ (if fst (do_sys e (Sys_write f bs) w) then bs else [])"
  by (cases "e_sys e w (Sys_write f bs)") (simp_all add: do_sys_def Let_def)

definition hash_covers ::
  "('h \<Rightarrow> bytes \<Rightarrow> 'h) \<Rightarrow> string \<Rightarrow> ('h, 's) hash_stream \<Rightarrow> size_t \<Rightarrow> sys_log \<Rightarrow> int \<times> ('h, 's) hash_stream \<times> sys_log \<Rightarrow> bool" where
  "hash_covers upd f s len w r \<longleftrightarrow>
     (fst r = 0 \<longrightarrow> (\<exists>bs. written f (snd (snd r)) = written f w @ bs
       \<and> hs_hash (fst (snd r)) = upd (hs_hash s) (shown s len @ bs)))"

lemma extract_loop_hash:
  assumes law: "streaming upd" and "extract_loop e (read_hash upd rd) f pg s len recvd lp w = Some r"
  shows "hash_covers upd f s len w r"
proof -
  have "rd' = read_hash upd rd \<longrightarrow> hash_covers upd f s len w r"
    if "extract_loop e rd' f pg s len recvd lp w = Some r" for rd'
  proof (rule extract_loop.raw_induct [where P = "\<lambda>e rd' f pg s len recvd lp w r.
      rd' = read_hash upd rd \<longrightarrow> hash_covers upd f s len w r", OF _ that], goal_cases)
    case (1 loop e rd' f pg s len recvd lp w r)
    obtain s1 p len1 where rd': "rd' s len 1 = Some (s1, p, len1)"
      using "1"(2) by (auto split: option.splits)
    let ?bs = "take (unat len1) (case p of None \<Rightarrow> [] | Some b \<Rightarrow> b)"
    let ?w1 = "snd (do_sys e (Sys_write f ?bs) w)"
    show ?case
    proof
      assume rd'_def: "rd' = read_hash upd rd"
      note rd = read_hash_shown [OF rd' [unfolded rd'_def]]
      consider "len1 = 0" | "len1 \<noteq> 0" "\<not> fst (do_sys e (Sys_write f ?bs) w)"
        | (go) "len1 \<noteq> 0" "fst (do_sys e (Sys_write f ?bs) w)"
        by blast
      then show "hash_covers upd f s len w r"
      proof cases
        case go
        then obtain lp' w2 recvd' where rest: "loop e rd' f pg s1 len1 recvd' lp' w2 = Some r"
          and w2: "written f w2 = written f ?w1"
          using "1"(2) rd' by (auto simp: Let_def case_prod_beta split: if_splits)
        have "hash_covers upd f s1 len1 w2 r"
          using "1"(1) [OF rest] rd'_def by blast
        then show ?thesis
          using law go(2) w2 rd written_do_sys [of f e ?bs w] by (auto simp: streaming_def hash_covers_def)
      qed (use "1"(2) rd' rd in \<open>auto simp: case_prod_beta hash_covers_def\<close>)
    qed
  qed
  with assms(2) show ?thesis by blast
qed

lemma extract_file_hash:
  assumes "streaming upd" "extract_file e (read_hash upd rd) s f pg w = Some (0, s', w')" "hs_data s = None"
  shows "\<exists>l. w' = w @ l \<and> hs_hash s' = upd (hs_hash s) (written f l)"
proof -
  have run: "extract_loop e (read_hash upd rd) f pg s 0 0 0 w = Some (0, s', w')"
    using assms(2) by (simp add: extract_file_def)
  obtain l where "w' = w @ l"
    using extract_loop_grows [OF run] by (auto simp: grows_def)
  with extract_loop_hash [OF assms(1) run] assms(3) show ?thesis
    by (auto simp: hash_covers_def shown_def)
qed


subsection \<open>What is unpacked has the recorded hash\<close>

definition hash_alphabet :: "char set" where
  "hash_alphabet = set ''0123456789abcdefsh:''"

lemma hex_digit_set: "n < 16 \<Longrightarrow> hex_digit n \<in> hash_alphabet"
proof -
  have "\<forall>n \<in> {..<16}. hex_digit n \<in> hash_alphabet"
    by code_simp
  then show "n < 16 \<Longrightarrow> hex_digit n \<in> hash_alphabet"
    by blast
qed

lemma hex_bytes_set: "set (hex_bytes bs) \<subseteq> hash_alphabet"
proof -
  have "(of_char c :: nat) div 16 < 16" "(of_char c :: nat) mod 16 < 16" for c
    by (simp_all add: less_mult_imp_div_less)
  then show ?thesis
    by (auto simp: hex_bytes_def simp del: hex_digit.simps intro: hex_digit_set)
qed

lemma sha_string_field: "field_ok (sha_string bs)"
proof -
  have sub: "set (sha_string bs) \<subseteq> hash_alphabet"
    using hex_bytes_set [of bs] by (auto simp: sha_string_def hash_alphabet_def)
  have ne: "sha_string bs \<noteq> []" and hd: "hd (sha_string bs) = CHR ''s''"
    by (simp_all add: sha_string_def)
  have "last (sha_string bs) \<in> hash_alphabet"
    using sub last_in_set [OF ne] by blast
  then have "trim (sha_string bs) = sha_string bs"
    using trim_id_iff [OF ne] hd by (auto simp: hash_alphabet_def)
  then show ?thesis
    using sub ne by (auto simp: field_ok_def hash_alphabet_def)
qed

lemma length_sha_string: "length (sha_string bs) = 7 + 2 * length bs"
  by (induction bs) (simp_all add: sha_string_def hex_bytes_def)

text \<open>
  When \<open>check_hash\<close> lets a body pass, the map holds its hash: it did before, or there was no entry.
\<close>

lemma check_hash_pass:
  assumes "map_wf (w_files w ''download.hash'')" "pair_ok url str" "check_hash o' url str body w = (Go f, w')"
  shows "f = open_FILE (fe_kept (o_fs o') ''download.tmp'' body)" and "w_log w' = w_log w"
    and "map_content (w_files w ''download.hash'') url = Some str \<and> w_files w' = w_files w
      \<or> map_content (w_files w ''download.hash'') url = None
        \<and> update_map (o_fs o') ''download.hash'' url str (w_files w) = Some (0, w_files w')"
  using assms(3) test_map_spec [OF assms(1), of url str]
  by (auto simp: check_hash_def reopen_tmp_def split: option.splits if_splits)

lemma fetch_http_integrity:
  assumes law: "streaming (o_sha_update o')" and len: "\<forall>h. length (o_sha_out o' h) = 32"
    and wf: "map_wf (w_files w ''download.hash'')" and url: "field_ok url" "length url \<le> 182"
    and run: "fetch_http o' url w = (Go f, w')"
  defines "body \<equiv> written ''download.tmp'' (drop (length (w_log w)) (w_log w'))"
  defines "str \<equiv> sha_string (o_sha_out o' (o_sha_update o' (o_sha_init o') body))"
  shows "f_data f = fe_kept (o_fs o') ''download.tmp'' body"
    and "map_content (w_files w ''download.hash'') url \<in> {None, Some str}"
    and "map_content (w_files w ''download.hash'') url = Some str \<Longrightarrow>
      w_files w' ''download.hash'' = w_files w ''download.hash''"
    and "keeps (o_fs o') ''download.map'' \<Longrightarrow> map_content (w_files w' ''download.hash'') url = Some str"
proof -
  let ?body = "\<lambda>l1. written ''download.tmp'' (drop (length (w_log w)) l1)"
  obtain os sz s s1 l1 where s: "open_hash (o_heap o') (Some os) (o_sha_init o') = Opened s"
    and ex: "extract_file (o_env o') (read_hash (o_sha_update o') (read_https (o_net o') (o_heap o'))) s
      ''download.tmp'' sz (w_log w) = Some (0, s1, l1)"
    and ch: "check_hash o' url (sha_string (o_sha_out o' (hs_hash s1))) (?body l1)
      (w\<lparr>w_log := l1, w_net := os_net (hs_source s1),
         w_files := (w_files w)(''download.tmp'' \<mapsto> fe_kept (o_fs o') ''download.tmp'' (?body l1))\<rparr>) = (Go f, w')"
    using run by (auto simp: fetch_http_def Let_def split: option.splits sum.splits open_result.splits if_splits)
  have init: "hs_data s = None" "hs_hash s = o_sha_init o'"
    using s by (auto simp: open_hash_def split: if_splits)
  obtain l where l: "l1 = w_log w @ l" "hs_hash s1 = o_sha_update o' (o_sha_init o') (written ''download.tmp'' l)"
    using extract_file_hash [OF law ex init(1)] init(2) by auto
  have ok: "pair_ok url (sha_string (o_sha_out o' (hs_hash s1)))"
    using url len sha_string_field by (simp add: pair_ok_def length_sha_string)
  note pass = check_hash_pass [OF _ ok ch]
  have body: "body = written ''download.tmp'' l" and "f_data f = fe_kept (o_fs o') ''download.tmp'' (written ''download.tmp'' l)"
    using pass(1,2) wf l(1) by (simp_all add: open_FILE_def body_def)
  then show "f_data f = fe_kept (o_fs o') ''download.tmp'' body"
    by simp
  have str: "str = sha_string (o_sha_out o' (hs_hash s1))"
    using l(2) body by (simp add: str_def)
  note pin = pass(3) [folded str]
  show "map_content (w_files w ''download.hash'') url \<in> {None, Some str}"
    using pin wf by auto
  show "w_files w' ''download.hash'' = w_files w ''download.hash''" if "map_content (w_files w ''download.hash'') url = Some str"
    using pin wf that by auto
  show "map_content (w_files w' ''download.hash'') url = Some str" if "keeps (o_fs o') ''download.map''"
    using pin wf ok [folded str] update_map_ok(2) [OF that, where fl = "''download.hash''" and k = url and v = str and r = 0
        and fs = "(w_files w)(''download.tmp'' \<mapsto> fe_kept (o_fs o') ''download.tmp'' (?body l1))" and fs' = "w_files w'"]
    by auto
qed


subsection \<open>Unpacking an archive stays below the target\<close>

definition is_archive :: "string \<Rightarrow> bool" where
  "is_archive url \<longleftrightarrow> (\<exists>x \<in> set [''.txz'', ''.tar.xz'', ''.tar'', ''.zip'']. ends_with url (length url) x)"

lemma unpack_tar_confined:
  "unpack_tar o' rd s path w = (r, w') \<Longrightarrow> grows (confined path) (w_log w) (w_log w')"
  by (auto simp: unpack_tar_def split: option.splits dest: tar_safe.extract_container_confined)

lemma unpack_zip_confined:
  "unpack_zip o' f path w = (r, w') \<Longrightarrow> grows (confined path) (w_log w) (w_log w')"
  by (auto simp: unpack_zip_def split: option.splits dest: zip_safe.extract_container_confined)

lemma unpack_archive_confined:
  assumes "unpack o' url f path w = (r, w')" "is_archive url"
  shows "grows (confined path) (w_log w) (w_log w')"
  using assms by (auto simp: unpack_def is_archive_def Let_def split: if_splits
      intro: unpack_tar_confined unpack_zip_confined)


subsection \<open>Archives of the reference writer\<close>

text \<open>A stream that is opened on a file delivers the file.\<close>

lemma open_file_stream_ok:
  assumes "\<forall>n. grant h n" "length d \<le> max_stream"
  obtains fs where "open_file_stream h (open_FILE d) = Some fs" "file_inv fs" "file_pending fs = d" "file_view fs = 0"
  using assms by (auto simp: open_file_stream_def open_FILE_def file_inv_def file_core_def file_pending_def
      file_rest_def file_view_def)

lemma unpack_mk_tar:
  assumes rel: "reliable_stream rd ok pending view" and e: "calm (o_env o')" and h: "\<forall>n. grant (o_heap o') n"
    and tar: "top_ok tdir" "\<forall>m \<in> set ms. entry_ok tdir m"
    and s: "ok s" "pending s = mk_tar tdir ms k"
  shows "\<exists>w'. unpack_tar o' rd (Some s) path w = (Go 0, w') \<and> fs_of (w_log w') = fold (place path) ms (fs_of (w_log w))"
proof -
  have "at_entries ok pending (open_tar s) (mk_tar tdir ms k)"
    using s by (simp add: at_entries_def open_tar_def tar_left_def)
  from reliable_stream.extract_tar [OF rel e h tar this, of path "w_log w"] show ?thesis
    by (auto simp: unpack_tar_def)
qed

lemma unpack_tar_file:
  assumes "calm (o_env o')" "\<forall>n. grant (o_heap o') n" "top_ok tdir" "\<forall>m \<in> set ms. entry_ok tdir m"
    and "length (mk_tar tdir ms k) \<le> max_stream" and "url = base @ ''.tar''"
  shows "\<exists>w'. unpack o' url (open_FILE (mk_tar tdir ms k)) path w = (Go 0, w')
    \<and> fs_of (w_log w') = fold (place path) ms (fs_of (w_log w))"
proof -
  obtain fs where fs: "open_file_stream (o_heap o') (open_FILE (mk_tar tdir ms k)) = Some fs"
    "file_inv fs" "file_pending fs = mk_tar tdir ms k"
    using open_file_stream_ok assms(2,5) by metis
  have "unpack o' url (open_FILE (mk_tar tdir ms k)) path w = unpack_tar o' (read_file (o_heap o')) (Some fs) path w"
    using assms(6) fs(1) by (auto simp: unpack_def ends_with_def Let_def)
  then show ?thesis
    using unpack_mk_tar [OF file_reliable [OF assms(2)] assms(1-4) fs(2,3)] by simp
qed

lemma unpack_zip_file:
  assumes e: "calm (o_env o')" and h: "\<forall>n. grant (o_heap o') n"
    and law: "zlib_law (o_z_run o') valid dec gas" "o_z_init o' True (- 15) = Some z0"
    and zip: "\<forall>m \<in> set ms. member_ok valid dec z0 m" "length (mk_zip ms) < 0xFFFFFFFF" and url: "url = base @ ''.zip''"
  shows "\<exists>w'. unpack o' url (open_FILE (mk_zip ms)) path w = (Go 0, w')
    \<and> fs_of (w_log w') = fold (zip_place path) ms (fs_of (w_log w))"
proof -
  have "unpack o' url (open_FILE (mk_zip ms)) path w = unpack_zip o' (open_FILE (mk_zip ms)) path w"
    using url by (auto simp: unpack_def ends_with_def Let_def)
  moreover obtain z z' l where "open_zip (open_FILE (mk_zip ms)) = Some (Some z)"
    "extract_container (o_env o') (zip_ops (o_z_init o') (o_z_run o') (o_heap o')) z path (w_log w) = Some (0, z', l)"
    "fs_of l = fold (zip_place path) ms (fs_of (w_log w))"
    using extract_mk_zip [where init = "o_z_init o'", OF e h law zip] by blast
  ultimately show ?thesis
    by (simp add: unpack_zip_def)
qed

text \<open>
  Behind the decoder: the file holds a valid xz stream, whose decoded data are the archive.
\<close>

lemma open_xz_ok:
  assumes "\<forall>n. grant h n" "valid x (file_pending fs)" "length (dec x (file_pending fs)) \<le> max_stream" "file_inv fs"
  obtains ds where "open_xz_decoder (Some x) h (Some fs) = Opened ds"
    "xz_inv valid dec file_inv file_pending file_view ds" "xz_pending dec file_pending ds = dec x (file_pending fs)"
  using assms by (auto simp: open_xz_decoder_def xz_inv_def xz_pending_def xz_input_def)

lemma unpack_tar_xz:
  assumes e: "calm (o_env o')" and h: "\<forall>n. grant (o_heap o') n"
    and tar: "top_ok tdir" "\<forall>m \<in> set ms. entry_ok tdir m"
    and law: "xz_law (o_xz_run o') valid dec gas" "o_xz_init o' = Some x"
    and d: "valid x d" "dec x d = mk_tar tdir ms k" "length d \<le> max_stream" "length (mk_tar tdir ms k) \<le> max_stream"
    and url: "url = base @ ''.tar.xz''"
  shows "\<exists>w'. unpack o' url (open_FILE d) path w = (Go 0, w')
    \<and> fs_of (w_log w') = fold (place path) ms (fs_of (w_log w))"
proof -
  obtain fs where fs: "open_file_stream (o_heap o') (open_FILE d) = Some fs" "file_inv fs" "file_pending fs = d"
    using open_file_stream_ok h d(3) by metis
  obtain ds where ds: "open_xz_decoder (Some x) (o_heap o') (Some fs) = Opened ds"
    "xz_inv valid dec file_inv file_pending file_view ds" "xz_pending dec file_pending ds = mk_tar tdir ms k"
    using open_xz_ok [OF h, of valid x fs dec] fs d by metis
  have "unpack o' url (open_FILE d) path w =
      unpack_tar o' (read_xz (o_xz_run o') (o_heap o') (read_file (o_heap o'))) (Some ds) path w"
    using url fs(1) ds(1) law(2) by (auto simp: unpack_def ends_with_def Let_def opened_def)
  moreover have rel: "reliable_stream (read_xz (o_xz_run o') (o_heap o') (read_file (o_heap o')))
      (xz_inv valid dec file_inv file_pending file_view) (xz_pending dec file_pending) xz_view"
    by (rule reliable_stream.xz_reliable [OF file_reliable [OF h] law(1) h])
  ultimately show ?thesis
    using unpack_mk_tar [OF rel e h tar ds(2,3)] by simp
qed


subsection \<open>A target that is served\<close>

text \<open>
  A plain HTTP server that has the body for a URL: the host resolves and accepts the connection, takes
  the request, and answers it with a response of status 200 that announces the body.
\<close>

definition serves ::
  "('a, 'x, 'n) net \<Rightarrow> (int \<Rightarrow> 'n \<Rightarrow> bytes) \<Rightarrow> heap \<Rightarrow> string \<Rightarrow> 'n \<Rightarrow> bytes \<Rightarrow> bool" where
  "serves net wp h url n body \<longleftrightarrow>
     (\<exists>host port path fd n1 n2 status code hdrs.
        split_url url = Some (False, host, port, path)
        \<and> open_client_socket net host port n = (fd, n1) \<and> 0 \<le> fd
        \<and> send_loop net fd (request_bytes h path host) (int (length (request_bytes h path host))) (n_close net (- 1) n1)
            = Some (True, n2)
        \<and> wp fd n2 = mk_response status hdrs body \<and> length (mk_response status hdrs body) \<le> max_stream
        \<and> line_ok status \<and> strchr status (CHR '' '') = Some code \<and> atoi code = 200
        \<and> (\<forall>l \<in> set hdrs. line_ok l \<and> l \<noteq> [])
        \<and> fst (header_fold hdrs (- 1, None)) = int (length body))"

lemma servesI:
  assumes "split_url url = Some (False, host, port, path)"
    and "open_client_socket net host port n = (fd, n1)" "0 \<le> fd"
    and "send_loop net fd (request_bytes h path host) (int (length (request_bytes h path host))) (n_close net (- 1) n1)
      = Some (True, n2)"
    and "wp fd n2 = mk_response status hdrs body" "length (mk_response status hdrs body) \<le> max_stream"
    and "line_ok status" "strchr status (CHR '' '') = Some code" "atoi code = 200"
    and "\<forall>l \<in> set hdrs. line_ok l \<and> l \<noteq> []" "fst (header_fold hdrs (- 1, None)) = int (length body)"
  shows "serves net wp h url n body"
  unfolding serves_def by (intro exI conjI) (rule assms)+

lemma open_http_downloader_ok:
  assumes "recv_law net wp wx" "steady net wp wx h" "serves net wp h url n body"
  shows "\<exists>os. open_http_downloader net h os_size url n = Some (Inr (os, of_nat (length body)))
    \<and> https_inv wp wx os \<and> https_pending wp wx os = body"
proof -
  obtain host port path fd n1 n2 status code hdrs where
    url: "split_url url = Some (False, host, port, path)" and
    sock: "open_client_socket net host port n = (fd, n1)" "0 \<le> fd" and
    send: "send_loop net fd (request_bytes h path host) (int (length (request_bytes h path host))) (n_close net (- 1) n1)
      = Some (True, n2)" and
    wire: "wp fd n2 = mk_response status hdrs body" "length (mk_response status hdrs body) \<le> max_stream" and
    resp: "line_ok status" "strchr status (CHR '' '') = Some code" "atoi code = 200"
      "\<forall>l \<in> set hdrs. line_ok l \<and> l \<noteq> []" "fst (header_fold hdrs (- 1, None)) = int (length body)"
    using assms(3) unfolding serves_def by (elim exE conjE) (rule that; assumption)
  let ?os = "\<lparr>os_ctx = None, os_fd = fd, os_port = port, os_bufsz = 0, os_avail = 0, os_consumed = 0,
     os_is_https = False, os_host = Some host, os_length_remaining = 0, os_buf = [], os_net = n2\<rparr>"
  have "at_text wp wx ?os (mk_response status hdrs body)"
    using wire by (simp add: at_text_def https_core_def https_pending_def https_wire_def max_stream_def)
  from http_response_ok [OF assms(1,2) resp this] obtain os where
    os: "http_response net h ?os = Some (Http_ready os (of_nat (length body)))"
      "https_inv wp wx os" "https_pending wp wx os = body"
    by blast
  have "grant h os_size"
    using assms(2) by (simp add: steady_def)
  then show ?thesis
    using url sock send os
    by (simp add: open_http_downloader_def http_loop.simps http_step_def connect_to_def send_request_def)
qed

context reliable_stream
begin

lemma hash_reliable:
  fixes upd :: "'h \<Rightarrow> bytes \<Rightarrow> 'h"
  shows "reliable_stream (read_hash upd rd) (hash_inv ok pending view) (hash_pending pending) (hash_view view)"
proof (intro reliable_stream.intro reliable_stream_axioms.intro hash_stream)
  fix s s' :: "('h, 'a) hash_stream" and c n len :: size_t and p
  assume "hash_inv ok pending view s" "unat c \<le> hash_view view s" "unat n \<le> max_need"
    "read_hash upd rd s c n = Some (s', p, len)"
  then show "p \<noteq> None"
    using rd_never_null [of "hs_source s" c n]
    by (auto simp: read_hash_def hash_inv_def hash_view_def Let_def split: option.splits)
qed

end

text \<open>The body of the response reaches \<open>check_hash\<close> as it was sent, with its hash.\<close>

lemma fetch_http_served:
  assumes net: "recv_law (o_net o') wp wx" "steady (o_net o') wp wx (o_heap o')"
    and srv: "serves (o_net o') wp (o_heap o') url (w_net w) body"
    and law: "streaming (o_sha_update o')"
    and e: "calm (o_env o')" "fe_create (o_fs o') ''download.tmp''" "keeps (o_fs o') ''download.tmp''"
  shows "\<exists>w1. fetch_http o' url w
      = check_hash o' url (sha_string (o_sha_out o' (o_sha_update o' (o_sha_init o') body))) body w1
    \<and> w_files w1 = (w_files w)(''download.tmp'' \<mapsto> body)
    \<and> grows (copies_to ''download.tmp'') (w_log w) (w_log w1)"
proof -
  let ?rd = "read_hash (o_sha_update o') (read_https (o_net o') (o_heap o'))"
  obtain os where os: "open_http_downloader (o_net o') (o_heap o') (o_os_size o') url (w_net w) = Some (Inr (os, of_nat (length body)))"
    "https_inv wp wx os" "https_pending wp wx os = body"
    using open_http_downloader_ok [OF net srv] by blast
  let ?s = "\<lparr>hs_hash = o_sha_init o', hs_source = os, hs_data = None\<rparr>"
  have open_: "open_hash (o_heap o') (Some os) (o_sha_init o') = Opened ?s"
    using net(2) by (simp add: open_hash_def steady_def)
  have rel: "reliable_stream ?rd (hash_inv (https_inv wp wx) (https_pending wp wx) https_view)
      (hash_pending (https_pending wp wx)) (hash_view https_view)"
    by (rule reliable_stream.hash_reliable [OF https_reliable [OF net]])
  have "hash_inv (https_inv wp wx) (https_pending wp wx) https_view ?s" "writes_ok (o_env o') ''download.tmp''"
    using os(2) e(1) by (simp_all add: hash_inv_def writes_ok_def calm_def)
  from reliable_stream.extract_file_all [OF rel this, of "of_nat (length body)" "w_log w"] obtain s1 l1 where
    ex: "extract_file (o_env o') ?rd ?s ''download.tmp'' (of_nat (length body)) (w_log w) = Some (0, s1, l1)"
    and all: "written ''download.tmp'' l1 = written ''download.tmp'' (w_log w) @ body"
    using os(3) by (auto simp: hash_pending_def)
  obtain l where l: "l1 = w_log w @ l" "hs_hash s1 = o_sha_update o' (o_sha_init o') (written ''download.tmp'' l)"
    using extract_file_hash [OF law ex] by auto
  moreover have "written ''download.tmp'' l = body"
    using all l(1) by simp
  moreover have "grows (copies_to ''download.tmp'') (w_log w) l1"
    using extract_loop_grows [OF ex [unfolded extract_file_def]] by simp
  ultimately show ?thesis
    using os(1) open_ ex e(2,3) by (auto simp: fetch_http_def Let_def keeps_def)
qed


text \<open>A world that refuses the program nothing.\<close>

definition granted :: "('a, 'x, 'n, 'h, 'd, 'z) outside \<Rightarrow> bool" where
  "granted o' \<longleftrightarrow> calm (o_env o') \<and> (\<forall>n. grant (o_heap o') n)
     \<and> (\<forall>f. fe_create (o_fs o') f) \<and> (\<forall>f g. fe_rename (o_fs o') f g) \<and> (\<forall>f. fe_reopen (o_fs o') f)
     \<and> (\<forall>f. keeps (o_fs o') f) \<and> removable (o_env o')"

lemma fs_of_copies:
  assumes "grows (copies_to f) w w'" "fs_of w f = None"
  shows "fs_of w' = fs_of w"
proof -
  obtain l where l: "w' = w @ l" "\<forall>x \<in> set l. copies_to f (fst x)"
    using assms(1) by (auto simp: grows_def)
  have "fold run_call l fs = fs" if "\<forall>x \<in> set l. copies_to f (fst x)" "fs f = None" for fs
    using that
  proof (induction l)
    case (Cons x l)
    obtain c b where x: "x = (c, b)"
      by (cases x)
    have "run_call x fs = fs"
      using Cons.prems x by (cases c; cases b) (simp_all add: copies_to_def)
    with Cons show ?case by simp
  qed simp
  then show ?thesis
    using l assms(2) by (simp add: fs_of_append)
qed

lemma check_hash_granted:
  assumes "granted o'" "map_wf (w_files w ''download.hash'')" "pair_ok url str"
    and "map_content (w_files w ''download.hash'') url \<in> {None, Some str}"
  shows "\<exists>fs. check_hash o' url str body w = (Go (open_FILE body), w\<lparr>w_files := fs\<rparr>)"
proof -
  obtain fs where "update_map (o_fs o') ''download.hash'' url str (w_files w) = Some (0, fs)"
    using update_map_granted [where fs = "w_files w" and fl = "''download.hash''" and fe = "o_fs o'", OF assms(2,3)] assms(1)
    by (auto simp: granted_def)
  moreover have "\<exists>fs. w = w\<lparr>w_files := fs\<rparr>"
    by (rule exI [of _ "w_files w"]) simp
  ultimately show ?thesis
    using test_map_spec [OF assms(2), of url str] assms(1,4)
    by (auto simp: check_hash_def reopen_tmp_def granted_def keeps_def)
qed

lemma process_target_served:
  assumes o': "granted o'" and net: "recv_law (o_net o') wp wx" "steady (o_net o') wp wx (o_heap o')"
    and srv: "serves (o_net o') wp (o_heap o') url (w_net w) (mk_tar tdir ms k)" and url: "url = base @ ''.tar''"
    and sha: "streaming (o_sha_update o')" "\<forall>h. length (o_sha_out o' h) = 32"
    and tar: "top_ok tdir" "\<forall>m \<in> set ms. entry_ok tdir m" "length (mk_tar tdir ms k) \<le> max_stream"
    and maps: "map_wf (w_files w ''download.done'')" "map_wf (w_files w ''download.hash'')"
    and names: "pair_ok path url" "length url \<le> 182"
    and new: "map_content (w_files w ''download.done'') path \<noteq> Some url"
    and hash: "map_content (w_files w ''download.hash'') url
      \<in> {None, Some (sha_string (o_sha_out o' (o_sha_update o' (o_sha_init o') (mk_tar tdir ms k))))}"
    and old: "opens_as_stored (o_env o') (w_log w) path" and tmp: "fs_of (w_log w) ''download.tmp'' = None"
  shows "\<exists>w'. process_target o' path url w = (Go (), w')
    \<and> fs_of (w_log w') = fold (place path) ms (fs_of (w_log w) |` cleared path)
    \<and> map_content (w_files w' ''download.done'') path = Some url"
proof -
  let ?str = "sha_string (o_sha_out o' (o_sha_update o' (o_sha_init o') (mk_tar tdir ms k)))"
  let ?w0 = "remove_target o' path w"
  have grant: "calm (o_env o')" "\<forall>n. grant (o_heap o') n" and rem: "removable (o_env o')"
    and keep: "keeps (o_fs o') ''download.map''"
    using o' by (auto simp: granted_def)
  have w0: "fs_of (w_log ?w0) = fs_of (w_log w) |` cleared path" "w_net ?w0 = w_net w"
    using delete_path_clears(1) [OF rem old] by (simp_all add: remove_target_def Let_def)
  have maps0: "map_wf (w_files ?w0 ''download.done'')" "map_wf (w_files ?w0 ''download.hash'')"
    "map_content (w_files ?w0 ''download.hash'') url \<in> {None, Some ?str}"
    using maps hash remove_target_files [of o' path w "''download.done''"] remove_target_files [of o' path w "''download.hash''"]
    by auto
  obtain w1 where f1: "fetch_http o' url ?w0 = check_hash o' url ?str (mk_tar tdir ms k) w1"
    and w1: "w_files w1 = (w_files ?w0)(''download.tmp'' \<mapsto> mk_tar tdir ms k)"
      "grows (copies_to ''download.tmp'') (w_log ?w0) (w_log w1)"
    using fetch_http_served [OF net _ sha(1) grant(1), of url ?w0 "mk_tar tdir ms k"] srv o' w0(2)
    by (auto simp: granted_def)
  have str: "pair_ok url ?str"
    using names sha sha_string_field by (simp add: pair_ok_def length_sha_string)
  obtain fs where f2: "fetch_http o' url ?w0 = (Go (open_FILE (mk_tar tdir ms k)), w1\<lparr>w_files := fs\<rparr>)"
    using check_hash_granted [OF o' _ str, of w1] maps0 w1(1) f1 by auto
  have "split_url url \<noteq> None"
    using srv by (auto simp: serves_def)
  then have f3: "fetch o' url ?w0 = (Go (open_FILE (mk_tar tdir ms k)), w1\<lparr>w_files := fs\<rparr>)"
    using f2 by (auto simp: fetch_def split_url_def split: if_splits)
  obtain w3 where u: "unpack o' url (open_FILE (mk_tar tdir ms k)) path (w1\<lparr>w_files := fs\<rparr>) = (Go 0, w3)"
    and w3: "fs_of (w_log w3) = fold (place path) ms (fs_of (w_log w1))"
    using unpack_tar_file [OF grant tar url, of path "w1\<lparr>w_files := fs\<rparr>"] by auto
  have same: "w_files w3 ''download.done'' = w_files ?w0 ''download.done''"
    using fetch_done [OF f3] unpack_files [OF u] by simp
  let ?w4 = "w3\<lparr>w_files := (w_files w3)(''download.tmp'' := None)\<rparr>"
  obtain fs' where up: "update_map (o_fs o') ''download.done'' path url (w_files ?w4) = Some (0, fs')"
    using update_map_granted [where fs = "w_files ?w4" and fl = "''download.done''" and fe = "o_fs o'", OF _ names(1)]
      maps0(1) same o'
    by (auto simp: granted_def)
  have run: "process_target o' path url w = (Go (), ?w4\<lparr>w_files := fs'\<rparr>)"
    using test_map_spec [OF maps(1), of path url] new f3 u up
    by (auto simp: process_target_def Let_def split: option.splits)
  moreover have "fs_of (w_log w3) = fold (place path) ms (fs_of (w_log w) |` cleared path)"
    using w3 fs_of_copies [OF w1(2)] w0(1) tmp by (simp add: restrict_map_def)
  moreover have "map_content (fs' ''download.done'') path = Some url"
    using process_target_recorded(2) [OF keep maps(1) names(1) run] by simp
  ultimately show ?thesis
    by simp
qed

end
