(* ===== verification/Examples.thy ===== *)
theory Examples
  imports Pipeline
begin

text \<open>
  Concrete surroundings for the program: a server that answers every request with the bytes it holds, a
  checksum that keeps the first 32 bytes, a decoder that copies as many bytes as its state says, and a
  system that refuses nothing.  They show that the hypotheses of the theorems can hold.
\<close>

definition ex_net :: "(unit, unit, bytes) net" where
  "ex_net =
     \<lparr>n_getaddrinfo = (\<lambda>host port n. Some [()]), n_socket = (\<lambda>a n. (3, n)), n_connect = (\<lambda>fd a n. (True, n)),
      n_close = (\<lambda>fd n. n), n_recv = (\<lambda>fd room n. (Some (take room n), drop room n)),
      n_send = (\<lambda>fd data n. (int (length data), n)), x_init = (\<lambda>r w host. ()),
      x_read = (\<lambda>room x n. (Some (take room n), x, drop room n)),
      x_write_all = (\<lambda>data x n. (0, x, n)), x_flush = (\<lambda>x n. (0, x, n))\<rparr>"

definition ex_wp :: "int \<Rightarrow> bytes \<Rightarrow> bytes" where
  "ex_wp fd n = n"

definition ex_wx :: "unit \<Rightarrow> bytes \<Rightarrow> bytes" where
  "ex_wx x n = n"

definition ex_heap :: heap where
  "ex_heap = generous (\<lambda>_. NUL)"

lemma ex_socket [simp]:
  "n_getaddrinfo ex_net host port n = Some [()]" "n_socket ex_net a n = (3, n)" "n_connect ex_net fd a n = (True, n)"
  "n_close ex_net fd n = n" "n_send ex_net fd data n = (int (length data), n)"
  by (simp_all add: ex_net_def)

lemma ex_heap_grants [simp]: "grant ex_heap n"
  by (simp add: ex_heap_def generous_def)

lemma ex_recv_law: "recv_law ex_net ex_wp ex_wx"
  by (auto simp: recv_law_def ex_net_def ex_wp_def ex_wx_def)

lemma ex_steady: "steady ex_net ex_wp ex_wx ex_heap"
  by (auto simp: steady_def ex_net_def ex_wp_def ex_wx_def)


subsection \<open>A decoder that copies\<close>

definition ex_xz_run :: "nat xz_run" where
  "ex_xz_run x inp room =
     (let k = min x (min (length inp) room)
      in (x - k, k, take k inp, if k = x then XZ_STREAM_END else XZ_OK))"

definition ex_valid :: "nat \<Rightarrow> bytes \<Rightarrow> bool" where
  "ex_valid x i \<longleftrightarrow> 0 < x \<and> x \<le> length i"

definition ex_dec :: "nat \<Rightarrow> bytes \<Rightarrow> bytes" where
  "ex_dec x i = take x i"

lemma ex_valid_ne: "\<not> ex_valid x []"
  by (auto simp: ex_valid_def)

text \<open>One step of copying, for both interfaces of a decoder.\<close>

lemma ex_step:
  fixes tail :: bytes
  assumes "ex_valid x (inp @ tail)" "inp \<noteq> []" "0 < room"
  defines "k \<equiv> min x (min (length inp) room)"
  shows "0 < k" and "k \<le> length inp" and "k \<le> room" and "k = x \<Longrightarrow> ex_dec x (inp @ tail) = take k inp"
    and "k \<noteq> x \<Longrightarrow> ex_valid (x - k) (drop k inp @ tail)"
    and "ex_dec x (inp @ tail) = take k inp @ ex_dec (x - k) (drop k inp @ tail)"
proof -
  show k: "0 < k" "k \<le> length inp" "k \<le> room"
    using assms by (auto simp: ex_valid_def)
  then show "ex_dec x (inp @ tail) = take k inp @ ex_dec (x - k) (drop k inp @ tail)"
    unfolding ex_dec_def using take_add_drop [of k "inp @ tail" "x - k"] by (simp add: k_def)
  then show "k = x \<Longrightarrow> ex_dec x (inp @ tail) = take k inp"
    by (simp add: ex_dec_def)
  have "k \<le> x"
    by (simp add: k_def)
  then show "k \<noteq> x \<Longrightarrow> ex_valid (x - k) (drop k inp @ tail)"
    using assms(1) k(2) by (auto simp: ex_valid_def)
qed

lemma ex_xz_law: "xz_law ex_xz_run ex_valid ex_dec (\<lambda>_. 0)"
proof -
  have step: "case ex_xz_run x inp room of (x', k, out, ret) \<Rightarrow> k \<le> length inp \<and> length out \<le> room
      \<and> (case ret of
           XZ_OK \<Rightarrow> ex_valid x' (drop k inp @ tail) \<and> ex_dec x (inp @ tail) = out @ ex_dec x' (drop k inp @ tail)
             \<and> (k = 0 \<longrightarrow> out = [] \<longrightarrow> (0 :: nat) < 0)
         | XZ_STREAM_END \<Rightarrow> ex_dec x (inp @ tail) = out
         | XZ_FAIL e \<Rightarrow> False)"
    if "ex_valid x (inp @ tail)" "inp \<noteq> []" "0 < room" for x inp tail room
  proof (cases "min x (min (length inp) room) = x")
    case True
    with ex_step [OF that] show ?thesis
      by (simp add: ex_xz_run_def Let_def)
  next
    case False
    with ex_step [OF that] show ?thesis
      by (simp add: ex_xz_run_def Let_def)
  qed
  show ?thesis
    unfolding xz_law_def
    by (rule conjI, simp add: ex_valid_ne, (rule allI)+, (rule impI)+, drule (2) step, simp only: prod.case)
qed

definition ex_z_run :: "nat zlib_run" where
  "ex_z_run inflate flush x inp room =
     (let k = min x (min (length inp) room) in (x - k, k, take k inp, if k = x then 1 else 0))"

lemma ex_zlib_law: "zlib_law ex_z_run ex_valid ex_dec (\<lambda>_. 0)"
proof -
  have step: "k \<le> length inp \<and> length out \<le> room
      \<and> (if res = Z_STREAM_END then ex_dec x (inp @ tail) = out
         else res = 0 \<and> ex_valid x' (drop k inp @ tail) \<and> ex_dec x (inp @ tail) = out @ ex_dec x' (drop k inp @ tail)
           \<and> (k = 0 \<longrightarrow> out = [] \<longrightarrow> (0 :: nat) < 0))"
    if "ex_valid x (inp @ tail)" "inp \<noteq> []" "0 < room" "ex_z_run True 0 x inp room = (x', k, out, res)"
    for x inp tail room x' k out res
  proof -
    define n where "n = min x (min (length inp) room)"
    have r: "x' = x - n" "k = n" "out = take n inp" "res = (if n = x then 1 else 0)"
      using that(4) by (auto simp: ex_z_run_def Let_def n_def)
    note st = ex_step [OF that(1-3), folded n_def]
    show ?thesis
    proof (cases "n = x")
      case True
      with st(2-4) r show ?thesis
        by simp
    next
      case False
      with st(1-3,5,6) r show ?thesis
        by simp
    qed
  qed
  show ?thesis
    unfolding zlib_law_def by (rule conjI, simp add: ex_valid_ne, (rule allI)+, (rule impI)+, erule (3) step)
qed


subsection \<open>A system, a server and a target\<close>

text \<open>
  What an earlier run left: a target with a file, a link and a directory that holds a file, and a file beside it.
\<close>

definition ex_log :: sys_log where
  "ex_log =
     [(Sys_create ''notes'' 420, True), (Sys_write ''notes'' ''x'', True), (Sys_mkdir ''llvm'', True),
      (Sys_create ''llvm/old'' 420, True), (Sys_symlink ''old'' ''llvm/cc'', True), (Sys_mkdir ''llvm/lib'', True),
      (Sys_create ''llvm/lib/a'' 420, True)]"

definition ex_entries_old :: "(string \<times> fnode) list" where
  "ex_entries_old =
     [(''.'', Fn_locked), (''old'', Fn_other), (''lib'', Fn_dir [(''a'', Fn_other), (''..'', Fn_locked)]), (''cc'', Fn_other)]"

definition ex_env :: env where
  "ex_env =
     \<lparr>e_heap = ex_heap,
      e_sys = (\<lambda>w c. case c of
         Sys_unlink p \<Rightarrow> p \<in> dom (fs_of w)
       | Sys_rmdir p \<Rightarrow> p \<in> dirs_of w \<and> (\<forall>q. below p q \<longrightarrow> q \<notin> dom (fs_of w) \<and> q \<notin> dirs_of w)
       | _ \<Rightarrow> True),
      e_open = (\<lambda>w p. if w = ex_log \<and> p = ''llvm'' then Some (Fn_dir ex_entries_old) else None)\<rparr>"

definition ex_out :: "bytes \<Rightarrow> bytes" where
  "ex_out h = take 32 (h @ replicate 32 NUL)"

definition ex_outside :: "(unit, unit, bytes, bytes, nat, nat) outside" where
  "ex_outside =
     \<lparr>o_heap = ex_heap, o_env = ex_env, o_fs = permissive,
      o_chdir = (\<lambda>_. True), o_lock = True, o_net = ex_net, o_os_size = 4096, o_sha_init = [],
      o_sha_update = (@), o_sha_out = ex_out,
      o_xz_init = Some 2048, o_xz_run = ex_xz_run, o_z_init = (\<lambda>_ _. Some 5), o_z_run = ex_z_run\<rparr>"

definition ex_members :: "tar_entry list" where
  "ex_members = [Tar_file ''bin/tool'' 493 ''hello'', Tar_link ''bin/cc'' ''tool'']"

definition ex_tar :: bytes where
  "ex_tar = mk_tar ''top'' ex_members 1"

definition ex_url :: string where
  "ex_url = ''http://h/x.tar''"

definition ex_world :: "bytes world" where
  "ex_world =
     \<lparr>w_files = Map.empty, w_log = [],
      w_net = mk_response ''HTTP/1.1 200 OK'' [''Content-Length: 2048''] ex_tar\<rparr>"

lemma ex_calm: "calm ex_env"
  by (simp add: calm_def ex_env_def)

lemma ex_outside_simps [simp]:
  "o_heap ex_outside = ex_heap" "o_env ex_outside = ex_env" "o_net ex_outside = ex_net" "o_fs ex_outside = permissive"
  "o_sha_update ex_outside = (@)" "o_sha_init ex_outside = []" "o_xz_init ex_outside = Some 2048"
  "o_xz_run ex_outside = ex_xz_run" "o_sha_out ex_outside = ex_out"
  "o_z_init ex_outside inflate window = Some 5" "o_z_run ex_outside = ex_z_run"
  by (simp_all add: ex_outside_def)

lemma ex_world_simps [simp]:
  "w_files ex_world = Map.empty" "w_log ex_world = []"
  "w_net ex_world = mk_response ''HTTP/1.1 200 OK'' [''Content-Length: 2048''] ex_tar"
  by (simp_all add: ex_world_def)

lemma ex_removable: "removable ex_env"
  by (simp add: removable_def ex_env_def)

lemma ex_granted: "granted ex_outside"
  using ex_removable permissive_keeps by (simp add: granted_def ex_calm) (simp add: permissive_def)

text \<open>The same world with the old target in it.\<close>

definition ex_stale :: "bytes world" where
  "ex_stale = ex_world\<lparr>w_log := ex_log\<rparr>"

lemma ex_stale_simps [simp]:
  "w_files ex_stale = Map.empty" "w_log ex_stale = ex_log" "w_net ex_stale = w_net ex_world"
  by (simp_all add: ex_stale_def)

lemma ex_log_disk:
  "fs_of ex_log = [''notes'' \<mapsto> File_node 420 ''x'', ''llvm/old'' \<mapsto> File_node 420 [], ''llvm/cc'' \<mapsto> Link_node ''old'',
     ''llvm/lib/a'' \<mapsto> File_node 420 []]"
  "dirs_of ex_log = {''llvm/lib'', ''llvm''}"
  by (simp_all add: fs_of_def dirs_of_def ex_log_def)

lemma ex_opens: "opens_as_stored ex_env ex_log ''llvm''" "opens_as_stored ex_env [] ''llvm''"
proof -
  show "opens_as_stored ex_env ex_log ''llvm''"
    by (auto simp: opens_as_stored_def ex_env_def ex_entries_old_def ex_log_disk complete_def below_def is_dot_def)
  show "opens_as_stored ex_env [] ''llvm''"
    by (simp add: opens_as_stored_def ex_env_def ex_log_def fs_of_def dirs_of_def complete_def)
qed

lemma ex_cleared: "fs_of ex_log |` cleared ''llvm'' = [''notes'' \<mapsto> File_node 420 ''x'']"
  by (auto simp: ex_log_disk restrict_map_def cleared_def below_def fun_eq_iff)

lemma ex_streaming: "streaming (o_sha_update ex_outside)"
  by (simp add: streaming_def)

lemma ex_out_length: "\<forall>h. length (o_sha_out ex_outside h) = 32"
  by (auto simp: ex_out_def min_def)

lemma ex_net_laws:
  "recv_law (o_net ex_outside) ex_wp ex_wx" "steady (o_net ex_outside) ex_wp ex_wx (o_heap ex_outside)"
  by (simp_all add: ex_recv_law ex_steady)

lemma ex_entries: "top_ok ''top''" "\<forall>m \<in> set ex_members. entry_ok ''top'' m"
  by (simp_all add: top_ok_def ex_members_def safe_path_def safe_target_def)

lemma ex_tar_length: "length ex_tar = 2048"
  by (simp add: ex_tar_def mk_tar_def ex_members_def block_pad_def)

lemma ex_serves: "serves ex_net ex_wp ex_heap ex_url (w_net ex_world) ex_tar"
proof -
  have url: "split_url ex_url = Some (False, ''h'', 80, ''/x.tar'')"
    by code_simp
  have req: "request_bytes ex_heap ''/x.tar'' ''h'' = http_request ''/x.tar'' ''h''"
    by (simp add: request_bytes_def http_request_def)
  have send: "send_loop ex_net 3 p (int (length p)) n = Some (True, n)" for p n
    by (cases p) (simp_all add: send_loop.simps)
  have sock: "open_client_socket ex_net ''h'' 80 (w_net ex_world) = (3, w_net ex_world)"
    by (simp add: open_client_socket_def)
  have code: "strchr ''HTTP/1.1 200 OK'' (CHR '' '') = Some '' 200 OK''" "atoi '' 200 OK'' = 200"
    by code_simp+
  have hdr: "fst (header_fold [''Content-Length: 2048''] (- 1, None)) = int (length ex_tar)"
    unfolding ex_tar_length by code_simp
  have len: "length (mk_response ''HTTP/1.1 200 OK'' [''Content-Length: 2048''] ex_tar) \<le> max_stream"
    by (simp add: mk_response_def ex_tar_length max_stream_def)
  show ?thesis
    by (rule servesI [where fd = 3, OF url sock _ _ _ len _ code _ hdr])
      (simp_all add: send req ex_wp_def line_ok_def)
qed

lemmas ex_served = ex_serves [unfolded ex_tar_def, folded ex_outside_simps(1,3)]

lemma ex_maps: "map_wf (w_files ex_world f)" "map_content (w_files ex_world f) k = None"
  by (simp_all add: map_wf_def map_content_def)

lemma ex_names: "pair_ok ''llvm'' ex_url" "field_ok ex_url" "length ex_url \<le> 182" "ex_url = ''http://h/x'' @ ''.tar''"
  by code_simp+

lemma ex_bound: "length (mk_tar ''top'' ex_members 1) \<le> max_stream"
  using ex_tar_length by (simp add: ex_tar_def max_stream_def)

lemma ex_fetch: "\<exists>f w'. fetch_http ex_outside ex_url ex_world = (Go f, w')"
proof -
  let ?str = "sha_string (o_sha_out ex_outside (o_sha_update ex_outside (o_sha_init ex_outside) ex_tar))"
  have tmp: "fe_create (o_fs ex_outside) ''download.tmp''" "keeps (o_fs ex_outside) ''download.tmp''" and calm: "calm (o_env ex_outside)"
    by (simp_all add: permissive_def keeps_def ex_calm)
  obtain w1 where w1: "fetch_http ex_outside ex_url ex_world = check_hash ex_outside ex_url ?str ex_tar w1"
    "w_files w1 = (w_files ex_world)(''download.tmp'' \<mapsto> ex_tar)"
    using fetch_http_served [OF ex_net_laws ex_served ex_streaming calm tmp] unfolding ex_tar_def by blast
  have ok: "pair_ok ex_url ?str"
    using ex_names(2,3) sha_string_field ex_out_length by (simp add: pair_ok_def length_sha_string)
  have maps: "map_wf (w_files w1 ''download.hash'')" "map_content (w_files w1 ''download.hash'') ex_url \<in> {None, Some ?str}"
    using w1(2) ex_maps [of "''download.hash''"] by simp_all
  from check_hash_granted [OF ex_granted maps(1) ok maps(2), of ex_tar] w1(1) show ?thesis
    by auto
qed

lemma ex_processed: "\<exists>w'. process_target ex_outside ''llvm'' ex_url ex_world = (Go (), w')"
proof -
  have tmp: "fs_of (w_log ex_world) ''download.tmp'' = None"
    by (simp add: fs_of_def)
  have old: "opens_as_stored (o_env ex_outside) (w_log ex_world) ''llvm''"
    using ex_opens(2) by simp
  show ?thesis
    using process_target_served [OF ex_granted ex_net_laws ex_served ex_names(4) ex_streaming ex_out_length ex_entries
        ex_bound ex_maps(1) ex_maps(1) ex_names(1,3) _ _ old tmp] ex_maps(2) by auto
qed


text \<open>A zip archive: a directory, a stored and a deflated file.\<close>

definition ex_zip :: "zip_member list" where
  "ex_zip =
     [\<lparr>zm_name = ''bin/'', zm_exec = True, zm_method = 0, zm_comp = [], zm_data = []\<rparr>,
      \<lparr>zm_name = ''bin/sh'', zm_exec = True, zm_method = 0, zm_comp = ''hi'', zm_data = ''hi''\<rparr>,
      \<lparr>zm_name = ''doc'', zm_exec = False, zm_method = 8, zm_comp = ''hello'', zm_data = ''hello''\<rparr>]"

lemma ex_zip_ok: "\<forall>m \<in> set ex_zip. member_ok ex_valid ex_dec 5 m"
  by (simp add: ex_zip_def member_ok_def safe_path_def max_zlib_def ex_valid_def ex_dec_def)

lemma ex_zip_length: "length (mk_zip ex_zip) < 0xFFFFFFFF"
  by (simp add: ex_zip_def mk_zip_def mk_eocd_def Let_def)

end
