(* ===== verification/Generate.thy ===== *)
theory Generate
  imports CLib "HOL-Library.Sublist"
begin

text \<open>
  \<^verbatim>\<open>tools/generate-vcxproj/generate.c\<close>: the program that writes Visual Studio projects from
  \<^verbatim>\<open>projects.toml\<close>.  A function that prints to a \<^verbatim>\<open>FILE\<close> is a function to the text it
  prints; a call of \<^verbatim>\<open>exit(n)\<close> is the value \<open>Inl n\<close>.

  The TOML parser and SHA-1 are third-party code: the parameters \<open>toml\<close> and \<open>sha1\<close>.
\<close>

abbreviation bsl :: char where
  "bsl \<equiv> CHR 0x5C"

abbreviation crlf :: string where
  "crlf \<equiv> [CHR 0x0D, CHR 0x0A]"

abbreviation qt :: string where
  "qt \<equiv> [CHR 0x22]"


subsection \<open>The data\<close>

record project =
  p_name :: string
  p_file :: string
  p_target :: string
  p_uuid :: string
  p_dirs :: "string list"

record command =
  cmd_name :: string
  cmd_build :: string
  cmd_clean :: string
  cmd_rebuild :: string
  cmd_uuid :: string

record target =
  t_vs :: string
  t_ninja :: string
  t_default_target :: string
  t_platform :: string
  t_defines :: "string list"
  t_includes :: "string list"


subsection \<open>Reading the configuration\<close>

record ('t, 'a, 'r) toml =
  toml_raw_in :: "'t \<Rightarrow> string \<Rightarrow> 'r option"
  toml_table_in :: "'t \<Rightarrow> string \<Rightarrow> 't option"
  toml_array_in :: "'t \<Rightarrow> string \<Rightarrow> 'a option"
  toml_raw_at :: "'a \<Rightarrow> nat \<Rightarrow> 'r option"
  toml_table_at :: "'a \<Rightarrow> nat \<Rightarrow> 't option"
  toml_rtos :: "'r \<Rightarrow> string option"

definition get_string :: "('t, 'a, 'r) toml \<Rightarrow> 't \<Rightarrow> string \<Rightarrow> string option \<Rightarrow> int + string option" where
  "get_string tm t key defstr =
     (case toml_raw_in tm t key of
        None \<Rightarrow>
          if toml_table_in tm t key \<noteq> None \<or> toml_array_in tm t key \<noteq> None then Inl 3 else Inr defstr
      | Some val \<Rightarrow>
          (case toml_rtos tm val of None \<Rightarrow> Inl 3 | Some ret \<Rightarrow> Inr (Some ret)))"

definition must_get_string :: "('t, 'a, 'r) toml \<Rightarrow> 't \<Rightarrow> string \<Rightarrow> int + string" where
  "must_get_string tm t key =
     (case get_string tm t key None of
        Inl e \<Rightarrow> Inl e
      | Inr None \<Rightarrow> Inl 3
      | Inr (Some val) \<Rightarrow> Inr val)"

text \<open>The loop over an array; the elements read so far are in \<open>acc\<close>.\<close>

partial_function (option) string_list_loop ::
  "('t, 'a, 'r) toml \<Rightarrow> 'a \<Rightarrow> nat \<Rightarrow> string list \<Rightarrow> (int + string list) option" where
  "string_list_loop tm array idx acc =
     (case toml_raw_at tm array idx of
        None \<Rightarrow> Some (Inr acc)
      | Some raw \<Rightarrow>
          (case toml_rtos tm raw of
             None \<Rightarrow> Some (Inl 4)
           | Some val \<Rightarrow> string_list_loop tm array (idx + 1) (acc @ [val])))"

definition get_string_list :: "('t, 'a, 'r) toml \<Rightarrow> 't \<Rightarrow> string \<Rightarrow> (int + string list) option" where
  "get_string_list tm t key =
     (case toml_array_in tm t key of
        None \<Rightarrow>
          if toml_raw_in tm t key \<noteq> None \<or> toml_table_in tm t key \<noteq> None then Some (Inl 3) else Some (Inr [])
      | Some array \<Rightarrow> string_list_loop tm array 0 [])"


subsection \<open>Relative paths and entries\<close>

definition extension :: "string \<Rightarrow> string" where
  "extension f = (case strrchr f (CHR ''.'') of Some ext \<Rightarrow> ext | None \<Rightarrow> [])"

text \<open>The first loop removes the directories that both paths share.\<close>

function rel_common :: "string \<Rightarrow> string \<Rightarrow> string \<times> string" where
  "rel_common vcxfile dir =
     (case strchr vcxfile bsl of
        None \<Rightarrow> (vcxfile, dir)
      | Some next \<Rightarrow>
          let flen = length vcxfile - length next; at = drop flen dir
          in if \<not> strncmp_eq vcxfile dir flen \<or> (at \<noteq> [] \<and> hd at \<noteq> bsl) then (vcxfile, dir)
             else rel_common (drop 1 next) (drop (if at \<noteq> [] then flen + 1 else flen) dir))"
  by pat_completeness auto
termination
proof (relation "measure (\<lambda>(v, d). length v)", goal_cases)
  case (2 v d nx flen at)
  then show ?case
    using strchr_length [of v bsl nx] by (cases nx) auto
qed simp

declare rel_common.simps [simp del]

text \<open>The second loop goes up once for every directory that is left.\<close>

function rel_up :: "string \<Rightarrow> string" where
  "rel_up prev =
     (case strchr prev bsl of
        None \<Rightarrow> []
      | Some next \<Rightarrow> ''..'' @ [bsl] @ rel_up (dropWhile (\<lambda>c. c = bsl) next))"
  by pat_completeness auto
termination
proof (relation "measure length", goal_cases)
  case (2 s nx)
  then obtain ys where "nx = bsl # ys" "length nx \<le> length s"
    using strchr_SomeD [of s bsl nx] strchr_length [of s bsl nx] by auto
  then show ?case
    using length_dropWhile_le [of "\<lambda>c. c = bsl" ys] by simp
qed simp

declare rel_up.simps [simp del]

definition print_relative_path :: "string \<Rightarrow> string \<Rightarrow> string" where
  "print_relative_path vcxfile dir =
     (let (v, d) = rel_common vcxfile dir in rel_up v @ (if d \<noteq> [] then d @ [bsl] else []))"

definition print_entry :: "string \<Rightarrow> string \<Rightarrow> string \<Rightarrow> string \<Rightarrow> string" where
  "print_entry tag vcxfile dir f =
     ''    <'' @ tag @ '' Include='' @ qt @ print_relative_path vcxfile dir @ f @ qt @ '' />'' @ crlf"

definition print_cfile :: "string \<Rightarrow> string \<Rightarrow> string \<Rightarrow> string" where
  "print_cfile vcxfile dir f =
     (let ext = extension f
      in if strcasecmp_eq ext ''.c'' \<or> strcasecmp_eq ext ''.cpp'' \<or> strcasecmp_eq ext ''.s'' \<or> strcasecmp_eq ext ''.asm''
         then print_entry ''ClCompile'' vcxfile dir f else [])"

definition print_hfile :: "string \<Rightarrow> string \<Rightarrow> string \<Rightarrow> string" where
  "print_hfile vcxfile dir f =
     (let ext = extension f
      in if strcasecmp_eq ext ''.h'' \<or> strcasecmp_eq ext ''.hpp'' then print_entry ''ClInclude'' vcxfile dir f else [])"

definition print_other :: "string \<Rightarrow> string \<Rightarrow> string \<Rightarrow> string" where
  "print_other vcxfile dir f =
     (let ext = extension f
      in if strcasecmp_eq ext ''.proto'' \<or> strcasecmp_eq ext ''.txt'' \<or> strcasecmp_eq ext ''.css''
            \<or> strcasecmp_eq ext ''.js'' \<or> strcasecmp_eq ext ''.html'' \<or> strcasecmp_eq ext ''.sh''
            \<or> strcasecmp_eq ext ''.json''
         then print_entry ''None'' vcxfile dir f else [])"

definition print_ninja :: "string \<Rightarrow> string \<Rightarrow> string \<Rightarrow> string" where
  "print_ninja vcxfile dir f =
     (let ext = extension f
      in if strcasecmp_eq ext ''.ninja'' \<or> strcasecmp_eq f ''download.manifest''
         then print_entry ''None'' vcxfile dir f else [])"

definition print_generate :: "string \<Rightarrow> string \<Rightarrow> string \<Rightarrow> string" where
  "print_generate vcxfile dir f =
     (if strcasecmp_eq f ''projects.toml'' then print_entry ''None'' vcxfile dir f else [])"


subsection \<open>Listing a directory\<close>

text \<open>
  The static array of names: its capacity, the number of names in it and the names.  The product of
  the growth is computed in \<^verbatim>\<open>size_t\<close>.  The code checks neither \<^verbatim>\<open>realloc\<close> nor \<^verbatim>\<open>strdup\<close>; they are taken to succeed.
\<close>

record file_list =
  cap_files :: size_t
  num_files :: size_t
  all_files :: "string list"

definition add_file :: "string \<Rightarrow> file_list \<Rightarrow> file_list" where
  "add_file f fl =
     (let fl1 = (if num_files fl = cap_files fl then fl\<lparr>cap_files := (cap_files fl + 16) * 3 div 2\<rparr> else fl)
      in fl1\<lparr>all_files := take (unat (num_files fl1)) (all_files fl1) @ [f], num_files := num_files fl1 + 1\<rparr>)"

text \<open>What \<^verbatim>\<open>readdir\<close> gives for a directory: the names, and which of them are regular files.\<close>

type_synonym listing = "string \<Rightarrow> (string \<times> bool) list option"

definition list_directory :: "listing \<Rightarrow> string \<Rightarrow> file_list \<Rightarrow> file_list" where
  "list_directory ls dir fl =
     (case ls dir of
        None \<Rightarrow> fl
      | Some es \<Rightarrow> fold (\<lambda>(name, reg) fl. if reg then add_file name fl else fl) es fl)"

text \<open>\<^verbatim>\<open>strcmp\<close>: the difference of the first bytes that differ.\<close>

fun strcmp :: "string \<Rightarrow> string \<Rightarrow> int" where
  "strcmp [] [] = 0"
| "strcmp [] (y # ys) = - int (of_char y)"
| "strcmp (x # xs) [] = int (of_char x)"
| "strcmp (x # xs) (y # ys) = (if x = y then strcmp xs ys else int (of_char x) - int (of_char y))"

definition compare_file :: "string \<Rightarrow> string \<Rightarrow> int" where
  "compare_file a b = strcmp a b"

text \<open>\<^verbatim>\<open>qsort\<close> by the comparison.\<close>

fun qsort_insert :: "('a \<Rightarrow> 'a \<Rightarrow> int) \<Rightarrow> 'a \<Rightarrow> 'a list \<Rightarrow> 'a list" where
  "qsort_insert cmp x [] = [x]"
| "qsort_insert cmp x (y # ys) = (if cmp x y \<le> 0 then x # y # ys else y # qsort_insert cmp x ys)"

definition qsort :: "('a \<Rightarrow> 'a \<Rightarrow> int) \<Rightarrow> 'a list \<Rightarrow> 'a list" where
  "qsort cmp xs = foldr (qsort_insert cmp) xs []"

type_synonym print_fn = "string \<Rightarrow> string \<Rightarrow> string \<Rightarrow> string"

text \<open>The text printed, the directory as the call leaves it, and the array, emptied.\<close>

definition print_files ::
  "listing \<Rightarrow> print_fn \<Rightarrow> string \<Rightarrow> string \<Rightarrow> file_list \<Rightarrow> string \<times> string \<times> file_list" where
  "print_files ls fn vcxfile dir0 fl0 =
     (let dir1 = replace_char dir0 bsl (CHR ''/'');
          fl1 = list_directory ls dir1 fl0;
          files = qsort compare_file (take (unat (num_files fl1)) (all_files fl1));
          dir = replace_char dir1 (CHR ''/'') bsl;
          out = (if num_files fl1 \<noteq> 0 then concat (map (fn vcxfile dir) files)
                 else case strrchr dir bsl of
                        Some slash \<Rightarrow> fn vcxfile (before dir slash) (drop 1 slash)
                      | None \<Rightarrow> fn vcxfile [] dir)
      in (out, dir, fl1\<lparr>num_files := 0, all_files := []\<rparr>))"

fun print_dirs ::
  "listing \<Rightarrow> print_fn \<Rightarrow> string \<Rightarrow> string list \<Rightarrow> file_list \<Rightarrow> string \<times> string list \<times> file_list" where
  "print_dirs ls fn vcxfile [] fl = ([], [], fl)"
| "print_dirs ls fn vcxfile (d # ds) fl =
     (let (out1, d1, fl1) = print_files ls fn vcxfile d fl;
          (out2, ds1, fl2) = print_dirs ls fn vcxfile ds fl1
      in (out1 @ out2, d1 # ds1, fl2))"


subsection \<open>Identifiers and replacement\<close>

definition nsuuid :: bytes where
  "nsuuid = map char_of [0x7D, 0x2B, 0x2A, 0x65, 0x3F, 0x9E, 0x4E, 0xC4, 0xB4, 0x5B, 0xE1, 0xE1, 0xF0, 0x89, 0x2E, 0xAC :: nat]"

definition hex_upper :: "nat \<Rightarrow> char" where
  "hex_upper n = (if n < 10 then char_of (48 + n) else char_of (55 + n))"

definition hex2 :: "nat \<Rightarrow> string" where
  "hex2 n = [hex_upper (n div 16), hex_upper (n mod 16)]"

text \<open>\<open>sha1\<close> is the digest of the concatenated updates.\<close>

definition generate_uuid :: "(bytes \<Rightarrow> bytes) \<Rightarrow> string \<Rightarrow> string" where
  "generate_uuid sha1 f =
     (let h0 = map of_char (sha1 (nsuuid @ f)) :: nat list;
          h1 = h0[6 := (h0 ! 6 AND 0xF) OR 0x50];
          h = h1[8 := (h1 ! 8 AND 0x3F) OR 0x80];
          hx = (\<lambda>i. hex2 (h ! i))
      in ''{'' @ hx 0 @ hx 1 @ hx 2 @ hx 3 @ ''-'' @ hx 4 @ hx 5 @ ''-'' @ hx 6 @ hx 7 @ ''-''
         @ hx 8 @ hx 9 @ ''-'' @ hx 10 @ hx 11 @ hx 12 @ hx 13 @ hx 14 @ hx 15 @ ''}'')"

text \<open>
  The two passes over the text: the first computes the size of the result, the second writes it.  With
  an empty \<open>test\<close> neither ends.  The size is a \<^verbatim>\<open>size_t\<close>; the allocation, which the code does not check, is taken
  to succeed.
\<close>

partial_function (option) dup_size :: "string \<Rightarrow> string \<Rightarrow> string \<Rightarrow> size_t \<Rightarrow> size_t option" where
  "dup_size prev test replacement sz =
     (case strstr prev test of
        None \<Rightarrow> Some (sz + of_nat (length prev))
      | Some next \<Rightarrow>
          dup_size (drop (length test) next) test replacement
            (sz + of_nat (length (before prev next)) + of_nat (length replacement)))"

partial_function (option) dup_copy :: "string \<Rightarrow> string \<Rightarrow> string \<Rightarrow> string \<Rightarrow> string option" where
  "dup_copy prev test replacement p =
     (case strstr prev test of
        None \<Rightarrow> Some (p @ prev)
      | Some next \<Rightarrow>
          dup_copy (drop (length test) next) test replacement (p @ before prev next @ replacement))"

definition dup_with_replacement :: "string \<Rightarrow> string \<Rightarrow> string \<Rightarrow> (size_t \<times> string) option" where
  "dup_with_replacement src test replacement =
     (case dup_size src test replacement 0 of
        None \<Rightarrow> None
      | Some sz \<Rightarrow> map_option (Pair (sz + 1)) (dup_copy src test replacement []))"

definition is_debug_target :: "target \<Rightarrow> bool" where
  "is_debug_target t \<longleftrightarrow> (\<exists>def \<in> set (t_defines t). def = ''_DEBUG'' \<or> def = ''DEBUG'')"

end
