(* ===== verification/Generate_Main.thy ===== *)
theory Generate_Main
  imports Generate
begin

text \<open>
  \<^verbatim>\<open>generate.c\<close>, continued: the three writers and \<^verbatim>\<open>main\<close>.  A writer is the text it writes.
\<close>

abbreviation ap :: string where
  "ap \<equiv> [CHR 0x27]"

abbreviation tab :: string where
  "tab \<equiv> [CHR 0x09]"

abbreviation bom :: string where
  "bom \<equiv> [CHR 0xEF, CHR 0xBB, CHR 0xBF]"

abbreviation bslash :: string where
  "bslash \<equiv> [bsl]"

text \<open>Pieces that the writers share.\<close>

definition xml_head :: string where
  "xml_head =
     bom @ ''<?xml version='' @ qt @ ''1.0'' @ qt @ '' encoding='' @ qt @ ''utf-8'' @ qt @ ''?>'' @ crlf
     @ ''<Project DefaultTargets='' @ qt @ ''Build'' @ qt @ '' ToolsVersion='' @ qt @ ''14.0'' @ qt
     @ '' xmlns='' @ qt @ ''http://schemas.microsoft.com/developer/msbuild/2003'' @ qt @ ''>'' @ crlf
     @ ''  <ItemGroup Label='' @ qt @ ''ProjectConfigurations'' @ qt @ ''>'' @ crlf"

definition xml_configuration :: "target \<Rightarrow> string" where
  "xml_configuration t =
     ''    <ProjectConfiguration Include='' @ qt @ t_vs t @ ''|'' @ t_platform t @ qt @ ''>'' @ crlf
     @ ''      <Configuration>'' @ t_vs t @ ''</Configuration>'' @ crlf
     @ ''      <Platform>'' @ t_platform t @ ''</Platform>'' @ crlf
     @ ''    </ProjectConfiguration>'' @ crlf"

definition xml_condition :: "target \<Rightarrow> string" where
  "xml_condition t =
     ''Condition='' @ qt @ ap @ ''$(Configuration)|$(Platform)'' @ ap @ ''=='' @ ap @ t_vs t @ ''|''
     @ t_platform t @ ap @ qt"

definition xml_group_break :: string where
  "xml_group_break = ''  </ItemGroup>'' @ crlf @ ''  <ItemGroup>'' @ crlf"

definition xml_globals :: "string \<Rightarrow> string \<Rightarrow> string" where
  "xml_globals uuid name =
     ''  <PropertyGroup Label='' @ qt @ ''Globals'' @ qt @ ''>'' @ crlf
     @ ''    <ProjectGuid>'' @ uuid @ ''</ProjectGuid>'' @ crlf
     @ ''    <Keyword>MakeFileProj</Keyword>'' @ crlf
     @ ''    <ProjectName>'' @ name @ ''</ProjectName>'' @ crlf
     @ ''  </PropertyGroup>'' @ crlf
     @ ''  <Import Project='' @ qt @ ''$(VCTargetsPath)'' @ bslash @ ''Microsoft.Cpp.Default.props'' @ qt @ '' />'' @ crlf"

definition xml_kind :: "bool \<Rightarrow> target \<Rightarrow> string" where
  "xml_kind debug t =
     ''  <PropertyGroup '' @ xml_condition t @ '' Label='' @ qt @ ''Configuration'' @ qt @ ''>'' @ crlf
     @ ''    <ConfigurationType>Makefile</ConfigurationType>'' @ crlf
     @ ''    <UseDebugLibraries>'' @ (if debug then ''true'' else ''false'') @ ''</UseDebugLibraries>'' @ crlf
     @ ''    <PlatformToolset>v140</PlatformToolset>'' @ crlf
     @ ''  </PropertyGroup>'' @ crlf"

definition xml_imports :: string where
  "xml_imports =
     ''  <Import Project='' @ qt @ ''$(VCTargetsPath)'' @ bslash @ ''Microsoft.Cpp.props'' @ qt @ '' />'' @ crlf
     @ ''  <ImportGroup Label='' @ qt @ ''ExtensionSettings'' @ qt @ ''>'' @ crlf
     @ ''  </ImportGroup>'' @ crlf
     @ ''  <ImportGroup Label='' @ qt @ ''Shared'' @ qt @ ''>'' @ crlf
     @ ''  </ImportGroup>'' @ crlf"

definition xml_sheets :: "target \<Rightarrow> string" where
  "xml_sheets t =
     (let props = ''$(UserRootDir)'' @ bslash @ ''Microsoft.Cpp.$(Platform).user.props''
      in ''  <ImportGroup Label='' @ qt @ ''PropertySheets'' @ qt @ '' '' @ xml_condition t @ ''>'' @ crlf
         @ ''    <Import Project='' @ qt @ props @ qt @ '' Condition='' @ qt @ ''exists('' @ ap @ props @ ap @ '')'' @ qt
         @ '' Label='' @ qt @ ''LocalAppDataPlatform'' @ qt @ '' />'' @ crlf
         @ ''  </ImportGroup>'' @ crlf)"

definition xml_macros :: string where
  "xml_macros = ''  <PropertyGroup Label='' @ qt @ ''UserMacros'' @ qt @ '' />'' @ crlf"

definition xml_tail :: string where
  "xml_tail =
     ''  <ItemDefinitionGroup>'' @ crlf
     @ ''  </ItemDefinitionGroup>'' @ crlf
     @ ''  <Import Project='' @ qt @ ''$(VCTargetsPath)'' @ bslash @ ''Microsoft.Cpp.targets'' @ qt @ '' />'' @ crlf
     @ ''  <ImportGroup Label='' @ qt @ ''ExtensionTargets'' @ qt @ ''>'' @ crlf
     @ ''  </ImportGroup>'' @ crlf
     @ ''</Project>'' @ crlf"

text \<open>The text of a replacement that ends.\<close>

definition replaced :: "string \<Rightarrow> string \<Rightarrow> string \<Rightarrow> string option" where
  "replaced src test replacement = map_option snd (dup_with_replacement src test replacement)"

text \<open>The definitions, separated by semicolons.\<close>

fun semi_list :: "bool \<Rightarrow> string list \<Rightarrow> string" where
  "semi_list first [] = []"
| "semi_list first (d # ds) = (if first then d else '';'' @ d) @ semi_list False ds"

definition project_target ::
  "string \<Rightarrow> string list \<Rightarrow> string list \<Rightarrow> string \<Rightarrow> string \<Rightarrow> target \<Rightarrow> string option" where
  "project_target tgt sln_defines sln_includes download_exe ninja_exe t =
     (case replaced tgt ''{TGT}'' (t_ninja t) of
        None \<Rightarrow> None
      | Some njtgt \<Rightarrow>
          let vstgt = replace_char njtgt (CHR ''/'') bsl
          in Some (''  <PropertyGroup '' @ xml_condition t @ ''>'' @ crlf
            @ ''    <NMakeOutput>$(SolutionDir)'' @ bslash @ vstgt @ ''</NMakeOutput>'' @ crlf
            @ ''    <NMakePreprocessorDefinitions>'' @ semi_list True (sln_defines @ t_defines t)
            @ ''</NMakePreprocessorDefinitions>'' @ crlf
            @ ''    <NMakeBuildCommandLine>'' @ download_exe @ '' $(SolutionDir) '' @ ninja_exe @ '' '' @ njtgt
            @ ''</NMakeBuildCommandLine>'' @ crlf
            @ ''    <NMakeReBuildCommandLine>'' @ download_exe @ '' $(SolutionDir) '' @ ninja_exe @ '' -t clean '' @ njtgt
            @ '' &amp;&amp; '' @ download_exe @ '' $(SolutionDir) '' @ ninja_exe @ '' '' @ njtgt
            @ ''</NMakeReBuildCommandLine>'' @ crlf
            @ ''    <NMakeCleanCommandLine>'' @ download_exe @ '' $(SolutionDir) '' @ ninja_exe @ '' -t clean '' @ njtgt
            @ ''</NMakeCleanCommandLine>'' @ crlf
            @ ''    <NMakeIncludeSearchPath>$(ProjectDir)''
            @ concat (map (\<lambda>inc. '';$(SolutionDir)'' @ bslash @ inc) (sln_includes @ t_includes t))
            @ ''</NMakeIncludeSearchPath>'' @ crlf
            @ ''    <IntDir>$(SolutionDir)'' @ bslash @ ''obj'' @ bslash @ ''$(Configuration)'' @ bslash @ ''</IntDir>'' @ crlf
            @ ''    <SourcePath />'' @ crlf
            @ ''    <ExcludePath />'' @ crlf
            @ ''  </PropertyGroup>'' @ crlf))"

fun all_some :: "'a option list \<Rightarrow> 'a list option" where
  "all_some [] = Some []"
| "all_some (x # xs) = (case (x, all_some xs) of (Some y, Some ys) \<Rightarrow> Some (y # ys) | _ \<Rightarrow> None)"

text \<open>\<open>None\<close> is a replacement that does not end.\<close>

definition write_project ::
  "listing \<Rightarrow> project \<Rightarrow> target list \<Rightarrow> string list \<Rightarrow> string list \<Rightarrow> string \<Rightarrow> string \<Rightarrow> file_list
    \<Rightarrow> (string \<times> file_list) option" where
  "write_project ls p tgts sln_defines sln_includes download_exe ninja_exe fl =
     (let (cs, ds1, fl1) = print_dirs ls print_cfile (p_file p) (p_dirs p) fl;
          (hs, ds2, fl2) = print_dirs ls print_hfile (p_file p) ds1 fl1;
          (os, ds3, fl3) = print_dirs ls print_other (p_file p) ds2 fl2
      in case all_some (map (project_target (p_target p) sln_defines sln_includes download_exe ninja_exe) tgts) of
           None \<Rightarrow> None
         | Some groups \<Rightarrow>
             Some (xml_head @ concat (map xml_configuration tgts) @ xml_group_break @ cs @ xml_group_break @ hs
               @ xml_group_break @ os @ ''  </ItemGroup>'' @ crlf @ xml_globals (p_uuid p) (p_name p)
               @ concat (map (\<lambda>t. xml_kind (is_debug_target t) t) tgts) @ xml_imports @ concat (map xml_sheets tgts)
               @ xml_macros @ concat groups @ xml_tail, fl3))"

definition command_target :: "command \<Rightarrow> target \<Rightarrow> string option" where
  "command_target c t =
     (case (replaced (cmd_build c) ''{DEFAULT}'' (t_default_target t),
            replaced (cmd_rebuild c) ''{DEFAULT}'' (t_default_target t),
            replaced (cmd_clean c) ''{DEFAULT}'' (t_default_target t)) of
        (Some build, Some rebuild, Some clean) \<Rightarrow>
          Some (''  <PropertyGroup '' @ xml_condition t @ ''>'' @ crlf
            @ ''    <NMakeBuildCommandLine>'' @ build @ ''</NMakeBuildCommandLine>'' @ crlf
            @ ''    <NMakeReBuildCommandLine>'' @ rebuild @ ''</NMakeReBuildCommandLine>'' @ crlf
            @ ''    <NMakeCleanCommandLine>'' @ clean @ ''</NMakeCleanCommandLine>'' @ crlf
            @ ''  </PropertyGroup>'' @ crlf)
      | _ \<Rightarrow> None)"

definition write_command ::
  "listing \<Rightarrow> command \<Rightarrow> target list \<Rightarrow> print_fn option \<Rightarrow> file_list \<Rightarrow> (string \<times> file_list) option" where
  "write_command ls c targets files_fn fl =
     (let (fs, fl1) = (case files_fn of
                         None \<Rightarrow> ([], fl)
                       | Some fn \<Rightarrow> (let (out, d, fl1) = print_files ls fn [] ''.'' fl in (out, fl1)))
      in case all_some (map (command_target c) targets) of
           None \<Rightarrow> None
         | Some groups \<Rightarrow>
             Some (xml_head @ concat (map xml_configuration targets) @ xml_group_break @ fs @ ''  </ItemGroup>'' @ crlf
               @ xml_globals (cmd_uuid c) (cmd_name c) @ concat (map (xml_kind False) targets) @ xml_imports
               @ concat (map xml_sheets targets) @ xml_macros @ concat groups @ xml_tail, fl1))"

definition sln_project :: "string \<Rightarrow> string \<Rightarrow> string \<Rightarrow> string" where
  "sln_project name f uuid =
     ''Project('' @ qt @ ''{8BC9CEB8-8B4A-11D0-8D11-00A0C91BC942}'' @ qt @ '') = '' @ qt @ name @ qt @ '', '' @ qt @ f @ qt
     @ '', '' @ qt @ uuid @ qt @ crlf @ ''EndProject'' @ crlf"

definition sln_config :: "string \<Rightarrow> string \<Rightarrow> target \<Rightarrow> string" where
  "sln_config uuid what t =
     tab @ tab @ uuid @ ''.'' @ t_vs t @ ''|'' @ t_platform t @ what @ '' = '' @ t_vs t @ ''|'' @ t_platform t @ crlf"

definition write_solution :: "project list \<Rightarrow> target list \<Rightarrow> command \<Rightarrow> command option \<Rightarrow> string" where
  "write_solution projects targets defcmd gencmd =
     bom @ crlf @ ''Microsoft Visual Studio Solution File, Format Version 12.00'' @ crlf
     @ ''# Visual Studio 14'' @ crlf
     @ ''VisualStudioVersion = 14.0.25420.1'' @ crlf
     @ ''MinimumVisualStudioVersion = 10.0.40219.1'' @ crlf
     @ sln_project ''_BUILD_ALL'' ''_BUILD_ALL.vcxproj'' (cmd_uuid defcmd)
     @ (case gencmd of
          None \<Rightarrow> []
        | Some g \<Rightarrow> sln_project ''_GENERATE_VCXPROJ'' ''_GENERATE_VCXPROJ.vcxproj'' (cmd_uuid g))
     @ concat (map (\<lambda>p. sln_project (p_name p) (p_file p) (p_uuid p)) projects)
     @ ''Global'' @ crlf @ tab @ ''GlobalSection(SolutionConfigurationPlatforms) = preSolution'' @ crlf
     @ concat (map (\<lambda>t. tab @ tab @ t_vs t @ ''|'' @ t_platform t @ '' = '' @ t_vs t @ ''|'' @ t_platform t @ crlf) targets)
     @ tab @ ''EndGlobalSection'' @ crlf
     @ tab @ ''GlobalSection(ProjectConfigurationPlatforms) = postSolution'' @ crlf
     @ concat (map (\<lambda>p. concat (map (\<lambda>t. sln_config (p_uuid p) ''.ActiveCfg'' t @ sln_config (p_uuid p) ''.Build.0'' t) targets)) projects)
     @ (case gencmd of None \<Rightarrow> [] | Some g \<Rightarrow> concat (map (sln_config (cmd_uuid g) ''.ActiveCfg'') targets))
     @ concat (map (\<lambda>t. sln_config (cmd_uuid defcmd) ''.ActiveCfg'' t @ sln_config (cmd_uuid defcmd) ''.Build.0'' t) targets)
     @ tab @ ''EndGlobalSection'' @ crlf
     @ tab @ ''GlobalSection(SolutionProperties) = preSolution'' @ crlf
     @ tab @ tab @ ''HideSolutionNode = FALSE'' @ crlf
     @ tab @ ''EndGlobalSection'' @ crlf
     @ ''EndGlobal'' @ crlf"


subsection \<open>main\<close>

text \<open>Errors that end the program, and values to go on with; \<open>None\<close> is a loop that does not end.\<close>

definition and_then :: "(int + 'a) option \<Rightarrow> ('a \<Rightarrow> (int + 'b) option) \<Rightarrow> (int + 'b) option" where
  "and_then m k = (case m of None \<Rightarrow> None | Some (Inl e) \<Rightarrow> Some (Inl e) | Some (Inr x) \<Rightarrow> k x)"

partial_function (option) read_projects ::
  "('t, 'a, 'r) toml \<Rightarrow> 'a \<Rightarrow> nat \<Rightarrow> project list \<Rightarrow> (int + project list) option" where
  "read_projects tm array idx acc =
     (case toml_table_at tm array idx of
        None \<Rightarrow> Some (Inr acc)
      | Some tbl \<Rightarrow>
          (case must_get_string tm tbl ''name'' of
             Inl e \<Rightarrow> Some (Inl e)
           | Inr name \<Rightarrow>
          (case must_get_string tm tbl ''file'' of
             Inl e \<Rightarrow> Some (Inl e)
           | Inr f \<Rightarrow>
          (case must_get_string tm tbl ''target'' of
             Inl e \<Rightarrow> Some (Inl e)
           | Inr tgt \<Rightarrow>
          (case get_string_list tm tbl ''dirs'' of
             None \<Rightarrow> None
           | Some (Inl e) \<Rightarrow> Some (Inl e)
           | Some (Inr dirs) \<Rightarrow>
               read_projects tm array (idx + 1)
                 (acc @ [\<lparr>p_name = name, p_file = f, p_target = tgt, p_uuid = [], p_dirs = dirs\<rparr>]))))))"

definition read_target :: "('t, 'a, 'r) toml \<Rightarrow> 't \<Rightarrow> (int + target) option" where
  "read_target tm tbl =
     and_then (Some (must_get_string tm tbl ''vs'')) (\<lambda>vs.
     and_then (Some (must_get_string tm tbl ''ninja'')) (\<lambda>ninja.
     and_then (Some (must_get_string tm tbl ''default'')) (\<lambda>def.
     and_then (get_string_list tm tbl ''defines'') (\<lambda>defines.
     and_then (get_string_list tm tbl ''includes'') (\<lambda>includes.
     and_then (Some (get_string tm tbl ''platform'' (Some ''x64''))) (\<lambda>platform.
       Some (Inr \<lparr>t_vs = vs, t_ninja = ninja, t_default_target = def,
         t_platform = (case platform of None \<Rightarrow> [] | Some s \<Rightarrow> s), t_defines = defines,
         t_includes = map (\<lambda>inc. replace_char inc (CHR ''/'') bsl) includes\<rparr>)))))))"

partial_function (option) read_targets ::
  "('t, 'a, 'r) toml \<Rightarrow> 'a \<Rightarrow> nat \<Rightarrow> target list \<Rightarrow> (int + target list) option" where
  "read_targets tm array idx acc =
     (case toml_table_at tm array idx of
        None \<Rightarrow> Some (Inr acc)
      | Some tbl \<Rightarrow>
          (case read_target tm tbl of
             None \<Rightarrow> None
           | Some (Inl e) \<Rightarrow> Some (Inl e)
           | Some (Inr t) \<Rightarrow> read_targets tm array (idx + 1) (acc @ [t])))"

text \<open>\<^verbatim>\<open>snprintf\<close> into a buffer of \<open>n\<close> bytes.\<close>

definition snprintf :: "nat \<Rightarrow> string \<Rightarrow> string" where
  "snprintf n s = take (n - 1) s"

record config =
  g_projects :: "project list"
  g_targets :: "target list"
  g_defines :: "string list"
  g_includes :: "string list"
  g_slnfile :: string
  g_ninja_exe :: string
  g_download_exe :: string
  g_generate :: "string option"

definition read_config :: "('t, 'a, 'r) toml \<Rightarrow> 't \<Rightarrow> (int + config) option" where
  "read_config tm root =
     and_then (case toml_array_in tm root ''project'' of None \<Rightarrow> Some (Inr []) | Some a \<Rightarrow> read_projects tm a 0 []) (\<lambda>projects.
     and_then (case toml_array_in tm root ''target'' of None \<Rightarrow> Some (Inr []) | Some a \<Rightarrow> read_targets tm a 0 []) (\<lambda>targets.
     and_then (get_string_list tm root ''defines'') (\<lambda>defines.
     and_then (get_string_list tm root ''includes'') (\<lambda>includes.
     and_then (Some (must_get_string tm root ''solution'')) (\<lambda>slnfile.
     and_then (Some (must_get_string tm root ''ninja'')) (\<lambda>ninja_exe.
     and_then (Some (get_string tm root ''download'' (Some (''$(SolutionDir)'' @ bslash @ ''download.exe'')))) (\<lambda>download_exe.
     and_then (Some (get_string tm root ''generate'' None)) (\<lambda>generate.
       Some (Inr \<lparr>g_projects = projects, g_targets = targets, g_defines = defines,
         g_includes = map (\<lambda>inc. replace_char inc (CHR ''/'') bsl) includes, g_slnfile = slnfile,
         g_ninja_exe = ninja_exe, g_download_exe = (case download_exe of None \<Rightarrow> [] | Some s \<Rightarrow> s),
         g_generate = generate\<rparr>)))))))))"

definition build_all :: "(bytes \<Rightarrow> bytes) \<Rightarrow> config \<Rightarrow> command" where
  "build_all sha1 g =
     (let dl = g_download_exe g @ '' $(SolutionDir) '' @ g_ninja_exe g
      in \<lparr>cmd_name = ''_BUILD_ALL'', cmd_build = snprintf 1024 (dl @ '' {DEFAULT}''),
          cmd_clean = snprintf 1024 (dl @ '' -t clean {DEFAULT}''),
          cmd_rebuild = snprintf 2048 (dl @ '' -t clean {DEFAULT} &amp;&amp; '' @ dl @ '' {DEFAULT}''),
          cmd_uuid = generate_uuid sha1 ''_BUILD_ALL.vcxproj''\<rparr>)"

definition generate_command :: "(bytes \<Rightarrow> bytes) \<Rightarrow> string \<Rightarrow> command" where
  "generate_command sha1 generate =
     \<lparr>cmd_name = ''_GENERATE_VCXPROJ'', cmd_build = generate, cmd_clean = [], cmd_rebuild = generate,
      cmd_uuid = generate_uuid sha1 ''_GENERATE_VCXPROJ.vcxproj''\<rparr>"

type_synonym outputs = "(string \<times> string) list"

text \<open>
  \<open>can\<close> says which files \<^verbatim>\<open>must_fopen\<close> can open.  The result is the exit status with the files
  written.
\<close>

fun write_projects ::
  "(bytes \<Rightarrow> bytes) \<Rightarrow> (string \<Rightarrow> bool) \<Rightarrow> listing \<Rightarrow> config \<Rightarrow> project list \<Rightarrow> file_list
    \<Rightarrow> (int option \<times> outputs \<times> project list) option" where
  "write_projects sha1 can ls g [] fl = Some (None, [], [])"
| "write_projects sha1 can ls g (p # ps) fl =
     (if \<not> can (p_file p) then Some (Some 3, [], p # ps)
      else let p1 = p\<lparr>p_uuid := generate_uuid sha1 (p_file p), p_file := replace_char (p_file p) (CHR ''/'') bsl\<rparr>
           in case write_project ls p1 (g_targets g) (g_defines g) (g_includes g) (g_download_exe g) (g_ninja_exe g) fl of
                None \<Rightarrow> None
              | Some (out, fl1) \<Rightarrow>
                  map_option (\<lambda>(e, outs, ps1). (e, (p_file p, out) # outs, p1 # ps1)) (write_projects sha1 can ls g ps fl1))"

definition empty_list :: file_list where
  "empty_list = \<lparr>cap_files = 0, num_files = 0, all_files = []\<rparr>"

definition write_all ::
  "(bytes \<Rightarrow> bytes) \<Rightarrow> (string \<Rightarrow> bool) \<Rightarrow> listing \<Rightarrow> config \<Rightarrow> (int \<times> outputs) option" where
  "write_all sha1 can ls g =
     (let def = build_all sha1 g; gen = map_option (generate_command sha1) (g_generate g)
      in if \<not> can ''_BUILD_ALL.vcxproj'' then Some (3, [])
         else case write_command ls def (g_targets g) (Some print_ninja) empty_list of
           None \<Rightarrow> None
         | Some (out1, fl1) \<Rightarrow>
             let w1 = [(''_BUILD_ALL.vcxproj'', out1)]
             in case (case gen of
                        None \<Rightarrow> Some (None, w1, fl1)
                      | Some c \<Rightarrow>
                          if \<not> can ''_GENERATE_VCXPROJ.vcxproj'' then Some (Some 3, w1, fl1)
                          else map_option (\<lambda>(out2, fl2). (None, w1 @ [(''_GENERATE_VCXPROJ.vcxproj'', out2)], fl2))
                                 (write_command ls c (g_targets g) (Some print_generate) fl1)) of
                  None \<Rightarrow> None
                | Some (Some e, w2, fl2) \<Rightarrow> Some (e, w2)
                | Some (None, w2, fl2) \<Rightarrow>
                    (case write_projects sha1 can ls g (g_projects g) fl2 of
                       None \<Rightarrow> None
                     | Some (Some e, w3, ps) \<Rightarrow> Some (e, w2 @ w3)
                     | Some (None, w3, ps) \<Rightarrow>
                         if \<not> can (g_slnfile g) then Some (3, w2 @ w3)
                         else Some (0, w2 @ w3 @ [(g_slnfile g, write_solution ps (g_targets g) def gen)])))"

definition generate_main ::
  "('t, 'a, 'r) toml \<Rightarrow> (bytes \<Rightarrow> bytes) \<Rightarrow> (string \<Rightarrow> bool) \<Rightarrow> (string \<Rightarrow> bool) \<Rightarrow> bool \<Rightarrow> 't option \<Rightarrow> listing
    \<Rightarrow> string list \<Rightarrow> (int \<times> outputs) option" where
  "generate_main tm sha1 chdir can readable parsed ls argv =
     (if 1 < length argv \<and> \<not> chdir (argv ! 1) then Some (1, [])
      else if \<not> readable then Some (3, [])
      else case parsed of
             None \<Rightarrow> Some (4, [])
           | Some root \<Rightarrow>
               (case read_config tm root of
                  None \<Rightarrow> None
                | Some (Inl e) \<Rightarrow> Some (e, [])
                | Some (Inr g) \<Rightarrow> write_all sha1 can ls g))"

end
