(* ===== verification/Generate_Correct.thy ===== *)
theory Generate_Correct
  imports Generate_Main "HOL-Library.Multiset"
begin

text \<open>
  What \<^verbatim>\<open>generate.c\<close> computes: relative paths, text replacement, identifiers, the sorted listing of a
  directory, and the files that belong together.
\<close>

subsection \<open>Relative paths\<close>

text \<open>The path of a file with name \<open>fn\<close> below the directories \<open>ds\<close>, and the path of a directory.\<close>

definition file_path_of :: "string list \<Rightarrow> string \<Rightarrow> string" where
  "file_path_of ds fn = concat (map (\<lambda>d. d @ [bsl]) ds) @ fn"

fun dir_path_of :: "string list \<Rightarrow> string" where
  "dir_path_of [] = []"
| "dir_path_of (e # es) = e @ (if es = [] then [] else bsl # dir_path_of es)"

definition name_ok :: "string \<Rightarrow> bool" where
  "name_ok d \<longleftrightarrow> d \<noteq> [] \<and> bsl \<notin> set d \<and> d \<noteq> ''.'' \<and> d \<noteq> ''..''"

fun common :: "string list \<Rightarrow> string list \<Rightarrow> nat" where
  "common (d # ds) (e # es) = (if d = e then Suc (common ds es) else 0)"
| "common _ _ = 0"

lemma file_path_of_simps [simp]:
  "file_path_of [] fn = fn" "file_path_of (d # ds) fn = d @ bsl # file_path_of ds fn"
  by (simp_all add: file_path_of_def)

lemma dir_path_of_eq_Nil: "\<forall>e \<in> set es. name_ok e \<Longrightarrow> dir_path_of es = [] \<longleftrightarrow> es = []"
  by (cases es) (auto simp: name_ok_def)

lemma common_le: "common ds es \<le> length ds" "common ds es \<le> length es"
  by (induction ds es rule: common.induct) auto

lemma common_take: "take (common ds es) ds = take (common ds es) es"
  by (induction ds es rule: common.induct) auto

text \<open>A name is a prefix of another path only up to the end of that path's first component, or inside it.\<close>

lemma name_prefix:
  assumes "name_ok d" "name_ok e" "d \<noteq> e" "take (length d) (dir_path_of (e # es)) = d"
  shows "drop (length d) (dir_path_of (e # es)) \<noteq> []" and "hd (drop (length d) (dir_path_of (e # es))) \<noteq> bsl"
proof -
  have lt: "length d < length e"
  proof (rule ccontr)
    assume "\<not> length d < length e"
    then have le: "length e \<le> length d"
      by simp
    show False
    proof (cases "length e = length d")
      case True
      then show ?thesis
        using assms(3,4) by simp
    next
      case False
      with le have "length e < length d"
        by simp
      show ?thesis
      proof (cases "es = []")
        case True
        then show ?thesis
          using assms(4) \<open>length e < length d\<close> by (metis append_Nil2 dir_path_of.simps(2) leD length_take min.cobounded1)
      next
        case es: False
        then have "take (length d) (e @ bsl # dir_path_of es) ! length e = bsl"
          using \<open>length e < length d\<close> by (simp add: nth_append)
        then have "d ! length e = bsl"
          using assms(4) es by simp
        then show ?thesis
          using assms(1) \<open>length e < length d\<close> nth_mem unfolding name_ok_def by metis
      qed
    qed
  qed
  then have d: "drop (length d) (dir_path_of (e # es)) = drop (length d) e @ (if es = [] then [] else bsl # dir_path_of es)"
    by simp
  have ne: "drop (length d) e \<noteq> []"
    using lt by simp
  then have "hd (drop (length d) e) \<in> set e"
    by (meson hd_in_set in_set_dropD)
  then show "hd (drop (length d) (dir_path_of (e # es))) \<noteq> bsl"
    using assms(2) ne unfolding d by (auto simp: name_ok_def)
  show "drop (length d) (dir_path_of (e # es)) \<noteq> []"
    using ne unfolding d by simp
qed

lemma rel_common_ok:
  assumes "\<forall>d \<in> set ds. name_ok d" "\<forall>e \<in> set es. name_ok e" "bsl \<notin> set fn"
  shows "rel_common (file_path_of ds fn) (dir_path_of es)
    = (file_path_of (drop (common ds es) ds) fn, dir_path_of (drop (common ds es) es))"
  using assms(1,2)
proof (induction ds arbitrary: es)
  case Nil
  have "strchr fn bsl = None"
    using assms(3) by (simp add: strchr_None_iff)
  then show ?case
    by (subst rel_common.simps) simp
next
  case (Cons d ds)
  have d: "name_ok d" "bsl \<notin> set d" "d \<noteq> []"
    using Cons.prems(1) by (auto simp: name_ok_def)
  let ?v = "file_path_of (d # ds) fn"
  have s: "strchr ?v bsl = Some (bsl # file_path_of ds fn)"
    using d by simp
  have stop: "rel_common ?v dir = (?v, dir)"
    if "take (length d) dir \<noteq> d \<or> (drop (length d) dir \<noteq> [] \<and> hd (drop (length d) dir) \<noteq> bsl)" for dir
    using s that by (subst rel_common.simps) (auto simp: Let_def strncmp_eq_def)
  show ?case
  proof (cases es)
    case Nil
    then show ?thesis
      using stop [of "[]"] d by simp
  next
    case (Cons e es')
    show ?thesis
    proof (cases "d = e")
      case True
      have "rel_common ?v (dir_path_of es) = rel_common (file_path_of ds fn) (dir_path_of es')"
        using s True local.Cons by (subst rel_common.simps) (simp add: Let_def strncmp_eq_def)
      then show ?thesis
        using Cons.IH [of es'] Cons.prems True local.Cons by simp
    next
      case False
      have "name_ok e"
        using Cons.prems(2) local.Cons by simp
      then have "rel_common ?v (dir_path_of es) = (?v, dir_path_of es)"
        using stop name_prefix [OF d(1) _ False, of es'] unfolding local.Cons by blast
      then show ?thesis
        using False local.Cons by simp
    qed
  qed
qed

lemma rel_up_ok:
  assumes "\<forall>d \<in> set ds. name_ok d" "bsl \<notin> set fn"
  shows "rel_up (file_path_of ds fn) = concat (replicate (length ds) (''..'' @ [bsl]))"
  using assms(1)
proof (induction ds)
  case Nil
  have "strchr fn bsl = None"
    using assms(2) by (simp add: strchr_None_iff)
  then show ?case
    by (subst rel_up.simps) simp
next
  case (Cons d ds)
  have "dropWhile (\<lambda>c. c = bsl) (file_path_of ds fn) = file_path_of ds fn"
    using Cons.prems assms(2) by (cases ds; cases "hd ds"; cases fn) (auto simp: name_ok_def)
  moreover have "bsl \<notin> set d"
    using Cons.prems by (simp add: name_ok_def)
  ultimately show ?case
    using Cons by (subst rel_up.simps) simp
qed

text \<open>Walking from a directory along the components of a relative path.\<close>

definition step_to :: "string list \<Rightarrow> string \<Rightarrow> string list" where
  "step_to at c = (if c = ''..'' then butlast at else if c = ''.'' then at else at @ [c])"

definition walk :: "string list \<Rightarrow> string list \<Rightarrow> string list" where
  "walk from path = foldl step_to from path"

definition rel_parts :: "string list \<Rightarrow> string list \<Rightarrow> string list" where
  "rel_parts ds es = replicate (length ds - common ds es) ''..'' @ drop (common ds es) es"

lemma print_relative_path_parts:
  assumes "\<forall>d \<in> set ds. name_ok d" "\<forall>e \<in> set es. name_ok e" "bsl \<notin> set fn"
  shows "print_relative_path (file_path_of ds fn) (dir_path_of es) = concat (map (\<lambda>c. c @ [bsl]) (rel_parts ds es))"
proof -
  let ?c = "common ds es"
  have tail: "(if dir_path_of xs \<noteq> [] then dir_path_of xs @ [bsl] else []) = concat (map (\<lambda>c. c @ [bsl]) xs)"
    if "\<forall>x \<in> set xs. name_ok x" for xs
    using that by (induction xs rule: dir_path_of.induct) (auto simp: dir_path_of_eq_Nil name_ok_def)
  have "rel_up (file_path_of (drop ?c ds) fn) = concat (replicate (length ds - ?c) (''..'' @ [bsl]))"
    using rel_up_ok [of "drop ?c ds" fn] assms(1,3) by (auto dest: in_set_dropD)
  moreover have "\<forall>x \<in> set (drop ?c es). name_ok x"
    using assms(2) in_set_dropD by fast
  from tail [OF this] have "(if dir_path_of (drop ?c es) \<noteq> [] then dir_path_of (drop ?c es) @ [bsl] else [])
      = concat (map (\<lambda>c. c @ [bsl]) (drop ?c es))" .
  moreover have "concat (map (\<lambda>c. c @ [bsl]) (replicate n ''..'')) = concat (replicate n (''..'' @ [bsl]))" for n
    by simp
  ultimately show ?thesis
    unfolding print_relative_path_def rel_common_ok [OF assms] rel_parts_def map_append concat_append
    by (simp only: Let_def prod.case)
qed

lemma walk_up: "walk ds (replicate k ''..'' @ ns) = walk (take (length ds - k) ds) ns"
proof (induction k arbitrary: ds)
  case (Suc k)
  have "take (length (butlast ds) - k) (butlast ds) = take (length ds - Suc k) ds"
    by (simp add: butlast_conv_take min_def)
  with Suc [of "butlast ds"] show ?case
    by (simp add: walk_def step_to_def)
qed simp

lemma walk_down: "\<forall>n \<in> set ns. name_ok n \<Longrightarrow> walk ds ns = ds @ ns"
  by (induction ns arbitrary: ds) (auto simp: walk_def step_to_def name_ok_def)

lemma rel_parts_walk:
  assumes "\<forall>e \<in> set es. name_ok e"
  shows "walk ds (rel_parts ds es) = es"
proof -
  have "\<forall>n \<in> set (drop (common ds es) es). name_ok n"
    using assms by (auto dest: in_set_dropD)
  then show ?thesis
    using common_le(1) [of ds es] common_take [of ds es] by (simp add: rel_parts_def walk_up walk_down)
qed

text \<open>One step changes the distance of two directories by at most one.\<close>

lemma common_butlast: "common (butlast ds) es \<le> common ds es"
proof (induction ds es rule: common.induct)
  case (1 d ds e es)
  then show ?case
    by (cases ds) auto
qed auto

lemma common_snoc: "common (ds @ [c]) es \<le> Suc (common ds es)"
proof (induction ds arbitrary: es)
  case Nil
  then show ?case
    by (cases es) auto
next
  case (Cons d ds)
  then show ?case
    by (cases es) auto
qed

lemma length_rel_parts: "length (rel_parts ds es) = length ds + length es - 2 * common ds es"
  using common_le [of ds es] by (simp add: rel_parts_def)

lemma rel_parts_step: "length (rel_parts ds es) \<le> Suc (length (rel_parts (step_to ds c) es))"
  using common_butlast [of ds es] common_snoc [of ds c es] common_le [of ds es] common_le [of "butlast ds" es]
    common_le [of "ds @ [c]" es]
  unfolding length_rel_parts step_to_def by (auto split: if_splits)

lemma rel_parts_shortest: "length (rel_parts ds (walk ds cs)) \<le> length cs"
proof (induction cs arbitrary: ds)
  case Nil
  have "common ds ds = length ds"
    by (induction ds) auto
  then show ?case
    by (simp add: walk_def length_rel_parts)
next
  case (Cons c cs)
  have "walk ds (c # cs) = walk (step_to ds c) cs"
    by (simp add: walk_def)
  with Cons [of "step_to ds c"] rel_parts_step [of ds "walk ds (c # cs)" c] show ?case
    by simp
qed

text \<open>
  A directory that is given as \<^verbatim>\<open>.\<close>, as the program itself does, is printed although nothing has to be printed.
\<close>

lemma relative_path_dot: "print_relative_path [] ''.'' = ''.'' @ [bsl] \<and> walk [] [] = walk [] [''.'']"
  by (simp add: print_relative_path_def rel_common.simps rel_up.simps walk_def step_to_def)


subsection \<open>Replacement\<close>

lemma strstr_first:
  assumes "strstr s u = Some p" "u \<noteq> []"
  shows "\<exists>xs ys. s = xs @ u @ ys \<and> p = u @ ys \<and> strstr xs u = None"
  using assms(1)
proof (induction s)
  case Nil
  then show ?case
    using assms(2) by (subst (asm) strstr.simps) (auto simp: starts_with_def split: if_splits)
next
  case (Cons x s)
  show ?case
  proof (cases "starts_with (x # s) u")
    case True
    then obtain r where "x # s = u @ r"
      by (auto simp: starts_with_iff)
    moreover have "p = x # s"
      using Cons.prems True by (subst (asm) strstr.simps) simp
    moreover have "strstr [] u = None"
      using assms(2) by (subst strstr.simps) (simp add: starts_with_def)
    ultimately show ?thesis
      by (intro exI [of _ "[]"] exI [of _ r]) simp
  next
    case False
    then have "strstr s u = Some p"
      using Cons.prems by (subst (asm) strstr.simps) simp
    then obtain xs ys where s: "s = xs @ u @ ys" "p = u @ ys" "strstr xs u = None"
      using Cons.IH by blast
    have "\<not> starts_with (x # xs) u"
    proof
      assume "starts_with (x # xs) u"
      then have "starts_with (x # s) u"
        unfolding starts_with_iff s(1) by (metis append_Cons append_assoc)
      with False show False ..
    qed
    then have "strstr (x # xs) u = None"
      using s(3) by (subst strstr.simps) simp
    with s show ?thesis
      by (intro exI [of _ "x # xs"] exI [of _ ys]) simp
  qed
qed

text \<open>The reference: the pieces between the occurrences, glued with the replacement.\<close>

fun glue :: "string \<Rightarrow> string list \<Rightarrow> string" where
  "glue g [] = []"
| "glue g (x # xs) = x @ (if xs = [] then [] else g @ glue g xs)"

lemma dup_ok:
  assumes "u \<noteq> []"
  shows "\<exists>xs. xs \<noteq> [] \<and> s = glue u xs \<and> (\<forall>x \<in> set xs. strstr x u = None)
    \<and> (\<forall>sz. dup_size s u r sz = Some (sz + of_nat (length (glue r xs))))
    \<and> (\<forall>p. dup_copy s u r p = Some (p @ glue r xs))"
proof (induction "length s" arbitrary: s rule: less_induct)
  case less
  show ?case
  proof (cases "strstr s u")
    case None
    then show ?thesis
      by (intro exI [of _ "[s]"]) (simp add: dup_size.simps [of s] dup_copy.simps [of s])
  next
    case (Some p)
    then obtain xs ys where s: "s = xs @ u @ ys" "p = u @ ys" "strstr xs u = None"
      using strstr_first assms by blast
    then have lt: "length ys < length s"
      using assms by simp
    obtain zs where zs: "zs \<noteq> []" "ys = glue u zs" "\<forall>x \<in> set zs. strstr x u = None"
      "\<And>sz. dup_size ys u r sz = Some (sz + of_nat (length (glue r zs)))" "\<And>p. dup_copy ys u r p = Some (p @ glue r zs)"
      using less [OF lt] by blast
    have b: "before s p = xs"
      using s(1,2) by simp
    have "dup_size s u r sz = Some (sz + of_nat (length (glue r (xs # zs))))" for sz
      using Some s(2) b zs(1,4) by (simp add: dup_size.simps [of s] algebra_simps)
    moreover have "dup_copy s u r q = Some (q @ glue r (xs # zs))" for q
      using Some s(2) b zs(1,5) by (simp add: dup_copy.simps [of s])
    ultimately show ?thesis
      using s zs by (intro exI [of _ "xs # zs"]) simp
  qed
qed

lemma dup_with_replacement_ok:
  assumes "u \<noteq> []"
  shows "\<exists>xs. xs \<noteq> [] \<and> s = glue u xs \<and> (\<forall>x \<in> set xs. strstr x u = None)
    \<and> dup_with_replacement s u r = Some (of_nat (length (glue r xs) + 1), glue r xs)"
  using dup_ok [OF assms, of s r] by (auto simp: dup_with_replacement_def)

lemma replaced_total: "u \<noteq> [] \<Longrightarrow> \<exists>r'. replaced s u r = Some r'"
  using dup_with_replacement_ok [of u s r] by (auto simp: replaced_def)


subsection \<open>Identifiers\<close>

lemma hex_upper_5: "hex_upper 5 = CHR ''5''"
  by (simp add: hex_upper_def char_of_eq_iff take_bit_eq_mod)

lemma length_hex2 [simp]: "length (hex2 n) = 2"
  by (simp add: hex2_def)

lemma version_nibble: "((b AND 0xF) OR 0x50 :: nat) div 16 = 5"
proof -
  have "drop_bit 4 ((b AND 0xF) OR 0x50) = 5"
    by (simp add: drop_bit_or drop_bit_and)
  then show ?thesis
    by (simp add: drop_bit_eq_div)
qed

lemma variant_nibble: "((b AND 0x3F) OR 0x80 :: nat) div 16 \<in> {8, 9, 10, 11}"
proof -
  have "drop_bit 4 ((b AND 0x3F) OR 0x80) = (drop_bit 4 b AND 3) OR 8"
    by (simp add: drop_bit_or drop_bit_and)
  moreover have "x AND 3 \<in> {0, 1, 2, 3 :: nat}" for x
  proof -
    have "(3 :: nat) = mask 2"
      by (simp add: mask_eq_exp_minus_1)
    then have "x AND 3 = x mod 4"
      using take_bit_eq_mask [of 2 x] by (simp add: take_bit_eq_mod)
    then show ?thesis
      by auto
  qed
  then have "drop_bit 4 b AND 3 \<in> {0, 1, 2, 3}" .
  ultimately have "drop_bit 4 ((b AND 0x3F) OR 0x80) \<in> {8, 9, 10, 11}"
    by auto
  then show ?thesis
    by (simp add: drop_bit_eq_div)
qed

text \<open>A name-based identifier of version 5 and of the RFC 4122 variant, which fits its buffer.\<close>

lemma generate_uuid_format:
  assumes "length (sha1 (nsuuid @ f)) = 20"
  shows "length (generate_uuid sha1 f) = 38"
    and "generate_uuid sha1 f ! 15 = CHR ''5''"
    and "generate_uuid sha1 f ! 20 \<in> set ''89AB''"
proof -
  define h0 :: "nat list" where "h0 = map of_char (sha1 (nsuuid @ f))"
  let ?h1 = "h0[6 := (h0 ! 6 AND 0xF) OR 0x50]"
  let ?h = "?h1[8 := (?h1 ! 8 AND 0x3F) OR 0x80]"
  have len: "length h0 = 20"
    using assms by (simp add: h0_def)
  have h6: "?h ! 6 = (h0 ! 6 AND 0xF) OR 0x50" and h8: "?h ! 8 = (h0 ! 8 AND 0x3F) OR 0x80"
    using len by simp_all
  have u: "generate_uuid sha1 f =
     ''{'' @ hex2 (?h ! 0) @ hex2 (?h ! 1) @ hex2 (?h ! 2) @ hex2 (?h ! 3) @ ''-'' @ hex2 (?h ! 4) @ hex2 (?h ! 5) @ ''-''
     @ hex2 (?h ! 6) @ hex2 (?h ! 7) @ ''-'' @ hex2 (?h ! 8) @ hex2 (?h ! 9) @ ''-'' @ hex2 (?h ! 10) @ hex2 (?h ! 11)
     @ hex2 (?h ! 12) @ hex2 (?h ! 13) @ hex2 (?h ! 14) @ hex2 (?h ! 15) @ ''}''"
    unfolding generate_uuid_def Let_def h0_def [symmetric] ..
  show "length (generate_uuid sha1 f) = 38"
    unfolding u by simp
  have "generate_uuid sha1 f ! 15 = hex_upper (?h ! 6 div 16)"
    unfolding u by (simp add: hex2_def)
  then show "generate_uuid sha1 f ! 15 = CHR ''5''"
    unfolding h6 version_nibble hex_upper_5 .
  have "generate_uuid sha1 f ! 20 = hex_upper (?h ! 8 div 16)"
    unfolding u by (simp add: hex2_def)
  then show "generate_uuid sha1 f ! 20 \<in> set ''89AB''"
    unfolding h8 using variant_nibble [of "h0 ! 8"]
    by (auto simp: hex_upper_def char_of_eq_iff take_bit_eq_mod)
qed


subsection \<open>Listing a directory\<close>

lemma strcmp_refl: "strcmp a a = 0"
  by (induction a) auto

lemma strcmp_total: "strcmp a b \<le> 0 \<or> strcmp b a \<le> 0"
  by (induction a b rule: strcmp.induct) auto

text \<open>The strings of C hold no NUL; on them \<^verbatim>\<open>strcmp\<close> is a total order.\<close>

lemma of_char_nat_0: "(of_char x :: nat) = 0 \<longleftrightarrow> x = NUL" "0 < (of_char x :: nat) \<longleftrightarrow> x \<noteq> NUL"
proof -
  have "(of_char x :: nat) = 0 \<longleftrightarrow> (of_char x :: nat) = of_char NUL"
    by simp
  then show *: "(of_char x :: nat) = 0 \<longleftrightarrow> x = NUL"
    by (simp only: of_char_eq_iff)
  show "0 < (of_char x :: nat) \<longleftrightarrow> x \<noteq> NUL"
    using * by linarith
qed

lemma strcmp_nil: "NUL \<notin> set a \<Longrightarrow> strcmp a [] \<le> 0 \<longleftrightarrow> a = []"
  by (cases a) (auto simp: not_le of_char_nat_0)

lemma strcmp_trans:
  "strcmp a b \<le> 0 \<Longrightarrow> strcmp b c \<le> 0 \<Longrightarrow> NUL \<notin> set a \<union> set b \<Longrightarrow> strcmp a c \<le> 0"
proof (induction a b arbitrary: c rule: strcmp.induct)
  case (1 c)
  then show ?case
    by simp
next
  case (2 y ys)
  then show ?case
    by (cases c) auto
next
  case (3 x xs)
  then show ?case
    using strcmp_nil [of "x # xs"] by simp
next
  case (4 x xs y ys)
  then show ?case
    by (cases c) (auto simp: strcmp_nil split: if_splits)
qed

lemma strcmp_antisym: "strcmp a b = 0 \<Longrightarrow> NUL \<notin> set a \<union> set b \<Longrightarrow> a = b"
  by (induction a b rule: strcmp.induct) (auto simp: of_char_nat_0 split: if_splits)

lemma mset_qsort_insert [simp]: "mset (qsort_insert cmp x xs) = add_mset x (mset xs)"
  by (induction cmp x xs rule: qsort_insert.induct) auto

lemma set_qsort_insert [simp]: "set (qsort_insert cmp x xs) = insert x (set xs)"
  using mset_qsort_insert [of cmp x xs] by (metis set_mset_add_mset_insert set_mset_mset)

lemma mset_qsort: "mset (qsort cmp xs) = mset xs"
  by (induction xs) (auto simp: qsort_def)

lemma set_qsort [simp]: "set (qsort cmp xs) = set xs"
  using mset_qsort [of cmp xs] by (metis set_mset_mset)

abbreviation ascending :: "string list \<Rightarrow> bool" where
  "ascending \<equiv> sorted_wrt (\<lambda>a b. compare_file a b \<le> 0)"

lemma ascending_insert:
  "ascending xs \<Longrightarrow> \<forall>y \<in> insert x (set xs). NUL \<notin> set y \<Longrightarrow> ascending (qsort_insert compare_file x xs)"
proof (induction xs)
  case (Cons y ys)
  show ?case
  proof (cases "compare_file x y \<le> 0")
    case True
    then show ?thesis
      using Cons.prems by (auto simp: compare_file_def intro: strcmp_trans [of x y])
  next
    case False
    then have "compare_file y x \<le> 0"
      using strcmp_total [of x y] by (simp add: compare_file_def)
    then show ?thesis
      using Cons False by auto
  qed
qed simp

lemma qsort_ascending: "\<forall>y \<in> set xs. NUL \<notin> set y \<Longrightarrow> ascending (qsort compare_file xs)"
proof (induction xs)
  case (Cons x xs)
  then have "ascending (qsort_insert compare_file x (qsort compare_file xs))"
    by (intro ascending_insert) auto
  then show ?case
    by (simp add: qsort_def)
qed (simp add: qsort_def)

text \<open>
  The array holds exactly the names added since it was emptied, and never more than its capacity;
  \<open>N\<close> bounds the number of names.
\<close>

definition files_ok :: "nat \<Rightarrow> file_list \<Rightarrow> bool" where
  "files_ok N fl \<longleftrightarrow> length (all_files fl) = unat (num_files fl) \<and> num_files fl \<le> cap_files fl
     \<and> unat (cap_files fl) \<le> (N + 16) * 3 div 2"

lemma grown_capacity:
  assumes "unat (c :: size_t) < 2 ^ 60"
  shows "unat ((c + 16) * 3 div 2) = (unat c + 16) * 3 div 2"
proof -
  have "unat (c + 16) = unat c + 16"
    using assms by (subst unat_add_lem [THEN iffD1]) auto
  moreover from this have "unat ((c + 16) * 3) = (unat c + 16) * 3"
    using assms by (subst unat_mult_lem [THEN iffD1]) auto
  ultimately show ?thesis
    by (simp add: unat_div)
qed

lemma add_file_ok:
  assumes "files_ok N fl" "length (all_files fl) < N" "N < 2 ^ 59"
  shows "files_ok N (add_file f fl)"
    and "all_files (add_file f fl) = all_files fl @ [f]"
    and "num_files fl < cap_files (add_file f fl)"
    and "unat (cap_files (add_file f fl) * 8) = unat (cap_files (add_file f fl)) * 8"
proof -
  let ?c = "cap_files (add_file f fl)"
  have n: "unat (num_files fl) < N" "length (all_files fl) = unat (num_files fl)" and le: "num_files fl \<le> cap_files fl"
    and c0: "unat (cap_files fl) \<le> (N + 16) * 3 div 2"
    using assms by (auto simp: files_ok_def)
  have c: "unat (num_files fl) < unat ?c \<and> unat ?c \<le> (N + 16) * 3 div 2"
  proof (cases "num_files fl = cap_files fl")
    case True
    then have "unat ?c = (unat (num_files fl) + 16) * 3 div 2"
      using grown_capacity [of "cap_files fl"] n assms(3) by (simp add: add_file_def Let_def)
    moreover have "(unat (num_files fl) + 16) * 3 div 2 \<le> (N + 16) * 3 div 2"
      using n by (intro div_le_mono) simp
    moreover have "k < (k + 16) * 3 div 2" for k :: nat
      by simp
    ultimately show ?thesis
      by simp
  next
    case False
    then have "num_files fl < cap_files fl"
      using le by simp
    then show ?thesis
      using c0 False by (simp add: add_file_def Let_def word_less_nat_alt)
  qed
  then show lt: "num_files fl < ?c"
    by (simp add: word_less_nat_alt)
  show all: "all_files (add_file f fl) = all_files fl @ [f]"
    using n by (simp add: add_file_def Let_def)
  have num: "num_files (add_file f fl) = num_files fl + 1"
    by (simp add: add_file_def Let_def)
  have "unat (num_files fl + 1) = unat (num_files fl) + 1"
    using n assms(3) by (subst unat_add_lem [THEN iffD1]) auto
  then show "files_ok N (add_file f fl)"
    using c n by (simp add: files_ok_def all num word_le_nat_alt)
  have "unat ?c * 8 < 2 ^ 64"
    using c assms(3) by (simp add: field_simps) linarith
  then show "unat (?c * 8) = unat ?c * 8"
    by (subst unat_mult_lem [THEN iffD1]) auto
qed

definition regular :: "listing \<Rightarrow> string \<Rightarrow> string list" where
  "regular ls dir = (case ls dir of None \<Rightarrow> [] | Some es \<Rightarrow> map fst (filter snd es))"

lemma list_fold_ok:
  "files_ok N fl \<Longrightarrow> length (all_files fl) + length (filter snd es) \<le> N \<Longrightarrow> N < 2 ^ 59
    \<Longrightarrow> files_ok N (fold (\<lambda>(name, reg) fl. if reg then add_file name fl else fl) es fl)
      \<and> all_files (fold (\<lambda>(name, reg) fl. if reg then add_file name fl else fl) es fl)
        = all_files fl @ map fst (filter snd es)"
proof (induction es arbitrary: fl)
  case (Cons e es)
  show ?case
  proof (cases "snd e")
    case True
    then have "length (all_files fl) < N"
      using Cons.prems by simp
    note a = add_file_ok [OF Cons.prems(1) this Cons.prems(3), of "fst e"]
    show ?thesis
      using Cons.IH [OF a(1)] Cons.prems True by (simp add: a(2) case_prod_beta)
  next
    case False
    then show ?thesis
      using Cons by (simp add: case_prod_beta)
  qed
qed simp

lemma list_directory_ok:
  assumes "files_ok N fl" "length (all_files fl) + length (regular ls dir) \<le> N" "N < 2 ^ 59"
  shows "files_ok N (list_directory ls dir fl) \<and> all_files (list_directory ls dir fl) = all_files fl @ regular ls dir"
  using assms list_fold_ok [of N fl "the (ls dir)"]
  by (cases "ls dir") (auto simp: list_directory_def regular_def)

text \<open>The entries of a directory are printed once each, in ascending order of the names.\<close>

lemma print_files_ok:
  assumes "files_ok N fl" "all_files fl = []" "length (regular ls dir') \<le> N" "N < 2 ^ 59"
    and "dir' = replace_char dir bsl (CHR ''/'')" "regular ls dir' \<noteq> []"
  shows "fst (print_files ls fn vcx dir fl)
      = concat (map (fn vcx (replace_char dir' (CHR ''/'') bsl)) (qsort compare_file (regular ls dir')))"
    and "files_ok N (snd (snd (print_files ls fn vcx dir fl)))"
    and "all_files (snd (snd (print_files ls fn vcx dir fl))) = []"
proof -
  let ?fl = "list_directory ls dir' fl"
  have ok: "files_ok N ?fl" and all: "all_files ?fl = regular ls dir'"
    using list_directory_ok [of N fl ls dir'] assms by auto
  then have "unat (num_files ?fl) = length (regular ls dir')"
    by (simp add: files_ok_def)
  moreover from this have "num_files ?fl \<noteq> 0"
    using assms(6) by auto
  ultimately show "fst (print_files ls fn vcx dir fl)
      = concat (map (fn vcx (replace_char dir' (CHR ''/'') bsl)) (qsort compare_file (regular ls dir')))"
    by (simp add: print_files_def Let_def all flip: assms(5))
  show "files_ok N (snd (snd (print_files ls fn vcx dir fl)))" "all_files (snd (snd (print_files ls fn vcx dir fl))) = []"
    using ok by (auto simp: print_files_def Let_def files_ok_def simp flip: assms(5))
qed


subsection \<open>The files that belong together\<close>

lemma sublist_skip: "sublist x y \<Longrightarrow> sublist x (z @ y)"
  by (metis append.assoc sublist_def)

lemma all_some_total: "\<forall>x \<in> set xs. x \<noteq> None \<Longrightarrow> all_some xs \<noteq> None"
  by (induction xs) auto

lemma project_target_total: "project_target tgt ds is dl nj t \<noteq> None"
  using replaced_total [of "''{TGT}''" tgt "t_ninja t"] by (auto simp: project_target_def)

lemma command_target_total: "command_target c t \<noteq> None"
proof -
  have "\<exists>r. replaced s ''{DEFAULT}'' (t_default_target t) = Some r" for s
    by (rule replaced_total) simp
  then obtain f where "\<And>s. replaced s ''{DEFAULT}'' (t_default_target t) = Some (f s)"
    by metis
  then show ?thesis
    by (simp add: command_target_def)
qed

text \<open>A project file declares the name and the identifier of its project.\<close>

lemma write_project_ok:
  "\<exists>out fl1. write_project ls p tgts ds is dl nj fl = Some (out, fl1) \<and> sublist (xml_globals (p_uuid p) (p_name p)) out"
proof -
  obtain gs where "all_some (map (project_target (p_target p) ds is dl nj) tgts) = Some gs"
    using all_some_total [of "map (project_target (p_target p) ds is dl nj) tgts"] project_target_total by fastforce
  then show ?thesis
    by (simp only: write_project_def case_prod_beta Let_def option.case option.inject prod.inject ex_simps simp_thms)
      (rule exI conjI refl sublist_append_rightI | rule sublist_skip)+
qed

lemma write_command_ok:
  "\<exists>out fl1. write_command ls c tgts fn fl = Some (out, fl1) \<and> sublist (xml_globals (cmd_uuid c) (cmd_name c)) out"
proof -
  obtain gs where "all_some (map (command_target c) tgts) = Some gs"
    using all_some_total [of "map (command_target c) tgts"] command_target_total by fastforce
  then show ?thesis
    by (simp only: write_command_def case_prod_beta Let_def option.case option.inject prod.inject ex_simps simp_thms)
      (rule exI conjI refl sublist_append_rightI | rule sublist_skip)+
qed

text \<open>A project as it is written: its identifier is made from the name of its file.\<close>

definition prepared :: "(bytes \<Rightarrow> bytes) \<Rightarrow> project \<Rightarrow> project" where
  "prepared sha1 p = p\<lparr>p_uuid := generate_uuid sha1 (p_file p), p_file := replace_char (p_file p) (CHR ''/'') bsl\<rparr>"

definition declares :: "(bytes \<Rightarrow> bytes) \<Rightarrow> project \<Rightarrow> string \<times> string \<Rightarrow> bool" where
  "declares sha1 p out \<longleftrightarrow> fst out = p_file p \<and> sublist (xml_globals (generate_uuid sha1 (p_file p)) (p_name p)) (snd out)"

lemma write_projects_ok:
  "\<forall>f. can f \<Longrightarrow> \<exists>outs. write_projects sha1 can ls g ps fl = Some (None, outs, map (prepared sha1) ps)
     \<and> list_all2 (declares sha1) ps outs"
proof (induction ps arbitrary: fl)
  case (Cons p ps)
  obtain out fl1 where o: "write_project ls (prepared sha1 p) (g_targets g) (g_defines g) (g_includes g) (g_download_exe g)
      (g_ninja_exe g) fl = Some (out, fl1)" "sublist (xml_globals (p_uuid (prepared sha1 p)) (p_name (prepared sha1 p))) out"
    using write_project_ok by blast
  obtain outs where "write_projects sha1 can ls g ps fl1 = Some (None, outs, map (prepared sha1) ps)"
    "list_all2 (declares sha1) ps outs"
    using Cons by blast
  then show ?case
    using o spec [OF Cons.prems, of "p_file p"]
    by (intro exI [of _ "(p_file p, out) # outs"]) (simp add: declares_def [of sha1 p] prepared_def [of sha1 p])
qed simp

text \<open>
  With every file writable the program ends with status 0 after it wrote a project file per project and
  the solution, whose entries carry the identifiers that the project files declare.
\<close>

lemma sln_mentions:
  "p \<in> set ps \<Longrightarrow> sublist (sln_project (p_name p) (p_file p) (p_uuid p)) (write_solution ps tgts def gen)"
proof -
  assume "p \<in> set ps"
  then have mem: "sublist (f p) (concat (map f ps))" for f :: "project \<Rightarrow> string"
    by (induction ps) (auto intro: sublist_skip)
  have "sublist x (y @ z)" if "sublist x y" for x y z :: string
    using that by (metis append.assoc sublist_def)
  note here = this [OF mem [of "\<lambda>p. sln_project (p_name p) (p_file p) (p_uuid p)"]]
  show ?thesis
    unfolding write_solution_def by (rule here | rule sublist_skip)+
qed

lemma write_all_ok:
  assumes "\<forall>f. can f"
  shows "\<exists>cmds outs sln. write_all sha1 can ls g = Some (0, cmds @ outs @ [(g_slnfile g, sln)])
    \<and> list_all2 (declares sha1) (g_projects g) outs
    \<and> (\<forall>p \<in> set (g_projects g). sublist (sln_project (p_name p) (replace_char (p_file p) (CHR ''/'') bsl)
          (generate_uuid sha1 (p_file p))) sln)"
proof -
  let ?def = "build_all sha1 g" and ?gen = "map_option (generate_command sha1) (g_generate g)"
  let ?sln = "write_solution (map (prepared sha1) (g_projects g)) (g_targets g) ?def ?gen"
  obtain out1 fl1 where c1: "write_command ls ?def (g_targets g) (Some print_ninja) empty_list = Some (out1, fl1)"
    using write_command_ok by blast
  obtain w2 fl2 where c2: "(case ?gen of
                        None \<Rightarrow> Some (None, [(''_BUILD_ALL.vcxproj'', out1)], fl1)
                      | Some c \<Rightarrow>
                          if \<not> can ''_GENERATE_VCXPROJ.vcxproj'' then Some (Some 3, [(''_BUILD_ALL.vcxproj'', out1)], fl1)
                          else map_option (\<lambda>(out2, fl2). (None, [(''_BUILD_ALL.vcxproj'', out1)] @ [(''_GENERATE_VCXPROJ.vcxproj'', out2)], fl2))
                                 (write_command ls c (g_targets g) (Some print_generate) fl1)) = Some (None :: int option, w2, fl2)"
    using write_command_ok [of ls "generate_command sha1 (the (g_generate g))" "g_targets g" "Some print_generate" fl1] assms
    by (cases "g_generate g") auto
  obtain outs where p: "write_projects sha1 can ls g (g_projects g) fl2 = Some (None, outs, map (prepared sha1) (g_projects g))"
    "list_all2 (declares sha1) (g_projects g) outs"
    using write_projects_ok [OF assms] by blast
  have "write_all sha1 can ls g = Some (0, w2 @ outs @ [(g_slnfile g, ?sln)])"
    using spec [OF assms, of "''_BUILD_ALL.vcxproj''"] spec [OF assms, of "g_slnfile g"]
    by (simp only: write_all_def Let_def c1 c2 p(1) option.case prod.case not_True_eq_False if_False append_assoc)
  moreover have "sublist (sln_project (p_name p) (replace_char (p_file p) (CHR ''/'') bsl) (generate_uuid sha1 (p_file p))) ?sln"
    if "p \<in> set (g_projects g)" for p
    using sln_mentions [of "prepared sha1 p" "map (prepared sha1) (g_projects g)"] that by (simp add: prepared_def)
  ultimately show ?thesis
    using p(2) by blast
qed

end
