(* ===== verification/Builtins_Words.thy ===== *)
theory Builtins_Words
  imports Prelude
begin

text \<open>
  The run-time library \<^verbatim>\<open>compiler-rt\<close> (\<^verbatim>\<open>lib/builtins\<close>): integers of two machine words, their shifts
  and their comparison.  A routine exists for 64 bits (\<^verbatim>\<open>di\<close>, two words of 32 bits) and for 128 bits
  (\<^verbatim>\<open>ti\<close>, two words of 64 bits); the text of the two is the same but for the types.  Here the text is
  a definition over the type \<open>'h\<close> of the half and \<open>'w\<close> of the whole, and the routines are its instances.
\<close>

subsection \<open>Two halves\<close>

text \<open>The unions \<^verbatim>\<open>dwords\<close>, \<^verbatim>\<open>udwords\<close>, \<^verbatim>\<open>twords\<close> and \<^verbatim>\<open>utwords\<close>.\<close>

definition s_high :: "'w::len word \<Rightarrow> 'h::len word" where
  "s_high x = ucast (drop_bit LENGTH('h) x)"

definition s_low :: "'w::len word \<Rightarrow> 'h::len word" where
  "s_low x = ucast x"

definition all_of :: "'h::len word \<Rightarrow> 'h word \<Rightarrow> 'w::len word" where
  "all_of high low = push_bit LENGTH('h) (ucast high) OR ucast low"

text \<open>That a type has twice as many bits as another.\<close>

definition twice :: "'h::len itself \<Rightarrow> 'w::len itself \<Rightarrow> bool" where
  "twice h w \<longleftrightarrow> LENGTH('w) = 2 * LENGTH('h)"

lemma twice_64 [simp]: "twice TYPE(32) TYPE(64)" and twice_128 [simp]: "twice TYPE(64) TYPE(128)"
  by (simp_all add: twice_def)

lemma bit_s_high: "bit (s_high x :: 'h::len word) n \<longleftrightarrow> n < LENGTH('h) \<and> bit (x :: 'w::len word) (LENGTH('h) + n)"
  by (auto simp: s_high_def bit_simps)

lemma bit_s_low: "bit (s_low x :: 'h::len word) n \<longleftrightarrow> n < LENGTH('h) \<and> bit (x :: 'w::len word) n"
  by (auto simp: s_low_def bit_simps)

lemma bit_all_of:
  assumes "twice TYPE('h) TYPE('w)"
  shows "bit (all_of (high :: 'h::len word) low :: 'w::len word) n
    \<longleftrightarrow> (if n < LENGTH('h) then bit low n else bit high (n - LENGTH('h)))"
proof (cases "n < LENGTH('w)")
  case True
  then show ?thesis
    using assms by (auto simp: all_of_def twice_def bit_simps dest: bit_imp_le_length)
next
  case False
  moreover from this have "\<not> bit high (n - LENGTH('h))"
    using assms by (auto simp: twice_def dest!: bit_imp_le_length)
  ultimately show ?thesis
    using assms by (auto simp: twice_def dest: bit_imp_le_length)
qed

lemmas half_bits = bit_s_high bit_s_low bit_all_of

lemma all_of_halves:
  "twice TYPE('h) TYPE('w) \<Longrightarrow> all_of (s_high x :: 'h::len word) (s_low x) = (x :: 'w::len word)"
  by (rule bit_eqI) (auto simp: half_bits twice_def dest: bit_imp_le_length)

lemma s_high_all_of: "twice TYPE('h) TYPE('w) \<Longrightarrow> s_high (all_of (h :: 'h::len word) l :: 'w::len word) = h"
  and s_low_all_of: "twice TYPE('h) TYPE('w) \<Longrightarrow> s_low (all_of (h :: 'h::len word) l :: 'w::len word) = l"
  by (rule bit_eqI; auto simp: half_bits dest: bit_imp_le_length)+

lemma unat_halves:
  assumes "twice TYPE('h) TYPE('w)"
  shows "unat (x :: 'w::len word) = unat (s_high x :: 'h::len word) * 2 ^ LENGTH('h) + unat (s_low x :: 'h word)"
proof -
  have "unat x < 2 ^ LENGTH('w)"
    by (rule unsigned_less)
  also have "(2 :: nat) ^ LENGTH('w) = 2 ^ LENGTH('h) * 2 ^ LENGTH('h)"
    using assms by (simp add: twice_def mult_2 power_add)
  finally have "unat x div 2 ^ LENGTH('h) < 2 ^ LENGTH('h)"
    by (rule less_mult_imp_div_less)
  then have "unat (s_high x :: 'h word) = unat x div 2 ^ LENGTH('h)"
    by (simp add: s_high_def unsigned_ucast_eq unsigned_drop_bit_eq) (simp add: drop_bit_eq_div take_bit_eq_mod)
  moreover have "unat (s_low x :: 'h word) = unat x mod 2 ^ LENGTH('h)"
    by (simp add: s_low_def unsigned_ucast_eq take_bit_eq_mod)
  ultimately show ?thesis
    by (simp add: div_mult_mod_eq)
qed

lemma unat_all_of:
  "twice TYPE('h) TYPE('w) \<Longrightarrow> unat (all_of (h :: 'h::len word) l :: 'w::len word) = unat h * 2 ^ LENGTH('h) + unat l"
  using unat_halves [where ?'h = 'h, of "all_of h l :: 'w word"] by (simp add: s_high_all_of s_low_all_of)


subsection \<open>Shifts\<close>

text \<open>\<open>ashl\<close>, \<open>lshr\<close> and \<open>ashr\<close>: a shift by \<open>b\<close> bits, \<open>b\<close> less than the number of bits of the whole.\<close>

definition ashl :: "'h::len itself \<Rightarrow> 'w::len word \<Rightarrow> 32 word \<Rightarrow> 'w word" where
  "ashl h a b =
     (let bits_in_word = of_nat LENGTH('h); high = s_high a :: 'h word; low = s_low a :: 'h word
      in if b AND bits_in_word \<noteq> 0 then all_of (push_bit (unat (b - bits_in_word)) low) 0
         else if b = 0 then a
         else all_of (push_bit (unat b) high OR drop_bit (unat (bits_in_word - b)) low) (push_bit (unat b) low))"

definition lshr :: "'h::len itself \<Rightarrow> 'w::len word \<Rightarrow> 32 word \<Rightarrow> 'w word" where
  "lshr h a b =
     (let bits_in_word = of_nat LENGTH('h); high = s_high a :: 'h word; low = s_low a :: 'h word
      in if b AND bits_in_word \<noteq> 0 then all_of 0 (drop_bit (unat (b - bits_in_word)) high)
         else if b = 0 then a
         else all_of (drop_bit (unat b) high) (push_bit (unat (bits_in_word - b)) high OR drop_bit (unat b) low))"

definition ashr :: "'h::len itself \<Rightarrow> 'w::len word \<Rightarrow> 32 word \<Rightarrow> 'w word" where
  "ashr h a b =
     (let bits_in_word = of_nat LENGTH('h); high = s_high a :: 'h word; low = s_low a :: 'h word
      in if b AND bits_in_word \<noteq> 0
         then all_of (signed_drop_bit (LENGTH('h) - 1) high) (signed_drop_bit (unat (b - bits_in_word)) high)
         else if b = 0 then a
         else all_of (signed_drop_bit (unat b) high) (push_bit (unat (bits_in_word - b)) high OR drop_bit (unat b) low))"

definition ashldi3 :: "64 word \<Rightarrow> 32 word \<Rightarrow> 64 word" where
  "ashldi3 = ashl TYPE(32)"

definition ashlti3 :: "128 word \<Rightarrow> 32 word \<Rightarrow> 128 word" where
  "ashlti3 = ashl TYPE(64)"

definition lshrdi3 :: "64 word \<Rightarrow> 32 word \<Rightarrow> 64 word" where
  "lshrdi3 = lshr TYPE(32)"

definition lshrti3 :: "128 word \<Rightarrow> 32 word \<Rightarrow> 128 word" where
  "lshrti3 = lshr TYPE(64)"

definition ashrdi3 :: "64 word \<Rightarrow> 32 word \<Rightarrow> 64 word" where
  "ashrdi3 = ashr TYPE(32)"

definition ashrti3 :: "128 word \<Rightarrow> 32 word \<Rightarrow> 128 word" where
  "ashrti3 = ashr TYPE(64)"

text \<open>For a half of \<open>2 ^ k\<close> bits the test on \<open>b\<close> tells whether the shift crosses a half.\<close>

lemma crosses:
  assumes "LENGTH('h::len) = 2 ^ k" "k < 31" "unat (b :: 32 word) < 2 * LENGTH('h)"
  shows "b AND of_nat LENGTH('h) \<noteq> 0 \<longleftrightarrow> LENGTH('h) \<le> unat b"
    and "LENGTH('h) \<le> unat b \<Longrightarrow> unat (b - of_nat LENGTH('h)) = unat b - LENGTH('h)"
    and "unat b \<le> LENGTH('h) \<Longrightarrow> unat (of_nat LENGTH('h) - b) = LENGTH('h) - unat b"
proof -
  have small: "2 ^ k < (2 :: nat) ^ 32"
    using assms(2) by (intro power_strict_increasing) auto
  then have n: "unat (of_nat LENGTH('h) :: 32 word) = LENGTH('h)"
    by (simp only: assms(1) unat_of_nat) simp
  have "b AND of_nat LENGTH('h) \<noteq> 0 \<longleftrightarrow> bit b k"
    using assms by (simp add: and_exp_eq_0_iff_not_bit)
  also have "\<dots> \<longleftrightarrow> odd (unat b div 2 ^ k)"
    by (simp add: bit_unsigned_iff flip: bit_iff_odd)
  also have "\<dots> \<longleftrightarrow> LENGTH('h) \<le> unat b"
  proof -
    have "unat b div 2 ^ k < 2"
      using assms by (simp add: less_mult_imp_div_less)
    then have "odd (unat b div 2 ^ k) \<longleftrightarrow> unat b div 2 ^ k \<noteq> 0"
      by (auto simp only: less_2_cases_iff) auto
    then show ?thesis
      using assms(1) by (simp add: div_eq_0_iff not_less)
  qed
  finally show "b AND of_nat LENGTH('h) \<noteq> 0 \<longleftrightarrow> LENGTH('h) \<le> unat b" .
  show "LENGTH('h) \<le> unat b \<Longrightarrow> unat (b - of_nat LENGTH('h)) = unat b - LENGTH('h)"
    and "unat b \<le> LENGTH('h) \<Longrightarrow> unat (of_nat LENGTH('h) - b) = LENGTH('h) - unat b"
    using n by (simp_all add: unat_sub word_le_nat_alt)
qed


text \<open>The shifts of the whole are the shifts of the language.\<close>

lemma ashl_ok:
  assumes "twice TYPE('h::len) TYPE('w::len)" "LENGTH('h) = 2 ^ k" "k < 31" "unat b < LENGTH('w)"
  shows "ashl TYPE('h) (a :: 'w word) b = push_bit (unat b) a"
proof -
  have b: "unat b < 2 * LENGTH('h)" and w: "LENGTH('w) = 2 * LENGTH('h)"
    using assms by (simp_all add: twice_def)
  note c = crosses [OF assms(2, 3) b]
  show ?thesis
    by (rule bit_eqI)
      (use c w in \<open>auto simp: ashl_def Let_def bit_all_of [OF assms(1)] bit_s_high bit_s_low bit_simps not_le not_less
        algebra_simps dest: bit_imp_le_length\<close>)
qed

lemma lshr_ok:
  assumes "twice TYPE('h::len) TYPE('w::len)" "LENGTH('h) = 2 ^ k" "k < 31" "unat b < LENGTH('w)"
  shows "lshr TYPE('h) (a :: 'w word) b = drop_bit (unat b) a"
proof -
  have b: "unat b < 2 * LENGTH('h)" and w: "LENGTH('w) = 2 * LENGTH('h)"
    using assms by (simp_all add: twice_def)
  note c = crosses [OF assms(2, 3) b]
  show ?thesis
    by (rule bit_eqI)
      (use c w in \<open>auto simp: lshr_def Let_def bit_all_of [OF assms(1)] bit_s_high bit_s_low bit_simps not_le not_less
        algebra_simps dest: bit_imp_le_length\<close>)
qed

lemma ashr_ok:
  assumes "twice TYPE('h::len) TYPE('w::len)" "LENGTH('h) = 2 ^ k" "k < 31" "unat b < LENGTH('w)"
  shows "ashr TYPE('h) (a :: 'w word) b = signed_drop_bit (unat b) a"
proof (rule bit_eqI)
  fix n
  assume "possible_bit TYPE('w word) n"
  then have n: "n < LENGTH('w)"
    by simp
  have b: "unat b < 2 * LENGTH('h)" and w: "LENGTH('w) = 2 * LENGTH('h)"
    using assms by (simp_all add: twice_def)
  note c = crosses [OF assms(2, 3) b]
  note bits = bit_all_of [OF assms(1)] bit_s_high bit_s_low bit_signed_drop_bit_iff bit_or_iff bit_push_bit_iff bit_drop_bit_eq
  consider (cross) i where "unat b = LENGTH('h) + i" "i < LENGTH('h)" | (none) "b = 0"
    | (inside) i where "LENGTH('h) = unat b + i" "0 < unat b" "0 < i"
  proof (cases "LENGTH('h) \<le> unat b")
    case True
    then show thesis
      using b that(1) [of "unat b - LENGTH('h)"] by simp
  next
    case False
    then show thesis
      using that(2) that(3) [of "LENGTH('h) - unat b"] by (cases "b = 0") (auto simp: unat_gt_0)
  qed
  then show "bit (ashr TYPE('h) a b) n = bit (signed_drop_bit (unat b) a) n"
  proof cases
    case cross
    then show ?thesis
      using c n w by (cases n "LENGTH('h)" rule: linorder_cases) (auto simp: ashr_def bits Let_def add_ac intro!: arg_cong [of _ _ "bit a"])
  next
    case none
    then show ?thesis
      by (simp add: ashr_def Let_def)
  next
    case inside
    then show ?thesis
      using c n w by (cases "n < LENGTH('h)") (auto simp: ashr_def bits Let_def add_ac intro!: arg_cong [of _ _ "bit a"])
  qed
qed


subsection \<open>Comparison\<close>

definition cmp2 :: "'h::len itself \<Rightarrow> 'w::len word \<Rightarrow> 'w word \<Rightarrow> 32 word" where
  "cmp2 h a b =
     (let xh = s_high a :: 'h word; xl = s_low a :: 'h word; yh = s_high b :: 'h word; yl = s_low b :: 'h word
      in if xh <s yh then 0
         else if yh <s xh then 2
         else if xl < yl then 0
         else if yl < xl then 2
         else 1)"

definition ucmp2 :: "'h::len itself \<Rightarrow> 'w::len word \<Rightarrow> 'w word \<Rightarrow> 32 word" where
  "ucmp2 h a b =
     (let xh = s_high a :: 'h word; xl = s_low a :: 'h word; yh = s_high b :: 'h word; yl = s_low b :: 'h word
      in if xh < yh then 0
         else if yh < xh then 2
         else if xl < yl then 0
         else if yl < xl then 2
         else 1)"

definition cmpdi2 :: "64 word \<Rightarrow> 64 word \<Rightarrow> 32 word" where
  "cmpdi2 = cmp2 TYPE(32)"

definition cmpti2 :: "128 word \<Rightarrow> 128 word \<Rightarrow> 32 word" where
  "cmpti2 = cmp2 TYPE(64)"

definition ucmpdi2 :: "64 word \<Rightarrow> 64 word \<Rightarrow> 32 word" where
  "ucmpdi2 = ucmp2 TYPE(32)"

definition ucmpti2 :: "128 word \<Rightarrow> 128 word \<Rightarrow> 32 word" where
  "ucmpti2 = ucmp2 TYPE(64)"

lemma sint_sign: "sint (x :: 'a::len word) = uint x - 2 ^ LENGTH('a) * of_bool (bit x (LENGTH('a) - 1))"
proof -
  have "sint x = signed_take_bit (LENGTH('a) - Suc 0) (uint x)"
    by (rule sint_uint)
  also have "\<dots> = take_bit LENGTH('a) (uint x) - 2 ^ LENGTH('a) * of_bool (bit (uint x) (LENGTH('a) - 1))"
    by (simp add: signed_take_bit_eq_take_bit_minus)
  also have "take_bit LENGTH('a) (uint x) = uint x"
    by (simp add: take_bit_int_eq_self_iff)
  finally show ?thesis
    by (simp add: bit_unsigned_iff)
qed

lemma uint_halves:
  assumes "twice TYPE('h) TYPE('w)"
  shows "uint (x :: 'w::len word) = uint (s_high x :: 'h::len word) * 2 ^ LENGTH('h) + uint (s_low x :: 'h word)"
  using arg_cong [OF unat_halves [OF assms, of x], of int] by simp

lemma sint_halves:
  assumes "twice TYPE('h) TYPE('w)"
  shows "sint (x :: 'w::len word) = sint (s_high x :: 'h::len word) * 2 ^ LENGTH('h) + uint (s_low x :: 'h word)"
proof -
  have w: "LENGTH('w) = LENGTH('h) + LENGTH('h)"
    using assms by (simp add: twice_def)
  then have "LENGTH('h) + (LENGTH('h) - 1) = LENGTH('w) - 1"
    using len_gt_0 [where ?'a = 'h] by linarith
  then have "bit x (LENGTH('w) - 1) = bit (s_high x :: 'h word) (LENGTH('h) - 1)"
    by (simp add: bit_s_high)
  then show ?thesis
    unfolding sint_sign uint_halves [OF assms, of x] w by (simp add: algebra_simps power_add)
qed

text \<open>A number in base \<open>B\<close> with two digits is compared by its digits.\<close>

lemma lexicographic:
  fixes B :: int
  assumes "0 \<le> l" "l < B" "0 \<le> l'" "l' < B"
  shows "h * B + l < h' * B + l' \<longleftrightarrow> h < h' \<or> h = h' \<and> l < l'"
proof (cases h h' rule: linorder_cases)
  case less
  then have "h * B + B \<le> h' * B"
    using assms mult_right_mono [of "h + 1" h' B] by (simp add: algebra_simps)
  then show ?thesis
    using assms less by linarith
next
  case greater
  then have "h' * B + B \<le> h * B"
    using assms mult_right_mono [of "h' + 1" h B] by (simp add: algebra_simps)
  then show ?thesis
    using assms greater by linarith
qed simp

lemma low_bound: "0 \<le> uint (x :: 'h::len word)" "uint x < 2 ^ LENGTH('h)"
  by simp_all

lemma sless_halves:
  assumes "twice TYPE('h) TYPE('w)"
  shows "(x :: 'w::len word) <s y \<longleftrightarrow> (s_high x :: 'h::len word) <s s_high y
    \<or> (s_high x :: 'h word) = s_high y \<and> (s_low x :: 'h word) < s_low y"
  unfolding word_sless_alt sint_halves [OF assms] word_less_def lexicographic [OF low_bound low_bound]
  by (simp add: word_eq_iff_signed [where ?'a = int])

lemma less_halves:
  assumes "twice TYPE('h) TYPE('w)"
  shows "(x :: 'w::len word) < y \<longleftrightarrow> (s_high x :: 'h::len word) < s_high y
    \<or> (s_high x :: 'h word) = s_high y \<and> (s_low x :: 'h word) < s_low y"
  unfolding word_less_def uint_halves [OF assms] lexicographic [OF low_bound low_bound]
  by (simp add: word_eq_iff_unsigned [where ?'a = int])

lemma eq_halves:
  "twice TYPE('h) TYPE('w) \<Longrightarrow> (x :: 'w::len word) = y
    \<longleftrightarrow> (s_high x :: 'h::len word) = s_high y \<and> (s_low x :: 'h word) = s_low y"
  by (metis all_of_halves)

lemma sless_linear: "\<not> x <s y \<Longrightarrow> \<not> y <s x \<Longrightarrow> x = y" and sless_asym: "x <s y \<Longrightarrow> \<not> y <s x"
  for x y :: "'a::len word"
  by (simp_all add: word_sless_alt word_eq_iff_signed [where ?'a = int])

lemma cmp2_ok:
  assumes "twice TYPE('h::len) TYPE('w::len)"
  shows "cmp2 TYPE('h) (a :: 'w word) b = (if a <s b then 0 else if a = b then 1 else 2)"
  unfolding cmp2_def Let_def sless_halves [OF assms] eq_halves [OF assms, of a b]
  by (auto dest: sless_linear sless_asym)

lemma ucmp2_ok:
  assumes "twice TYPE('h::len) TYPE('w::len)"
  shows "ucmp2 TYPE('h) (a :: 'w word) b = (if a < b then 0 else if a = b then 1 else 2)"
  unfolding ucmp2_def Let_def less_halves [OF assms] eq_halves [OF assms, of a b]
  by auto

end
