(* ===== verification/Builtins_Mul.thy ===== *)
theory Builtins_Mul
  imports Builtins_Words
begin

text \<open>
  The multiplication of two-word integers in \<^verbatim>\<open>compiler-rt\<close> (\<^verbatim>\<open>muldi3.c\<close>, \<^verbatim>\<open>multi3.c\<close>): the product of
  two words from the products of their halves, and the product of two two-word integers from it.
\<close>

definition muld :: "'h::len word \<Rightarrow> 'h word \<Rightarrow> 'w::len word" where
  "muld a b =
     (let k = LENGTH('h) div 2; lower_mask = drop_bit k (NOT 0);
          low = (a AND lower_mask) * (b AND lower_mask);
          t = drop_bit k low;
          low = low AND lower_mask;
          t = t + drop_bit k a * (b AND lower_mask);
          low = low + push_bit k (t AND lower_mask);
          high = drop_bit k t;
          t = drop_bit k low;
          low = low AND lower_mask;
          t = t + drop_bit k b * (a AND lower_mask);
          low = low + push_bit k (t AND lower_mask);
          high = high + drop_bit k t;
          high = high + drop_bit k a * drop_bit k b
      in all_of high low)"

definition mul2 :: "'h::len itself \<Rightarrow> 'w::len word \<Rightarrow> 'w word \<Rightarrow> 'w word" where
  "mul2 h a b =
     (let xl = s_low a :: 'h word; xh = s_high a :: 'h word; yl = s_low b :: 'h word; yh = s_high b :: 'h word;
          r = muld xl yl :: 'w word
      in all_of (s_high r + (xh * yl + xl * yh)) (s_low r))"

definition muldsi3 :: "32 word \<Rightarrow> 32 word \<Rightarrow> 64 word" where "muldsi3 = muld"
definition mulddi3 :: "64 word \<Rightarrow> 64 word \<Rightarrow> 128 word" where "mulddi3 = muld"
definition muldi3 :: "64 word \<Rightarrow> 64 word \<Rightarrow> 64 word" where "muldi3 = mul2 TYPE(32)"
definition multi3 :: "128 word \<Rightarrow> 128 word \<Rightarrow> 128 word" where "multi3 = mul2 TYPE(64)"


subsection \<open>Digits\<close>

lemma lower_mask: "LENGTH('h::len) = 2 * k \<Longrightarrow> drop_bit k (NOT 0 :: 'h word) = mask k"
  by (rule bit_eqI) (auto simp: bit_simps)

lemma unat_low_digit: "unat ((x :: 'h::len word) AND mask k) = unat x mod 2 ^ k"
  by (simp add: unsigned_take_bit_eq flip: take_bit_eq_mask) (simp add: take_bit_eq_mod)

lemma unat_high_digit: "unat (drop_bit k (x :: 'h::len word)) = unat x div 2 ^ k"
  by (simp add: unsigned_drop_bit_eq) (simp add: drop_bit_eq_div take_bit_nat_eq_self)

lemma unat_plus: "unat (x :: 'h::len word) + unat y < 2 ^ LENGTH('h) \<Longrightarrow> unat (x + y) = unat x + unat y"
  by (simp add: unat_add_lem)

lemma unat_times: "unat (x :: 'h::len word) * unat y < 2 ^ LENGTH('h) \<Longrightarrow> unat (x * y) = unat x * unat y"
  by (simp add: unat_mult_lem)

lemma unat_shifted_digit:
  assumes "LENGTH('h::len) = 2 * k" "unat (x :: 'h word) < 2 ^ k"
  shows "unat (push_bit k x) = 2 ^ k * unat x"
proof -
  have "2 ^ k * unat x < 2 ^ k * 2 ^ k"
    using assms(2) by simp
  then have "2 ^ k * unat x < 2 ^ LENGTH('h)"
    unfolding assms(1) mult_2 power_add .
  then show ?thesis
    by (simp only: unsigned_push_bit_eq push_bit_eq_mult [where ?'a = nat] take_bit_eq_mod mult.commute mod_less)
qed

lemma digit_product:
  fixes x y B :: nat
  assumes "x < B" "y < B" "t < B"
  shows "t + x * y < B * B"
proof -
  obtain c where "B = Suc c"
    using assms by (cases B) auto
  then have "x * y \<le> c * c" "t \<le> c" "B * B = c * c + c + c + 1"
    using assms by (auto intro: mult_le_mono)
  then show ?thesis
    by linarith
qed

text \<open>The schoolbook product of two numbers of two digits in base \<open>B\<close>, with the carries of the code.\<close>

lemma schoolbook:
  fixes a0 a1 b0 b1 B :: nat
  assumes "0 < B"
  defines "t1 \<equiv> a0 * b0 div B + a1 * b0"
  defines "t3 \<equiv> t1 mod B + b1 * a0"
  shows "(t1 div B + t3 div B + a1 * b1) * (B * B) + (a0 * b0 mod B + B * (t3 mod B)) = (a1 * B + a0) * (b1 * B + b0)"
proof -
  have "(t1 div B + t3 div B + a1 * b1) * (B * B) + (a0 * b0 mod B + B * (t3 mod B))
      = B * (B * (t1 div B) + (B * (t3 div B) + t3 mod B)) + a0 * b0 mod B + a1 * b1 * (B * B)"
    by (simp only: distrib_left distrib_right ac_simps)
  also have "\<dots> = B * (B * (t1 div B) + t1 mod B + b1 * a0) + a0 * b0 mod B + a1 * b1 * (B * B)"
    unfolding mult_div_mod_eq [of B t3] unfolding t3_def add.assoc ..
  also have "\<dots> = (B * (a0 * b0 div B) + a0 * b0 mod B) + B * (a1 * b0 + b1 * a0) + a1 * b1 * (B * B)"
    by (simp only: mult_div_mod_eq t1_def) (simp add: algebra_simps)
  also have "\<dots> = (a1 * B + a0) * (b1 * B + b0)"
    by (simp only: mult_div_mod_eq) (simp add: algebra_simps)
  finally show ?thesis .
qed

lemma unat_muld:
  assumes "LENGTH('h::len) = 2 * k" and tw: "twice TYPE('h) TYPE('w::len)"
  shows "unat (muld (a :: 'h word) b :: 'w word) = unat a * unat b"
proof -
  define B where "B = (2 :: nat) ^ k"
  define a0 where "a0 = unat a mod B"
  define a1 where "a1 = unat a div B"
  define b0 where "b0 = unat b mod B"
  define b1 where "b1 = unat b div B"
  define t1 where "t1 = a0 * b0 div B + a1 * b0"
  define t3 where "t3 = t1 mod B + b1 * a0"
  have k: "LENGTH('h) div 2 = k"
    using assms by simp
  have L: "2 ^ LENGTH('h) = B * B" and B: "0 < B"
    by (simp_all add: assms(1) B_def mult_2 power_add)
  have half: "unat x div B < B" for x :: "'h word"
    using unsigned_less [of x, where ?'a = nat] unfolding L by (rule less_mult_imp_div_less)
  have d: "a0 < B" "b0 < B" "a1 < B" "b1 < B"
    using B half by (simp_all add: a0_def b0_def a1_def b1_def)
  have a: "unat a = a1 * B + a0" and b: "unat b = b1 * B + b0"
    by (simp_all add: a0_def a1_def b0_def b1_def)
  have dig: "unat (x AND mask k) = unat x mod B" "unat (drop_bit k x) = unat x div B"
    "unat (push_bit k (x AND mask k)) = B * (unat x mod B)" for x :: "'h word"
    using unat_shifted_digit [OF assms(1), of "x AND mask k"] by (simp_all only: unat_low_digit unat_high_digit B_def) simp
  have plus: "unat (x + y) = unat x + unat y" if "unat x + unat y < B * B" for x y :: "'h word"
    using that unat_plus [of x y] by (simp add: L)
  have times: "unat (x * y) = unat x * unat y" if "unat x < B" "unat y < B" for x y :: "'h word"
    using digit_product [OF that, of 0] unat_times [of x y] B by (simp add: L)
  define low0 where "low0 = (a AND mask k) * (b AND mask k)"
  define T1 where "T1 = drop_bit k low0 + drop_bit k a * (b AND mask k)"
  define low2 where "low2 = (low0 AND mask k) + push_bit k (T1 AND mask k)"
  define T3 where "T3 = drop_bit k low2 + drop_bit k b * (a AND mask k)"
  define low4 where "low4 = (low2 AND mask k) + push_bit k (T3 AND mask k)"
  define high where "high = drop_bit k T1 + drop_bit k T3 + drop_bit k a * drop_bit k b"
  have r: "(muld a b :: 'w word) = all_of high low4"
    by (simp only: muld_def Let_def k lower_mask [OF assms(1)] low0_def T1_def low2_def T3_def low4_def high_def)
  have two: "x mod B + B * (y mod B) < B * B" for x y
  proof -
    have "B * (y mod B) + B \<le> B * B"
      using B mult_le_mono2 [of "y mod B + 1" B B] by (simp add: Suc_le_eq)
    then show ?thesis
      using B mod_less_divisor [of B x] by linarith
  qed
  have pick: "(x mod B + B * y) div B = y" "(x mod B + B * y) mod B = x mod B" for x y
    using B by simp_all
  have low0: "unat low0 = a0 * b0"
    using d by (simp add: low0_def times dig a0_def b0_def)
  have "a0 * b0 div B < B"
    using half [of low0] by (simp add: low0)
  then have T1: "unat T1 = t1"
    using d digit_product [of a1 B b0 "a0 * b0 div B"]
    by (simp add: T1_def plus times dig low0 t1_def flip: a1_def b0_def)
  have low2: "unat low2 = a0 * b0 mod B + B * (t1 mod B)"
    unfolding low2_def by (subst plus) (simp_all only: dig low0 T1 two)
  have T3: "unat T3 = t3"
    using d digit_product [of b1 B a0 "t1 mod B"] B
    by (simp add: T3_def plus times dig low2 pick t3_def flip: b1_def a0_def)
  have low4: "unat low4 = a0 * b0 mod B + B * (t3 mod B)"
    unfolding low4_def by (subst plus) (simp_all only: dig low2 T3 pick two)
  have total: "(t1 div B + t3 div B + a1 * b1) * (B * B) + (a0 * b0 mod B + B * (t3 mod B)) = unat a * unat b"
    unfolding a b t3_def t1_def by (rule schoolbook [OF B])
  have "unat a * unat b < B * B * (B * B)"
    using unsigned_less [of a, where ?'a = nat] unsigned_less [of b, where ?'a = nat] B unfolding L by (intro mult_strict_mono) auto
  then have "(t1 div B + t3 div B + a1 * b1) * (B * B) < B * B * (B * B)"
    using total by linarith
  then have s: "t1 div B + t3 div B + a1 * b1 < B * B"
    by simp
  have "unat (drop_bit k T1 + drop_bit k T3) = t1 div B + t3 div B"
    using s by (subst plus) (simp_all add: dig T1 T3)
  then have high: "unat high = t1 div B + t3 div B + a1 * b1"
    using s d by (simp add: high_def plus times dig flip: a1_def b1_def)
  show ?thesis
    unfolding r unat_all_of [OF tw] high low4 L using total by simp
qed

text \<open>The product of two-word integers, modulo their size.\<close>

lemma mul2_ok:
  assumes "LENGTH('h::len) = 2 * k" and tw: "twice TYPE('h) TYPE('w::len)"
  shows "mul2 TYPE('h) (a :: 'w word) b = a * b"
proof -
  define B where "B = (2 :: nat) ^ LENGTH('h)"
  define xl where "xl = (s_low a :: 'h word)"
  define xh where "xh = (s_high a :: 'h word)"
  define yl where "yl = (s_low b :: 'h word)"
  define yh where "yh = (s_high b :: 'h word)"
  define r where "r = (muld xl yl :: 'w word)"
  have W: "2 ^ LENGTH('w) = B * B"
    using tw by (simp add: twice_def B_def mult_2 power_add)
  have r: "unat (s_high r :: 'h word) * B + unat (s_low r :: 'h word) = unat xl * unat yl"
    using unat_halves [OF tw, of r] unat_muld [OF assms, of xl yl] by (simp add: r_def B_def)
  let ?H = "unat (s_high r :: 'h word) + (unat xh * unat yl + unat xl * unat yh)" and ?l = "unat (s_low r :: 'h word)"
  have "unat (mul2 TYPE('h) a b) = unat (s_high r + (xh * yl + xl * yh)) * B + ?l"
    by (simp add: mul2_def Let_def unat_all_of [OF tw] xl_def xh_def yl_def yh_def r_def B_def)
  also have "unat (s_high r + (xh * yl + xl * yh)) = ?H mod B"
    by (simp add: unat_word_ariths B_def mod_simps)
  also have "?H mod B * B + ?l = (?H * B + ?l) mod (B * B)"
  proof -
    have "?l < B"
      using unsigned_less [of "s_low r :: 'h word", where ?'a = nat] by (simp add: B_def)
    then show ?thesis
      by (simp add: mod_mult2_eq mult.commute)
  qed
  also have "\<dots> = (?H * B + ?l + unat xh * unat yh * (B * B)) mod (B * B)"
    by simp
  also have "?H * B + ?l + unat xh * unat yh * (B * B) = (unat xh * B + unat xl) * (unat yh * B + unat yl)"
    using r by (simp add: algebra_simps)
  also have "\<dots> mod (B * B) = unat (a * b)"
    unfolding unat_word_ariths W xl_def xh_def yl_def yh_def B_def unat_halves [OF tw, of a] unat_halves [OF tw, of b] ..
  finally show ?thesis
    by (simp add: word_unat_eq_iff)
qed

end
