(* ===== verification/Builtins_Bits.thy ===== *)
theory Builtins_Bits
  imports Builtins_Mul
begin

text \<open>
  Counting bits in \<^verbatim>\<open>compiler-rt\<close>: leading and trailing zeros, the first set bit and the parity, for 32, 64
  and 128 bits.  \<open>builtin_clz\<close> and \<open>builtin_ctz\<close> are the compiler's \<^verbatim>\<open>__builtin_clz\<close> and
  \<^verbatim>\<open>__builtin_ctz\<close> (and the \<^verbatim>\<open>ll\<close> forms), whose arguments must not be 0.
\<close>

subsection \<open>The compiler's functions\<close>

text \<open>The number of binary digits of a number, and of the zeros at its end.\<close>

fun nbits :: "nat \<Rightarrow> nat" where
  "nbits n = (if n = 0 then 0 else Suc (nbits (n div 2)))"

fun ntz :: "nat \<Rightarrow> nat" where
  "ntz n = (if n = 0 \<or> odd n then 0 else Suc (ntz (n div 2)))"

declare nbits.simps [simp del] ntz.simps [simp del]

definition builtin_clz :: "'a::len word \<Rightarrow> nat" where
  "builtin_clz x = LENGTH('a) - nbits (unat x)"

definition builtin_ctz :: "'a::len word \<Rightarrow> nat" where
  "builtin_ctz x = ntz (unat x)"

lemma nbits_0 [simp]: "nbits 0 = 0"
  by (simp add: nbits.simps)

lemma nbits_le: "nbits n \<le> k \<longleftrightarrow> n < 2 ^ k"
proof (induction k arbitrary: n)
  case 0
  show ?case
    by (subst nbits.simps) simp
next
  case (Suc k)
  have "n div 2 < 2 ^ k \<longleftrightarrow> n < 2 ^ Suc k"
    by auto
  then show ?case
    using Suc.IH [of "n div 2"] by (subst nbits.simps) simp
qed

lemma nbits_eq: "2 ^ k \<le> n \<Longrightarrow> n < 2 ^ Suc k \<Longrightarrow> nbits n = Suc k"
  using nbits_le [of n k] nbits_le [of n "Suc k"] by linarith

lemma nbits_bounds: "n \<noteq> 0 \<Longrightarrow> 2 ^ (nbits n - 1) \<le> n" "n < 2 ^ nbits n"
proof -
  show "n < 2 ^ nbits n"
    using nbits_le [of n "nbits n"] by simp
  assume "n \<noteq> 0"
  then have "0 < nbits n"
    by (subst nbits.simps) simp
  then show "2 ^ (nbits n - 1) \<le> n"
    using nbits_le [of n "nbits n - 1"] by linarith
qed

lemma nbits_pos: "0 < nbits n \<longleftrightarrow> n \<noteq> 0"
  by (subst nbits.simps) simp

lemma nbits_div: "nbits (n div 2 ^ k) = nbits n - k"
proof (induction k)
  case (Suc k)
  have "nbits (n div 2 ^ Suc k) = nbits (n div 2 ^ k div 2)"
    by (simp only: power_Suc2 div_mult2_eq)
  also have "\<dots> = nbits (n div 2 ^ k) - 1"
    by (subst (2) nbits.simps) simp
  finally show ?case
    using Suc.IH by simp
qed simp

lemma nbits_unat: "nbits (unat (x :: 'a::len word)) \<le> LENGTH('a)"
  by (simp add: nbits_le)

lemma ntz_dvd: "n \<noteq> 0 \<Longrightarrow> 2 ^ k dvd n \<longleftrightarrow> k \<le> ntz n"
proof (induction k arbitrary: n)
  case (Suc k)
  show ?case
  proof (cases "odd n")
    case True
    then show ?thesis
      by (subst ntz.simps) (auto dest: dvd_mult_left)
  next
    case False
    then obtain m where "n = 2 * m"
      by (auto elim: evenE)
    then show ?thesis
      using Suc by (subst ntz.simps) simp
  qed
qed simp

lemma ntz_div: "n \<noteq> 0 \<Longrightarrow> k \<le> ntz n \<Longrightarrow> ntz (n div 2 ^ k) = ntz n - k"
proof -
  assume n: "n \<noteq> 0" and k: "k \<le> ntz n"
  then obtain m where m: "n = 2 ^ k * m"
    using ntz_dvd by (metis dvdE)
  then have "m \<noteq> 0"
    using n by simp
  then have "j \<le> ntz m \<longleftrightarrow> k + j \<le> ntz n" for j
    using ntz_dvd [of m j] ntz_dvd [of n "k + j"] n by (simp add: m power_add)
  from this [of "ntz m"] this [of "ntz n - k"] show ?thesis
    using k m by simp
qed

lemma ntz_less: "n \<noteq> 0 \<Longrightarrow> n < 2 ^ k \<Longrightarrow> ntz n < k"
  using ntz_dvd [of n k] by (meson dvd_imp_le leI le_trans not_le not_gr_zero)


lemma clz_bound: "unat (x :: 'a::len word) < 2 ^ k \<longleftrightarrow> LENGTH('a) \<le> builtin_clz x + k"
  using nbits_le [of "unat x" k] nbits_unat [of x] by (auto simp: builtin_clz_def)

lemma ctz_dvd: "(x :: 'a::len word) \<noteq> 0 \<Longrightarrow> 2 ^ k dvd unat x \<longleftrightarrow> k \<le> builtin_ctz x"
  by (simp add: builtin_ctz_def ntz_dvd)


subsection \<open>Leading zeros\<close>

definition clzsi2 :: "32 word \<Rightarrow> 32 word" where
  "clzsi2 a =
     (let x = a;
          t = push_bit 4 (of_bool (x AND 0xFFFF0000 = 0));
          x = drop_bit (unat (16 - t :: 32 word)) x;
          r = t;
          t = push_bit 3 (of_bool (x AND 0xFF00 = 0));
          x = drop_bit (unat (8 - t :: 32 word)) x;
          r = r + t;
          t = push_bit 2 (of_bool (x AND 0xF0 = 0));
          x = drop_bit (unat (4 - t :: 32 word)) x;
          r = r + t;
          t = push_bit 1 (of_bool (x AND 0xC = 0));
          x = drop_bit (unat (2 - t :: 32 word)) x;
          r = r + t
      in r + ((2 - x) AND - of_bool (x AND 2 = 0)))"

definition clz2 :: "'h::len itself \<Rightarrow> 'w::len word \<Rightarrow> 32 word" where
  "clz2 h a =
     (let high = s_high a :: 'h word; low = s_low a :: 'h word; f = - of_bool (high = 0)
      in of_nat (builtin_clz ((high AND NOT f) OR (low AND f))) + (ucast f AND of_nat LENGTH('h)))"

definition clzdi2 :: "64 word \<Rightarrow> 32 word" where "clzdi2 = clz2 TYPE(32)"
definition clzti2 :: "128 word \<Rightarrow> 32 word" where "clzti2 = clz2 TYPE(64)"

lemma unat_small_bits: "unat (x :: 'a::len word) < 2 ^ n \<longleftrightarrow> (\<forall>i \<ge> n. \<not> bit x i)"
proof -
  have "unat x < 2 ^ n \<longleftrightarrow> unat (drop_bit n x) = 0"
    by (simp add: unat_high_digit div_eq_0_iff)
  also have "\<dots> \<longleftrightarrow> drop_bit n x = 0"
    by simp
  also have "\<dots> \<longleftrightarrow> (\<forall>i. \<not> bit x (n + i))"
    by (simp add: bit_eq_iff bit_simps) (metis add.commute add_lessD1 bit_imp_le_length)
  finally show ?thesis
    by (metis le_add1 le_add_diff_inverse)
qed

lemma upper_test:
  assumes "unat (x :: 'a::len word) < 2 ^ (2 * n)" "2 * n \<le> LENGTH('a)"
  shows "x AND push_bit n (mask n) = 0 \<longleftrightarrow> unat x < 2 ^ n"
proof -
  have "bit (x AND push_bit n (mask n)) i \<longleftrightarrow> n \<le> i \<and> i < 2 * n \<and> bit x i" for i
    using assms(2) by (auto simp: bit_simps dest: bit_imp_le_length)
  then have "x AND push_bit n (mask n) = 0 \<longleftrightarrow> (\<forall>i. n \<le> i \<and> i < 2 * n \<longrightarrow> \<not> bit x i)"
    by (simp add: bit_eq_iff [of _ 0]) (metis bit_imp_le_length)
  also have "\<dots> \<longleftrightarrow> (\<forall>i \<ge> n. \<not> bit x i)"
    using assms(1) by (metis not_le unat_small_bits)
  finally show ?thesis
    by (simp add: unat_small_bits)
qed

text \<open>One step: \<open>t\<close> is \<open>n\<close> when the upper \<open>n\<close> of \<open>2 * n\<close> digits are zero.\<close>

lemma clz_step:
  assumes "X < 2 ^ (2 * n)"
  defines "t \<equiv> if X < 2 ^ n then n else 0"
  shows "X div 2 ^ (n - t) < 2 ^ n" "2 * n - nbits X = t + (n - nbits (X div 2 ^ (n - t)))"
proof -
  show "X div 2 ^ (n - t) < 2 ^ n"
    using assms(1) by (auto simp: t_def mult_2 power_add intro: less_mult_imp_div_less)
  show "2 * n - nbits X = t + (n - nbits (X div 2 ^ (n - t)))"
    using nbits_le [of X n] by (auto simp: t_def nbits_div simp del: power_0)
qed

lemma clz_word_step:
  fixes x w :: "32 word"
  assumes "unat x < 2 ^ (2 * n)" "n = 2 ^ j" "j \<le> 4" "m = push_bit n (mask n)" "w = of_nat n"
  defines "t \<equiv> push_bit j (of_bool (x AND m = 0))"
  shows "unat (drop_bit (unat (w - t)) x) < 2 ^ n"
    and "2 * n - nbits (unat x) = unat t + (n - nbits (unat (drop_bit (unat (w - t)) x)))"
    and "unat t \<le> n"
proof -
  have n: "n \<le> 16"
    using assms(2, 3) power_increasing [of j 4 "2 :: nat"] by simp
  then have w: "unat w = n"
    by (simp add: assms(5) unat_of_nat take_bit_nat_eq_self)
  have "x AND m = 0 \<longleftrightarrow> unat x < 2 ^ n"
    unfolding assms(4) using assms(1) n by (intro upper_test) simp_all
  moreover have "push_bit j 1 = w"
    by (simp add: assms(2, 5))
  ultimately have t: "t = (if unat x < 2 ^ n then w else 0)"
    by (simp add: t_def)
  then have ut: "unat t = (if unat x < 2 ^ n then n else 0)"
    by (simp add: w)
  then have d: "unat (w - t) = n - unat t"
    by (simp add: t w)
  show "unat (drop_bit (unat (w - t)) x) < 2 ^ n"
    and "2 * n - nbits (unat x) = unat t + (n - nbits (unat (drop_bit (unat (w - t)) x)))"
    using clz_step [OF assms(1)] unfolding d ut unat_high_digit by auto
  show "unat t \<le> n"
    by (simp add: ut)
qed

text \<open>A word below 4.\<close>

lemma word_below_4: "unat (x :: 32 word) < 4 \<Longrightarrow> x = 0 \<or> x = 1 \<or> x = 2 \<or> x = 3"
proof -
  assume "unat x < 4"
  then have "unat x = 0 \<or> unat x = 1 \<or> unat x = 2 \<or> unat x = 3"
    by linarith
  moreover have "x = of_nat n" if "unat x = n" for n
    using that by auto
  note this [of 0] this [of 1] this [of 2] this [of 3]
  ultimately show ?thesis
    by auto
qed

lemma nbits_small: "nbits 1 = 1" "nbits 2 = 2" "nbits 3 = 2"
  using nbits_eq [of 0 1] nbits_eq [of 1 2] nbits_eq [of 1 3] by simp_all

lemma clzsi2_ok: "unat (clzsi2 a) = builtin_clz a"
proof -
  define t1 where "t1 = (push_bit 4 (of_bool (a AND 0xFFFF0000 = 0)) :: 32 word)"
  define x1 where "x1 = drop_bit (unat (16 - t1)) a"
  define t2 where "t2 = (push_bit 3 (of_bool (x1 AND 0xFF00 = 0)) :: 32 word)"
  define x2 where "x2 = drop_bit (unat (8 - t2)) x1"
  define t3 where "t3 = (push_bit 2 (of_bool (x2 AND 0xF0 = 0)) :: 32 word)"
  define x3 where "x3 = drop_bit (unat (4 - t3)) x2"
  define t4 where "t4 = (push_bit 1 (of_bool (x3 AND 0xC = 0)) :: 32 word)"
  define x4 where "x4 = drop_bit (unat (2 - t4)) x3"
  have masks: "0xFFFF0000 = push_bit 16 (mask 16 :: 32 word)" "0xFF00 = push_bit 8 (mask 8 :: 32 word)"
    "0xF0 = push_bit 4 (mask 4 :: 32 word)" "0xC = push_bit 2 (mask 2 :: 32 word)"
    by (simp_all add: mask_eq_exp_minus_1 push_bit_eq_mult)
  have s0: "unat a < 2 ^ (2 * 16)"
    using unsigned_less [of a, where ?'a = nat] by simp
  have s1: "unat x1 < 2 ^ (2 * 8)" "2 * 16 - nbits (unat a) = unat t1 + (16 - nbits (unat x1))" "unat t1 \<le> 16"
    using clz_word_step [where j = 4 and w = 16, OF s0 _ _ masks(1), folded t1_def, folded x1_def] by simp_all
  have s2: "unat x2 < 2 ^ (2 * 4)" "2 * 8 - nbits (unat x1) = unat t2 + (8 - nbits (unat x2))" "unat t2 \<le> 8"
    using clz_word_step [where j = 3 and w = 8, OF s1(1) _ _ masks(2), folded t2_def, folded x2_def] by simp_all
  have s3: "unat x3 < 2 ^ (2 * 2)" "2 * 4 - nbits (unat x2) = unat t3 + (4 - nbits (unat x3))" "unat t3 \<le> 4"
    using clz_word_step [where j = 2 and w = 4, OF s2(1) _ _ masks(3), folded t3_def, folded x3_def] by simp_all
  have s4: "unat x4 < 2 ^ 2" "2 * 2 - nbits (unat x3) = unat t4 + (2 - nbits (unat x4))" "unat t4 \<le> 2"
    using clz_word_step [where j = 1 and w = 2, OF s3(1) _ _ masks(4), folded t4_def, folded x4_def] by simp_all
  let ?e = "(2 - x4) AND - of_bool (x4 AND 2 = 0)"
  have e: "unat ?e = 2 - nbits (unat x4)"
    using word_below_4 [of x4] s4(1) nbits_small by auto
  have "clzsi2 a = t1 + t2 + t3 + t4 + ?e"
    by (simp only: clzsi2_def Let_def t1_def x1_def t2_def x2_def t3_def x3_def t4_def x4_def)
  also have "\<dots> = of_nat (unat t1 + unat t2 + unat t3 + unat t4 + unat ?e)"
    by simp
  finally have "unat (clzsi2 a) = unat t1 + unat t2 + unat t3 + unat t4 + unat ?e"
    using s1(3) s2(3) s3(3) s4(3) e by (simp only: unat_of_nat) simp
  then show ?thesis
    using s1(2) s2(2) s3(2) s4(2) by (simp add: builtin_clz_def e)
qed

text \<open>The routines on two words take the half that decides.\<close>

lemma ucast_all_ones: "32 \<le> LENGTH('h::len) \<Longrightarrow> (ucast (- 1 :: 'h word) :: 32 word) = - 1"
  by (rule bit_eqI) (auto simp: bit_simps)

lemma clz2_ok:
  assumes tw: "twice TYPE('h::len) TYPE('w::len)" and small: "32 \<le> LENGTH('h)" "LENGTH('h) < 2 ^ 31"
  shows "unat (clz2 TYPE('h) (a :: 'w word)) = builtin_clz a"
proof -
  let ?h = "s_high a :: 'h word" and ?l = "s_low a :: 'h word"
  have W: "LENGTH('w) = 2 * LENGTH('h)"
    using tw by (simp add: twice_def)
  have sum: "unat (of_nat m + of_nat n :: 32 word) = m + n" if "m \<le> LENGTH('h)" "n \<le> LENGTH('h)" for m n
    using that small(2) by (simp only: unat_of_nat flip: of_nat_add) simp
  show ?thesis
  proof (cases "?h = 0")
    case True
    then have "unat a = unat ?l"
      using unat_halves [OF tw, of a] by simp
    moreover have "clz2 TYPE('h) a = of_nat (builtin_clz ?l) + of_nat LENGTH('h)"
      using True by (simp add: clz2_def Let_def ucast_all_ones [OF small(1)])
    ultimately show ?thesis
      using sum [of "builtin_clz ?l" "LENGTH('h)"] nbits_unat [of ?l] by (simp add: builtin_clz_def W)
  next
    case False
    have "clz2 TYPE('h) a = of_nat (builtin_clz ?h) + of_nat 0"
      using False by (simp add: clz2_def Let_def)
    moreover have "nbits (unat a) - LENGTH('h) = nbits (unat ?h)"
      using nbits_div [of "unat a" "LENGTH('h)"] unat_halves [OF tw, of a] by simp
    moreover have "0 < nbits (unat ?h)"
      using False by (simp add: nbits_pos)
    ultimately show ?thesis
      using sum [of "builtin_clz ?h" 0] by (simp add: builtin_clz_def W)
  qed
qed


subsection \<open>Trailing zeros\<close>

definition ctzsi2 :: "32 word \<Rightarrow> 32 word" where
  "ctzsi2 a =
     (let x = a;
          t = push_bit 4 (of_bool (x AND 0xFFFF = 0));
          x = drop_bit (unat (t :: 32 word)) x;
          r = t;
          t = push_bit 3 (of_bool (x AND 0xFF = 0));
          x = drop_bit (unat (t :: 32 word)) x;
          r = r + t;
          t = push_bit 2 (of_bool (x AND 0xF = 0));
          x = drop_bit (unat (t :: 32 word)) x;
          r = r + t;
          t = push_bit 1 (of_bool (x AND 3 = 0));
          x = drop_bit (unat (t :: 32 word)) x;
          x = x AND 3;
          r = r + t
      in r + ((2 - drop_bit 1 x) AND - of_bool (x AND 1 = 0)))"

definition ctz2 :: "'h::len itself \<Rightarrow> 'w::len word \<Rightarrow> 32 word" where
  "ctz2 h a =
     (let high = s_high a :: 'h word; low = s_low a :: 'h word; f = - of_bool (low = 0)
      in of_nat (builtin_ctz ((high AND f) OR (low AND NOT f))) + (ucast f AND of_nat LENGTH('h)))"

definition ffs2 :: "'h::len itself \<Rightarrow> 'w::len word \<Rightarrow> 32 word" where
  "ffs2 h a =
     (let high = s_high a :: 'h word; low = s_low a :: 'h word
      in if low = 0
         then if high = 0 then 0 else of_nat (builtin_ctz high) + (1 + of_nat LENGTH('h))
         else of_nat (builtin_ctz low) + 1)"

definition ctzdi2 :: "64 word \<Rightarrow> 32 word" where "ctzdi2 = ctz2 TYPE(32)"
definition ctzti2 :: "128 word \<Rightarrow> 32 word" where "ctzti2 = ctz2 TYPE(64)"
definition ffsdi2 :: "64 word \<Rightarrow> 32 word" where "ffsdi2 = ffs2 TYPE(32)"
definition ffsti2 :: "128 word \<Rightarrow> 32 word" where "ffsti2 = ffs2 TYPE(64)"

lemma ctz_word_step:
  fixes x :: "32 word"
  assumes "unat x \<noteq> 0" "ntz (unat x) < 2 * n" "n = 2 ^ j" "j \<le> 4" "m = mask n"
  defines "t \<equiv> push_bit j (of_bool (x AND m = 0)) :: 32 word"
  shows "unat (drop_bit (unat t) x) \<noteq> 0" and "ntz (unat (drop_bit (unat t) x)) < n"
    and "ntz (unat x) = unat t + ntz (unat (drop_bit (unat t) x))" and "unat t \<le> n"
proof -
  have "n \<le> 16"
    using assms(3, 4) power_increasing [of j 4 "2 :: nat"] by simp
  then have w: "unat (of_nat n :: 32 word) = n"
    by (simp add: unat_of_nat take_bit_nat_eq_self)
  have "x AND m = 0 \<longleftrightarrow> unat (x AND m) = 0"
    by simp
  also have "\<dots> \<longleftrightarrow> n \<le> ntz (unat x)"
    unfolding assms(5) unat_low_digit using ntz_dvd [OF assms(1), of n] by (simp only: dvd_eq_mod_eq_0)
  finally have t: "t = (if n \<le> ntz (unat x) then of_nat n else 0)"
    by (simp add: t_def assms(3))
  then have ut: "unat t = (if n \<le> ntz (unat x) then n else 0)"
    by (simp only: w split: if_split) simp
  then have le: "unat t \<le> ntz (unat x)"
    by simp
  then have "2 ^ unat t dvd unat x"
    using assms(1) by (simp add: ntz_dvd)
  then show "unat (drop_bit (unat t) x) \<noteq> 0"
    using assms(1) by (simp only: unat_high_digit dvd_div_eq_0_iff simp_thms)
  have "ntz (unat (drop_bit (unat t) x)) = ntz (unat x) - unat t"
    unfolding unat_high_digit by (rule ntz_div [OF assms(1) le])
  then show "ntz (unat (drop_bit (unat t) x)) < n" "ntz (unat x) = unat t + ntz (unat (drop_bit (unat t) x))"
    using assms(2) le ut by (auto split: if_splits)
  show "unat t \<le> n"
    by (simp add: ut)
qed

lemma ctzsi2_ok:
  assumes "a \<noteq> 0"
  shows "unat (ctzsi2 a) = builtin_ctz a"
proof -
  define t1 where "t1 = (push_bit 4 (of_bool (a AND 0xFFFF = 0)) :: 32 word)"
  define x1 where "x1 = drop_bit (unat t1) a"
  define t2 where "t2 = (push_bit 3 (of_bool (x1 AND 0xFF = 0)) :: 32 word)"
  define x2 where "x2 = drop_bit (unat t2) x1"
  define t3 where "t3 = (push_bit 2 (of_bool (x2 AND 0xF = 0)) :: 32 word)"
  define x3 where "x3 = drop_bit (unat t3) x2"
  define t4 where "t4 = (push_bit 1 (of_bool (x3 AND 3 = 0)) :: 32 word)"
  define x4 where "x4 = drop_bit (unat t4) x3"
  have masks: "0xFFFF = (mask 16 :: 32 word)" "0xFF = (mask 8 :: 32 word)" "0xF = (mask 4 :: 32 word)" "3 = (mask 2 :: 32 word)"
    by (simp_all add: mask_eq_exp_minus_1)
  have s0: "unat a \<noteq> 0" "ntz (unat a) < 2 * 16"
    using assms ntz_less [of "unat a" 32] unsigned_less [of a, where ?'a = nat] by simp_all
  have s1: "unat x1 \<noteq> 0" "ntz (unat x1) < 2 * 8" "ntz (unat a) = unat t1 + ntz (unat x1)" "unat t1 \<le> 16"
    using ctz_word_step [where j = 4 and n = 16, OF s0 _ _ masks(1), folded t1_def, folded x1_def] by simp_all
  have s2: "unat x2 \<noteq> 0" "ntz (unat x2) < 2 * 4" "ntz (unat x1) = unat t2 + ntz (unat x2)" "unat t2 \<le> 8"
    using ctz_word_step [where j = 3 and n = 8, OF s1(1, 2) _ _ masks(2), folded t2_def, folded x2_def] by simp_all
  have s3: "unat x3 \<noteq> 0" "ntz (unat x3) < 2 * 2" "ntz (unat x2) = unat t3 + ntz (unat x3)" "unat t3 \<le> 4"
    using ctz_word_step [where j = 2 and n = 4, OF s2(1, 2) _ _ masks(3), folded t3_def, folded x3_def] by simp_all
  have s4: "unat x4 \<noteq> 0" "ntz (unat x4) < 2" "ntz (unat x3) = unat t4 + ntz (unat x4)" "unat t4 \<le> 2"
    using ctz_word_step [where j = 1 and n = 2, OF s3(1, 2) _ _ masks(4), folded t4_def, folded x4_def] by simp_all
  define x5 where "x5 = x4 AND 3"
  let ?e = "(2 - drop_bit 1 x5) AND - of_bool (x5 AND 1 = 0)"
  have four: "unat x5 = unat x4 mod 4"
    using unat_low_digit [of x4 2] by (simp add: mask_eq_exp_minus_1 x5_def)
  have not4: "unat x4 mod 4 \<noteq> 0" and even2: "even (unat x4) \<longleftrightarrow> 1 \<le> ntz (unat x4)"
    using s4(1, 2) ntz_dvd [of "unat x4" 2] ntz_dvd [of "unat x4" 1] by (auto simp: dvd_eq_mod_eq_0)
  have "unat x4 mod 2 = unat x4 mod 4 mod 2"
    by (simp add: mod_mod_cancel)
  moreover have "x5 = 1 \<or> x5 = 2 \<or> x5 = 3"
    using word_below_4 [of x5] four not4 by (metis mod_less_divisor unsigned_0 zero_less_numeral)
  ultimately have e: "unat ?e = ntz (unat x4)"
    using four even2 s4(2) by (elim disjE) (auto simp: even_iff_mod_2_eq_zero)
  have "ctzsi2 a = t1 + t2 + t3 + t4 + ?e"
    by (simp only: ctzsi2_def Let_def t1_def x1_def t2_def x2_def t3_def x3_def t4_def x4_def x5_def)
  also have "\<dots> = of_nat (unat t1 + unat t2 + unat t3 + unat t4 + unat ?e)"
    by simp
  finally have "unat (ctzsi2 a) = unat t1 + unat t2 + unat t3 + unat t4 + unat ?e"
    using s1(4) s2(4) s3(4) s4(2, 4) e by (simp only: unat_of_nat) simp
  then show ?thesis
    using s1(3) s2(3) s3(3) s4(3) unfolding e builtin_ctz_def by simp
qed

lemma ctz_halves:
  assumes tw: "twice TYPE('h::len) TYPE('w::len)" and "(a :: 'w word) \<noteq> 0"
  shows "builtin_ctz a = (if (s_low a :: 'h word) = 0 then builtin_ctz (s_high a :: 'h word) + LENGTH('h)
      else builtin_ctz (s_low a :: 'h word))"
proof -
  let ?h = "s_high a :: 'h word" and ?l = "s_low a :: 'h word" and ?B = "2 ^ LENGTH('h) :: nat"
  have a: "unat a = unat ?h * ?B + unat ?l"
    by (rule unat_halves [OF tw])
  have nz: "unat a \<noteq> 0"
    using assms(2) by simp
  show ?thesis
  proof (cases "?l = 0")
    case True
    then have "LENGTH('h) \<le> ntz (unat a)" "unat a div ?B = unat ?h"
      using ntz_dvd [OF nz, of "LENGTH('h)"] by (simp_all add: a)
    then show ?thesis
      using ntz_div [OF nz, of "LENGTH('h)"] True by (simp add: builtin_ctz_def)
  next
    case False
    then have l: "unat ?l \<noteq> 0"
      by simp
    have iff: "k \<le> ntz (unat a) \<longleftrightarrow> k \<le> ntz (unat ?l)" if "k \<le> LENGTH('h)" for k
    proof -
      have "2 ^ k dvd ?B"
        using that by (rule le_imp_power_dvd)
      then have "2 ^ k dvd unat a \<longleftrightarrow> 2 ^ k dvd unat ?l"
        unfolding a by (simp add: dvd_add_right_iff)
      then show ?thesis
        by (simp add: ntz_dvd [OF nz] ntz_dvd [OF l])
    qed
    have "ntz (unat ?l) < LENGTH('h)"
      using l by (rule ntz_less) simp
    then have "ntz (unat a) = ntz (unat ?l)"
      using iff [of "ntz (unat ?l)"] iff [of "Suc (ntz (unat ?l))"] by linarith
    then show ?thesis
      using False by (simp add: builtin_ctz_def)
  qed
qed

lemma ctz_bound: "(x :: 'h::len word) \<noteq> 0 \<Longrightarrow> builtin_ctz x < LENGTH('h)"
  unfolding builtin_ctz_def by (rule ntz_less) simp_all

lemma high_nonzero:
  "twice TYPE('h::len) TYPE('w::len) \<Longrightarrow> (a :: 'w word) \<noteq> 0 \<Longrightarrow> (s_low a :: 'h word) = 0 \<Longrightarrow> (s_high a :: 'h word) \<noteq> 0"
  using unat_halves [where ?'h = 'h, of a] by auto

lemma ctz2_ok:
  assumes tw: "twice TYPE('h::len) TYPE('w::len)" and small: "32 \<le> LENGTH('h)" "LENGTH('h) < 2 ^ 31" and "(a :: 'w word) \<noteq> 0"
  shows "unat (ctz2 TYPE('h) a) = builtin_ctz a"
proof -
  let ?h = "s_high a :: 'h word" and ?l = "s_low a :: 'h word"
  have sum: "unat (of_nat m + of_nat n :: 32 word) = m + n" if "m \<le> LENGTH('h)" "n \<le> LENGTH('h)" for m n
    using that small(2) by (simp only: unat_of_nat flip: of_nat_add) simp
  have "ctz2 TYPE('h) a = (if ?l = 0 then of_nat (builtin_ctz ?h) + of_nat LENGTH('h) else of_nat (builtin_ctz ?l) + of_nat 0)"
    by (simp add: ctz2_def Let_def ucast_all_ones [OF small(1)])
  then show ?thesis
    using sum [of "builtin_ctz ?h" "LENGTH('h)"] sum [of "builtin_ctz ?l" 0] less_imp_le [OF ctz_bound [of ?h]]
      less_imp_le [OF ctz_bound [of ?l]] high_nonzero [OF tw assms(4)]
    by (simp add: ctz_halves [OF tw assms(4)])
qed

lemma ffs2_ok:
  assumes tw: "twice TYPE('h::len) TYPE('w::len)" and small: "LENGTH('h) < 2 ^ 30"
  shows "unat (ffs2 TYPE('h) (a :: 'w word)) = (if a = 0 then 0 else builtin_ctz a + 1)"
proof (cases "a = 0")
  case False
  let ?h = "s_high a :: 'h word" and ?l = "s_low a :: 'h word"
  have "ffs2 TYPE('h) a = of_nat (if ?l = 0 then builtin_ctz ?h + LENGTH('h) + 1 else builtin_ctz ?l + 1)"
    using high_nonzero [OF tw False] by (simp add: ffs2_def Let_def)
  moreover have "(if ?l = 0 then builtin_ctz ?h + LENGTH('h) + 1 else builtin_ctz ?l + 1) < 2 ^ 32"
    using small ctz_bound [of ?h] ctz_bound [of ?l] high_nonzero [OF tw False] by (simp split: if_split) linarith
  ultimately show ?thesis
    using False by (simp only: unat_of_nat ctz_halves [OF tw False]) simp
qed (simp add: ffs2_def s_high_def s_low_def)

end
