(* ===== verification/Builtins_Checked.thy ===== *)
theory Builtins_Checked
  imports Builtins_Words "HOL-Library.Signed_Division"
begin

text \<open>
  Arithmetic of \<^verbatim>\<open>compiler-rt\<close> that detects overflow: the \<^verbatim>\<open>v\<close> routines abort (the value \<open>None\<close>, a
  call of \<^verbatim>\<open>compilerrt_abort\<close>), the \<^verbatim>\<open>o\<close> routines set a flag.  Each routine exists for 32, 64 and
  128 bits with the same text, which is a definition over words of any length here.  Signed operations wrap
  around; where the sources compute a product, difference or negation of signed integers that overflows, C leaves it
  undefined and the model has the result of two's complement, which the sources rely on.
\<close>

subsection \<open>The routines\<close>

definition INT_MIN :: "'a::len word" where
  "INT_MIN = push_bit (LENGTH('a) - 1) 1"

text \<open>The division of signed integers truncates.\<close>

definition sdivw :: "'a::len word \<Rightarrow> 'a word \<Rightarrow> 'a word" where
  "sdivw a b = word_of_int (sint a sdiv sint b)"

text \<open>The idiom \<^verbatim>\<open>(a ^ s) - s\<close> with \<^verbatim>\<open>s = a >> (N - 1)\<close>.\<close>

definition sign_of :: "'a::len word \<Rightarrow> 'a word" where
  "sign_of a = signed_drop_bit (LENGTH('a) - 1) a"

definition negate_if :: "'a::len word \<Rightarrow> 'a word \<Rightarrow> 'a word" where
  "negate_if s a = (a XOR s) - s"

definition absv :: "'a::len word \<Rightarrow> 'a word option" where
  "absv a = (if a = INT_MIN then None else let t = sign_of a in Some (negate_if t a))"

definition negv :: "'a::len word \<Rightarrow> 'a word option" where
  "negv a = (if a = INT_MIN then None else Some (- a))"

definition addv :: "'a::len word \<Rightarrow> 'a word \<Rightarrow> 'a word option" where
  "addv a b =
     (let s = a + b
      in if 0 \<le>s b then if s <s a then None else Some s
         else if a \<le>s s then None else Some s)"

definition subv :: "'a::len word \<Rightarrow> 'a word \<Rightarrow> 'a word option" where
  "subv a b =
     (let s = a - b
      in if 0 \<le>s b then if a <s s then None else Some s
         else if s \<le>s a then None else Some s)"

definition mulo :: "'a::len word \<Rightarrow> 'a word \<Rightarrow> 'a word \<times> bool" where
  "mulo a b =
     (let mn = INT_MIN; mx = NOT mn; result = a * b
      in if a = mn then (result, b \<noteq> 0 \<and> b \<noteq> 1)
         else if b = mn then (result, a \<noteq> 0 \<and> a \<noteq> 1)
         else let sa = sign_of a; abs_a = negate_if sa a; sb = sign_of b; abs_b = negate_if sb b
              in if abs_a <s 2 \<or> abs_b <s 2 then (result, False)
                 else if sa = sb then (result, sdivw mx abs_b <s abs_a)
                 else (result, sdivw mn (- abs_b) <s abs_a))"

definition mulv :: "'a::len word \<Rightarrow> 'a word \<Rightarrow> 'a word option" where
  "mulv a b =
     (let mn = INT_MIN; mx = NOT mn
      in if a = mn then if b = 0 \<or> b = 1 then Some (a * b) else None
         else if b = mn then if a = 0 \<or> a = 1 then Some (a * b) else None
         else let sa = sign_of a; abs_a = negate_if sa a; sb = sign_of b; abs_b = negate_if sb b
              in if abs_a <s 2 \<or> abs_b <s 2 then Some (a * b)
                 else if sa = sb then if sdivw mx abs_b <s abs_a then None else Some (a * b)
                 else if sdivw mn (- abs_b) <s abs_a then None else Some (a * b))"

definition absvsi2 :: "32 word \<Rightarrow> 32 word option" where "absvsi2 = absv"
definition absvdi2 :: "64 word \<Rightarrow> 64 word option" where "absvdi2 = absv"
definition absvti2 :: "128 word \<Rightarrow> 128 word option" where "absvti2 = absv"
definition negvsi2 :: "32 word \<Rightarrow> 32 word option" where "negvsi2 = negv"
definition negvdi2 :: "64 word \<Rightarrow> 64 word option" where "negvdi2 = negv"
definition negvti2 :: "128 word \<Rightarrow> 128 word option" where "negvti2 = negv"
definition negdi2 :: "64 word \<Rightarrow> 64 word" where "negdi2 a = - a"
definition negti2 :: "128 word \<Rightarrow> 128 word" where "negti2 a = - a"
definition addvsi3 :: "32 word \<Rightarrow> 32 word \<Rightarrow> 32 word option" where "addvsi3 = addv"
definition addvdi3 :: "64 word \<Rightarrow> 64 word \<Rightarrow> 64 word option" where "addvdi3 = addv"
definition addvti3 :: "128 word \<Rightarrow> 128 word \<Rightarrow> 128 word option" where "addvti3 = addv"
definition subvsi3 :: "32 word \<Rightarrow> 32 word \<Rightarrow> 32 word option" where "subvsi3 = subv"
definition subvdi3 :: "64 word \<Rightarrow> 64 word \<Rightarrow> 64 word option" where "subvdi3 = subv"
definition subvti3 :: "128 word \<Rightarrow> 128 word \<Rightarrow> 128 word option" where "subvti3 = subv"
definition mulosi4 :: "32 word \<Rightarrow> 32 word \<Rightarrow> 32 word \<times> bool" where "mulosi4 = mulo"
definition mulodi4 :: "64 word \<Rightarrow> 64 word \<Rightarrow> 64 word \<times> bool" where "mulodi4 = mulo"
definition muloti4 :: "128 word \<Rightarrow> 128 word \<Rightarrow> 128 word \<times> bool" where "muloti4 = mulo"
definition mulvsi3 :: "32 word \<Rightarrow> 32 word \<Rightarrow> 32 word option" where "mulvsi3 = mulv"
definition mulvdi3 :: "64 word \<Rightarrow> 64 word \<Rightarrow> 64 word option" where "mulvdi3 = mulv"
definition mulvti3 :: "128 word \<Rightarrow> 128 word \<Rightarrow> 128 word option" where "mulvti3 = mulv"


subsection \<open>Checked results\<close>

text \<open>
  The specification: the integer result when it is a value of the type, and no result otherwise.
\<close>

definition fits :: "'a::len itself \<Rightarrow> int \<Rightarrow> bool" where
  "fits t i \<longleftrightarrow> - (2 ^ (LENGTH('a) - 1)) \<le> i \<and> i < 2 ^ (LENGTH('a) - 1)"

definition checked :: "int \<Rightarrow> 'a::len word option" where
  "checked i = (if fits TYPE('a) i then Some (word_of_int i) else None)"

lemma fits_sint [simp]: "fits TYPE('a) (sint (a :: 'a::len word))"
  using sint_ge [of a] sint_lt [of a] by (simp add: fits_def)

lemma double_half: "(2 :: int) ^ LENGTH('a::len) = 2 * 2 ^ (LENGTH('a) - 1)"
  by (metis One_nat_def Suc_pred len_gt_0 power_Suc)

lemma sint_wrap:
  fixes i :: int
  defines "M \<equiv> 2 ^ (LENGTH('a::len) - 1)"
  assumes "- 2 * M \<le> i" "i < 2 * M"
  shows "sint (word_of_int i :: 'a word) = (if i < - M then i + 2 * M else if M \<le> i then i - 2 * M else i)"
proof -
  have len: "(2 :: int) ^ LENGTH('a) = 2 * M"
    unfolding M_def by (rule double_half)
  have fit: "sint (word_of_int j :: 'a word) = j" if "- M \<le> j" "j < M" for j
    using that by (simp add: sint_sbintrunc' signed_take_bit_int_eq_self M_def)
  have per: "(word_of_int (j + 2 * M) :: 'a word) = word_of_int j" for j
    by (simp only: word_of_int_eq_iff take_bit_eq_mod len mod_add_self2)
  show ?thesis
  proof (cases "i < - M")
    case True
    then show ?thesis
      using fit [of "i + 2 * M"] per [of i] assms(2) by simp
  next
    case False
    then show ?thesis
      using fit [of i] fit [of "i - 2 * M"] per [of "i - 2 * M"] assms(3) by auto
  qed
qed

lemma addv_ok: "addv (a :: 'a::len word) b = checked (sint a + sint b)"
proof -
  have "a + b = word_of_int (sint a + sint b)"
    by simp
  moreover have "sint (word_of_int (sint a + sint b) :: 'a word)
     = (if sint a + sint b < - (2 ^ (LENGTH('a) - 1)) then sint a + sint b + 2 * 2 ^ (LENGTH('a) - 1)
        else if 2 ^ (LENGTH('a) - 1) \<le> sint a + sint b then sint a + sint b - 2 * 2 ^ (LENGTH('a) - 1) else sint a + sint b)"
    using sint_ge [of a] sint_ge [of b] sint_lt [of a] sint_lt [of b] by (intro sint_wrap) linarith+
  ultimately show ?thesis
    using sint_ge [of a] sint_ge [of b] sint_lt [of a] sint_lt [of b]
    by (auto simp: addv_def checked_def fits_def word_sle_eq word_sless_alt Let_def)
qed

lemma subv_ok: "subv (a :: 'a::len word) b = checked (sint a - sint b)"
proof -
  have "a - b = word_of_int (sint a - sint b)"
    by simp
  moreover have "sint (word_of_int (sint a - sint b) :: 'a word)
     = (if sint a - sint b < - (2 ^ (LENGTH('a) - 1)) then sint a - sint b + 2 * 2 ^ (LENGTH('a) - 1)
        else if 2 ^ (LENGTH('a) - 1) \<le> sint a - sint b then sint a - sint b - 2 * 2 ^ (LENGTH('a) - 1) else sint a - sint b)"
    using sint_ge [of a] sint_ge [of b] sint_lt [of a] sint_lt [of b] by (intro sint_wrap) linarith+
  ultimately show ?thesis
    using sint_ge [of a] sint_ge [of b] sint_lt [of a] sint_lt [of b]
    by (auto simp: subv_def checked_def fits_def word_sle_eq word_sless_alt Let_def)
qed



subsection \<open>Signs and absolute values\<close>

lemma sint_word_of_int: "fits TYPE('a) i \<Longrightarrow> sint (word_of_int i :: 'a::len word) = i"
  by (simp add: sint_sbintrunc' signed_take_bit_int_eq_self fits_def)

lemma INT_MIN_eq: "(INT_MIN :: 'a::len word) = word_of_int (- (2 ^ (LENGTH('a) - 1)))"
proof -
  have "(2 :: 'a word) ^ (LENGTH('a) - 1) + 2 ^ (LENGTH('a) - 1) = 2 ^ Suc (LENGTH('a) - 1)"
    by (simp only: power_Suc mult_2)
  also have "Suc (LENGTH('a) - 1) = LENGTH('a)"
    by simp
  also have "(2 :: 'a word) ^ LENGTH('a) = 0"
    by simp
  finally show ?thesis
    unfolding INT_MIN_def push_bit_of_1 by (simp only: wi_hom_neg [symmetric] word_of_int_2p eq_neg_iff_add_eq_0)
qed

lemma sint_INT_MIN: "sint (INT_MIN :: 'a::len word) = - (2 ^ (LENGTH('a) - 1))"
  unfolding INT_MIN_eq by (rule sint_word_of_int) (simp add: fits_def)

lemma sint_NOT_INT_MIN: "sint (NOT INT_MIN :: 'a::len word) = 2 ^ (LENGTH('a) - 1) - 1"
proof -
  have "(NOT INT_MIN :: 'a word) = word_of_int (2 ^ (LENGTH('a) - 1) - 1)"
    by (simp add: INT_MIN_eq not_eq_complement)
  then show ?thesis
    by (simp only:) (rule sint_word_of_int, simp add: fits_def)
qed

lemma eq_INT_MIN: "(a :: 'a::len word) = INT_MIN \<longleftrightarrow> sint a = - (2 ^ (LENGTH('a) - 1))"
  by (metis sint_INT_MIN signed_word_eqI)

lemma sign_of_eq: "sign_of (a :: 'a::len word) = (if sint a < 0 then - 1 else 0)"
proof -
  have "sint (sign_of a) = sint a div 2 ^ (LENGTH('a) - 1)"
    by (simp add: sign_of_def sint_signed_drop_bit_eq drop_bit_eq_div)
  moreover have "sint a div 2 ^ (LENGTH('a) - 1) = (if sint a < 0 then - 1 else 0)"
    using sint_ge [of a] sint_lt [of a] int_div_pos_eq [of "sint a" "2 ^ (LENGTH('a) - 1)" "- 1" "sint a + 2 ^ (LENGTH('a) - 1)"]
    by auto
  ultimately show ?thesis
    by (auto intro: signed_word_eqI [where ?'a = int])
qed

lemma negate_if_simps [simp]: "negate_if 0 a = a" "negate_if (- 1) a = - a"
proof -
  have "a XOR - 1 = NOT a"
    by (rule bit_eqI) (auto simp: bit_simps)
  then show "negate_if (- 1) a = - a"
    by (simp add: negate_if_def not_eq_complement)
qed (simp add: negate_if_def)

lemma sint_minus: "a \<noteq> INT_MIN \<Longrightarrow> sint (- a :: 'a::len word) = - sint a"
proof -
  assume "a \<noteq> INT_MIN"
  then have "fits TYPE('a) (- sint a)"
    using sint_ge [of a] sint_lt [of a] by (simp add: fits_def eq_INT_MIN)
  moreover have "- a = word_of_int (- sint a)"
    by simp
  ultimately show ?thesis
    by (metis sint_word_of_int)
qed

lemma sint_abs: "a \<noteq> INT_MIN \<Longrightarrow> sint (negate_if (sign_of a) a) = \<bar>sint a\<bar>"
  by (simp add: sign_of_eq sint_minus)

lemma negv_ok: "negv (a :: 'a::len word) = checked (- sint a)"
  using sint_ge [of a] sint_lt [of a] by (auto simp: negv_def checked_def fits_def eq_INT_MIN)

lemma absv_ok: "absv (a :: 'a::len word) = checked \<bar>sint a\<bar>"
  using sint_ge [of a] sint_lt [of a]
  by (auto simp: absv_def checked_def fits_def eq_INT_MIN sign_of_eq Let_def)


subsection \<open>Products\<close>

lemma sdivw_pos:
  assumes "0 \<le> sint a" "0 < sint b"
  shows "sint (sdivw a b) = sint a div sint b"
proof -
  have "sint a sdiv sint b = sint a div sint b"
    using assms by (simp add: signed_divide_int_def sgn_if)
  moreover have "fits TYPE('a) (sint a div sint b)"
  proof -
    have "0 \<le> sint a div sint b" "sint a div sint b \<le> sint a div 1"
      using assms zdiv_mono2 [of "sint a" 1 "sint b"] by (simp_all add: pos_imp_zdiv_nonneg_iff)
    then show ?thesis
      using sint_lt [of a] zero_le_power [of "2 :: int" "LENGTH('a) - 1"] unfolding fits_def div_by_1 by linarith
  qed
  ultimately show ?thesis
    by (simp add: sdivw_def sint_word_of_int)
qed

text \<open>When \<open>M\<close> is the modulus of the negative range: the product of two magnitudes that are at least 2.\<close>

lemma product_bound:
  fixes x y M :: int
  assumes "0 < y"
  shows "x * y \<le> M \<longleftrightarrow> x \<le> M div y"
proof
  assume "x * y \<le> M"
  then have "x * y div y \<le> M div y"
    using assms by (rule zdiv_mono1)
  then show "x \<le> M div y"
    using assms by simp
next
  assume "x \<le> M div y"
  then have "x * y \<le> M div y * y"
    using assms by simp
  also have "\<dots> \<le> M"
    using assms by (metis div_mult_mod_eq le_add_same_cancel1 pos_mod_sign)
  finally show "x * y \<le> M" .
qed

lemma overflow_test:
  fixes x y M :: int
  assumes "\<bar>x\<bar> < M" "\<bar>y\<bar> < M"
  shows "(if \<bar>x\<bar> < 2 \<or> \<bar>y\<bar> < 2 then False
      else if (x < 0) = (y < 0) then (M - 1) div \<bar>y\<bar> < \<bar>x\<bar> else M div \<bar>y\<bar> < \<bar>x\<bar>)
    \<longleftrightarrow> \<not> (- M \<le> x * y \<and> x * y < M)"
proof -
  have abs: "\<bar>x * y\<bar> = \<bar>x\<bar> * \<bar>y\<bar>"
    by (rule abs_mult)
  consider (small) "\<bar>x\<bar> < 2 \<or> \<bar>y\<bar> < 2" | (same) "2 \<le> \<bar>x\<bar>" "2 \<le> \<bar>y\<bar>" "(x < 0) = (y < 0)"
    | (diff) "2 \<le> \<bar>x\<bar>" "2 \<le> \<bar>y\<bar>" "(x < 0) \<noteq> (y < 0)"
    by linarith
  then show ?thesis
  proof cases
    case small
    then have "\<bar>x\<bar> * \<bar>y\<bar> \<le> \<bar>x\<bar> \<or> \<bar>x\<bar> * \<bar>y\<bar> \<le> \<bar>y\<bar>"
      using mult_left_mono [of "\<bar>y\<bar>" 1 "\<bar>x\<bar>"] mult_right_mono [of "\<bar>x\<bar>" 1 "\<bar>y\<bar>"] by auto
    then have "\<bar>x * y\<bar> < M"
      using assms abs by linarith
    then show ?thesis
      using small by auto
  next
    case same
    then have "x * y = \<bar>x\<bar> * \<bar>y\<bar>"
      by (auto simp: abs_if)
    then have "x * y < M \<longleftrightarrow> \<not> (M - 1) div \<bar>y\<bar> < \<bar>x\<bar>" "- M \<le> x * y"
      using same product_bound [of "\<bar>y\<bar>" "\<bar>x\<bar>" "M - 1"] abs abs_ge_zero [of "x * y"] assms by linarith+
    then show ?thesis
      using same by (simp only: if_not_P not_less de_Morgan_disj simp_thms if_True not_not split: if_split) (simp only: not_le)
  next
    case diff
    then have "x * y = - (\<bar>x\<bar> * \<bar>y\<bar>)"
      by (auto simp: abs_if)
    then have "- M \<le> x * y \<longleftrightarrow> \<not> M div \<bar>y\<bar> < \<bar>x\<bar>" "x * y < M"
      using diff product_bound [of "\<bar>y\<bar>" "\<bar>x\<bar>" M] abs abs_ge_zero [of "x * y"] assms by linarith+
    then show ?thesis
      using diff by (simp only: if_not_P not_less de_Morgan_disj simp_thms if_True not_not split: if_split) (simp only: not_le)
  qed
qed

lemma sdivw_MIN:
  assumes "1 < sint (b :: 'a::len word)"
  shows "sint (sdivw INT_MIN (- b)) = 2 ^ (LENGTH('a) - 1) div sint b"
proof -
  let ?M = "2 ^ (LENGTH('a) - 1) :: int"
  have b: "sint (- b) = - sint b"
    using assms zero_less_power [of "2 :: int" "LENGTH('a) - 1"] by (intro sint_minus) (unfold eq_INT_MIN, linarith)
  have "- ?M sdiv - sint b = ?M div sint b"
    using assms by (simp add: signed_divide_int_def sgn_if)
  moreover have "fits TYPE('a) (?M div sint b)"
    using assms int_div_less_self [of ?M "sint b"] by (simp add: fits_def pos_imp_zdiv_nonneg_iff order_trans [of _ 0])
  ultimately show ?thesis
    by (simp add: sdivw_def sint_INT_MIN b sint_word_of_int)
qed

text \<open>The flag of \<open>mulo\<close> is set exactly when the product does not fit.\<close>

lemma mulo_ok:
  assumes "2 < LENGTH('a)"
  shows "mulo (a :: 'a::len word) b = (a * b, \<not> fits TYPE('a) (sint a * sint b))"
proof -
  let ?M = "2 ^ (LENGTH('a) - 1) :: int" and ?x = "sint a" and ?y = "sint b"
  have M: "4 \<le> ?M"
    using assms power_increasing [of 2 "LENGTH('a) - 1" "2 :: int"] by simp
  have two: "sint (2 :: 'a word) = 2" and one: "sint (1 :: 'a word) = 1"
    using M sint_word_of_int [where ?'a = 'a, of 2] sint_word_of_int [where ?'a = 'a, of 1] by (simp_all add: fits_def)
  have less2: "c <s 2 \<longleftrightarrow> sint c < 2" for c :: "'a word"
    by (simp only: word_sless_alt two)
  have eqs: "c = 0 \<longleftrightarrow> sint c = 0" "c = 1 \<longleftrightarrow> sint c = 1" for c :: "'a word"
    using one by (auto simp: word_eq_iff_signed [where ?'a = int] simp del: signed_1)
  have extreme: "fits TYPE('a) (- ?M * i) \<longleftrightarrow> i = 0 \<or> i = 1" for i
  proof -
    have "- ?M \<le> - ?M * i \<longleftrightarrow> i \<le> 1" "- ?M * i < ?M \<longleftrightarrow> - 1 < i"
      using M mult_le_cancel_left_pos [of ?M i 1] mult_less_cancel_left_pos [of ?M "- 1" i] by auto
    then show ?thesis
      unfolding fits_def by auto
  qed
  consider (a) "a = INT_MIN" | (b) "a \<noteq> INT_MIN" "b = INT_MIN" | (n) "a \<noteq> INT_MIN" "b \<noteq> INT_MIN"
    by blast
  then show ?thesis
  proof cases
    case a
    then show ?thesis
      using extreme [of ?y] by (simp add: mulo_def Let_def eqs sint_INT_MIN)
  next
    case b
    then show ?thesis
      using extreme [of ?x] by (simp add: mulo_def Let_def eqs sint_INT_MIN mult.commute)
  next
    case n
    let ?f = "if \<bar>?x\<bar> < 2 \<or> \<bar>?y\<bar> < 2 then False
      else if (?x < 0) = (?y < 0) then (?M - 1) div \<bar>?y\<bar> < \<bar>?x\<bar> else ?M div \<bar>?y\<bar> < \<bar>?x\<bar>"
    have "snd (mulo a b) = ?f" "fst (mulo a b) = a * b"
      using n sint_abs [OF n(1)] sint_abs [OF n(2)] sdivw_pos [of "NOT INT_MIN :: 'a word" "negate_if (sign_of b) b"]
        sdivw_MIN [of "negate_if (sign_of b) b"] M
      by (auto simp: mulo_def Let_def less2 word_sless_alt [of "sdivw u v" for u v] sint_NOT_INT_MIN sign_of_eq)
    moreover have "?f \<longleftrightarrow> \<not> fits TYPE('a) (?x * ?y)"
      unfolding fits_def using n sint_ge [of a] sint_lt [of a] sint_ge [of b] sint_lt [of b]
      by (intro overflow_test) (auto simp: eq_INT_MIN)
    ultimately show ?thesis
      by (simp add: prod_eq_iff)
  qed
qed

lemma mulv_mulo: "mulv a b = (case mulo a b of (r, overflow) \<Rightarrow> if overflow then None else Some r)"
  unfolding mulv_def mulo_def Let_def
  by (cases "a = INT_MIN"; cases "b = INT_MIN"; simp only: if_True if_False prod.case simp_thms de_Morgan_conj not_not
      if_distrib [of "case_prod f" for f] if_cancel split del: if_split cong: if_cong) (simp_all split: if_split)

lemma mulv_ok: "2 < LENGTH('a) \<Longrightarrow> mulv (a :: 'a::len word) b = checked (sint a * sint b)"
  by (simp add: mulv_mulo mulo_ok checked_def)

lemmas checked_ok = absv_ok negv_ok addv_ok subv_ok mulv_ok

end
