(* ===== verification/Builtins_Div.thy ===== *)
theory Builtins_Div
  imports Builtins_Bits Builtins_Checked
begin

text \<open>
  Division in \<^verbatim>\<open>compiler-rt\<close>: the bit-by-bit division of one word (\<^verbatim>\<open>udivsi3.c\<close>), of two words
  (\<^verbatim>\<open>udivmoddi4.c\<close>, \<^verbatim>\<open>udivmodti4.c\<close>) and the routines built on them.  A division by 0 in the
  text of a routine is undefined in C and is the value \<open>None\<close>; what happens then depends on the target (a
  trap, or a call of \<^verbatim>\<open>__udivsi3\<close>, which returns 0).
\<close>

subsection \<open>One word\<close>

text \<open>The loop: \<open>sr\<close> rounds are left.  The result is \<open>q\<close>, \<open>r\<close> and \<open>carry\<close>.\<close>

fun div_loop :: "'a::len word \<Rightarrow> nat \<Rightarrow> 'a word \<Rightarrow> 'a word \<Rightarrow> 'a word \<Rightarrow> 'a word \<times> 'a word \<times> 'a word" where
  "div_loop d 0 q r carry = (q, r, carry)"
| "div_loop d (Suc sr) q r carry =
     (let r = push_bit 1 r OR drop_bit (LENGTH('a) - 1) q;
          q = push_bit 1 q OR carry;
          s = signed_drop_bit (LENGTH('a) - 1) (d - r - 1);
          carry = s AND 1;
          r = r - (d AND s)
      in div_loop d sr q r carry)"

definition udivsi3 :: "32 word \<Rightarrow> 32 word \<Rightarrow> 32 word" where
  "udivsi3 n d =
     (if d = 0 then 0
      else if n = 0 then 0
      else let sr = of_nat (builtin_clz d) - of_nat (builtin_clz n) :: 32 word
           in if 31 < sr then 0
              else if sr = 31 then n
              else let sr = sr + 1;
                       (q, r, carry) = div_loop d (unat sr) (push_bit (unat (32 - sr)) n) (drop_bit (unat sr) n) 0
                   in push_bit 1 q OR carry)"

definition umodsi3 :: "32 word \<Rightarrow> 32 word \<Rightarrow> 32 word" where
  "umodsi3 a b = a - udivsi3 a b * b"

definition udivmodsi4 :: "32 word \<Rightarrow> 32 word \<Rightarrow> 32 word \<times> 32 word" where
  "udivmodsi4 a b = (let d = udivsi3 a b in (d, a - d * b))"

text \<open>The unsigned division of the hardware; signed division by the idiom on signs.\<close>

definition udivw :: "'a::len word \<Rightarrow> 'a word \<Rightarrow> 'a word option" where
  "udivw a b = (if b = 0 then None else Some (a div b))"

definition divsi3 :: "32 word \<Rightarrow> 32 word \<Rightarrow> 32 word option" where
  "divsi3 a b =
     (let s_a = sign_of a; s_b = sign_of b; a = negate_if s_a a; b = negate_if s_b b; s_a = s_a XOR s_b
      in map_option (negate_if s_a) (udivw a b))"

definition modsi3 :: "32 word \<Rightarrow> 32 word \<Rightarrow> 32 word option" where
  "modsi3 a b = map_option (\<lambda>d. a - d * b) (divsi3 a b)"

definition divmodsi4 :: "32 word \<Rightarrow> 32 word \<Rightarrow> (32 word \<times> 32 word) option" where
  "divmodsi4 a b = map_option (\<lambda>d. (d, a - d * b)) (divsi3 a b)"


subsection \<open>Two words\<close>

text \<open>
  How the case distinction of \<^verbatim>\<open>__udivmoddi4\<close> ends: with the division by 0 that is written there, with the quotient and the
  remainder, or with \<open>sr\<close>, \<open>q\<close> and \<open>r\<close> for the loop.
\<close>

datatype 'v div_start = Div_undef | Div_done 'v 'v | Div_loop "32 word" 'v 'v

definition udivmod_start :: "'h::len itself \<Rightarrow> 'w::len word \<Rightarrow> 'w word \<Rightarrow> 'w word div_start" where
  "udivmod_start h n d =
     (let nh = s_high n :: 'h word; nl = s_low n :: 'h word; dh = s_high d :: 'h word; dl = s_low d :: 'h word;
          n_uword_bits = of_nat LENGTH('h) :: 32 word; n_udword_bits = of_nat LENGTH('w) :: 32 word
      in if nh = 0
         then if dh = 0
              then if dl = 0 then Div_undef else Div_done (ucast (nl div dl)) (ucast (nl mod dl))
              else Div_done 0 (ucast nl)
         else if dl = 0
         then if dh = 0 then Div_undef
              else if nl = 0 then Div_done (ucast (nh div dh)) (all_of (nh mod dh) 0)
              else if dh AND (dh - 1) = 0 then Div_done (ucast (drop_bit (builtin_ctz dh) nh)) (all_of (nh AND (dh - 1)) nl)
              else let sr = of_nat (builtin_clz dh) - of_nat (builtin_clz nh)
                   in if n_uword_bits - 2 < sr then Div_done 0 n
                      else let sr = sr + 1
                           in Div_loop sr (all_of (push_bit (unat (n_uword_bits - sr)) nl) 0)
                                (all_of (drop_bit (unat sr) nh)
                                   (push_bit (unat (n_uword_bits - sr)) nh OR drop_bit (unat sr) nl))
         else if dh = 0
         then if dl AND (dl - 1) = 0
              then Div_done
                     (if dl = 1 then n
                      else let sr = of_nat (builtin_ctz dl)
                           in all_of (drop_bit (unat sr) nh)
                                (push_bit (unat (n_uword_bits - sr)) nh OR drop_bit (unat sr) nl))
                     (ucast (nl AND (dl - 1)))
              else let sr = 1 + n_uword_bits + of_nat (builtin_clz dl) - of_nat (builtin_clz nh)
                   in if sr = n_uword_bits then Div_loop sr (all_of nl 0) (all_of 0 nh)
                      else if sr < n_uword_bits
                      then Div_loop sr (all_of (push_bit (unat (n_uword_bits - sr)) nl) 0)
                             (all_of (drop_bit (unat sr) nh)
                                (push_bit (unat (n_uword_bits - sr)) nh OR drop_bit (unat sr) nl))
                      else Div_loop sr
                             (all_of (push_bit (unat (n_udword_bits - sr)) nh OR drop_bit (unat (sr - n_uword_bits)) nl)
                                (push_bit (unat (n_udword_bits - sr)) nl))
                             (all_of 0 (drop_bit (unat (sr - n_uword_bits)) nh))
         else let sr = of_nat (builtin_clz dh) - of_nat (builtin_clz nh)
              in if n_uword_bits - 1 < sr then Div_done 0 n
                 else let sr = sr + 1
                      in if sr = n_uword_bits then Div_loop sr (all_of nl 0) (all_of 0 nh)
                         else Div_loop sr (all_of (push_bit (unat (n_uword_bits - sr)) nl) 0)
                                (all_of (drop_bit (unat sr) nh)
                                   (push_bit (unat (n_uword_bits - sr)) nh OR drop_bit (unat sr) nl)))"

fun udivmod_loop ::
  "'h::len itself \<Rightarrow> 'w::len word \<Rightarrow> nat \<Rightarrow> 'w word \<Rightarrow> 'w word \<Rightarrow> 32 word \<Rightarrow> 'w word \<times> 'w word \<times> 32 word" where
  "udivmod_loop h d 0 q r carry = (q, r, carry)"
| "udivmod_loop h d (Suc sr) q r carry =
     (let rh = push_bit 1 (s_high r) OR drop_bit (LENGTH('h) - 1) (s_low r :: 'h word);
          rl = push_bit 1 (s_low r) OR drop_bit (LENGTH('h) - 1) (s_high q :: 'h word);
          qh = push_bit 1 (s_high q) OR drop_bit (LENGTH('h) - 1) (s_low q :: 'h word);
          ql = push_bit 1 (s_low q) OR (ucast carry :: 'h word);
          r = all_of rh rl;
          q = all_of qh ql;
          s = signed_drop_bit (LENGTH('w) - 1) (d - r - 1);
          carry = ucast (s AND 1);
          r = r - (d AND s)
      in udivmod_loop h d sr q r carry)"

definition udivmod4 :: "'h::len itself \<Rightarrow> 'w::len word \<Rightarrow> 'w word \<Rightarrow> ('w word \<times> 'w word) option" where
  "udivmod4 h a b =
     (case udivmod_start h a b of
        Div_undef \<Rightarrow> None
      | Div_done q r \<Rightarrow> Some (q, r)
      | Div_loop sr q r \<Rightarrow>
          let (q, r, carry) = udivmod_loop h b (unat sr) q r 0 in Some (push_bit 1 q OR ucast carry, r))"

definition udivmoddi4 :: "64 word \<Rightarrow> 64 word \<Rightarrow> (64 word \<times> 64 word) option" where
  "udivmoddi4 = udivmod4 TYPE(32)"

definition udivmodti4 :: "128 word \<Rightarrow> 128 word \<Rightarrow> (128 word \<times> 128 word) option" where
  "udivmodti4 = udivmod4 TYPE(64)"

definition udivdi3 :: "64 word \<Rightarrow> 64 word \<Rightarrow> 64 word option" where
  "udivdi3 a b = map_option fst (udivmoddi4 a b)"

definition udivti3 :: "128 word \<Rightarrow> 128 word \<Rightarrow> 128 word option" where
  "udivti3 a b = map_option fst (udivmodti4 a b)"

definition umoddi3 :: "64 word \<Rightarrow> 64 word \<Rightarrow> 64 word option" where
  "umoddi3 a b = map_option snd (udivmoddi4 a b)"

definition umodti3 :: "128 word \<Rightarrow> 128 word \<Rightarrow> 128 word option" where
  "umodti3 a b = map_option snd (udivmodti4 a b)"

text \<open>The signed routines of 64 and 128 bits, over the unsigned one.\<close>

definition div3 :: "('w::len word \<Rightarrow> 'w word \<Rightarrow> ('w word \<times> 'w word) option) \<Rightarrow> 'w word \<Rightarrow> 'w word \<Rightarrow> 'w word option" where
  "div3 udivmod a b =
     (let s_a = sign_of a; s_b = sign_of b; a = negate_if s_a a; b = negate_if s_b b; s_a = s_a XOR s_b
      in map_option (\<lambda>(q, r). negate_if s_a q) (udivmod a b))"

definition mod3 :: "('w::len word \<Rightarrow> 'w word \<Rightarrow> ('w word \<times> 'w word) option) \<Rightarrow> 'w word \<Rightarrow> 'w word \<Rightarrow> 'w word option" where
  "mod3 udivmod a b =
     (let s = sign_of b; b = negate_if s b; s = sign_of a; a = negate_if s a
      in map_option (\<lambda>(q, r). negate_if s r) (udivmod a b))"

definition divdi3 :: "64 word \<Rightarrow> 64 word \<Rightarrow> 64 word option" where "divdi3 = div3 udivmoddi4"
definition divti3 :: "128 word \<Rightarrow> 128 word \<Rightarrow> 128 word option" where "divti3 = div3 udivmodti4"
definition moddi3 :: "64 word \<Rightarrow> 64 word \<Rightarrow> 64 word option" where "moddi3 = mod3 udivmoddi4"
definition modti3 :: "128 word \<Rightarrow> 128 word \<Rightarrow> 128 word option" where "modti3 = mod3 udivmodti4"

definition divmoddi4 :: "64 word \<Rightarrow> 64 word \<Rightarrow> (64 word \<times> 64 word) option" where
  "divmoddi4 a b = map_option (\<lambda>d. (d, a - d * b)) (divdi3 a b)"

end
