(* ===== verification/Builtins_Div_Correct.thy ===== *)
theory Builtins_Div_Correct
  imports Builtins_Div
begin

text \<open>
  The division routines compute the quotient and the remainder: an invariant of the loop, the start values
  that each branch of the case distinction gives it, and the signed routines.
\<close>

subsection \<open>Words and numbers\<close>

lemma shift_in:
  assumes "unat (e :: 'a::len word) < 2"
  shows "unat (push_bit 1 x OR e) = (2 * unat x) mod 2 ^ LENGTH('a) + unat e"
    and "2 * unat x + unat e < 2 ^ LENGTH('a) \<Longrightarrow> unat (push_bit 1 x OR e) = 2 * unat x + unat e"
proof -
  have low: "\<not> bit e i" if "0 < i" for i
    using assms unat_small_bits [of e 1] that by simp
  have "push_bit 1 x OR e = push_bit 1 x + e"
    by (rule disjunctive_add_eq_or [symmetric], rule bit_eqI)
      (simp only: bit_and_iff bit_push_bit_iff bit_0_eq, use low in auto)
  moreover have u: "unat (push_bit 1 x) = (2 * unat x) mod 2 ^ LENGTH('a)"
    by (simp only: unsigned_push_bit_eq push_bit_eq_mult [where ?'a = nat] take_bit_eq_mod) (simp add: mult.commute)
  moreover have "(2 * unat x) mod 2 ^ LENGTH('a) + unat e < 2 ^ LENGTH('a)"
  proof -
    obtain l where l: "LENGTH('a) = Suc l"
      using len_gt_0 [where ?'a = 'a] by (metis Suc_pred')
    have "(2 * unat x) mod 2 ^ LENGTH('a) = 2 * (unat x mod 2 ^ l)"
      unfolding l power_Suc by (rule mult_mod_right [symmetric])
    moreover have "unat x mod 2 ^ l < 2 ^ l"
      by simp
    ultimately show ?thesis
      using assms unfolding l power_Suc by linarith
  qed
  ultimately show "unat (push_bit 1 x OR e) = (2 * unat x) mod 2 ^ LENGTH('a) + unat e"
    using unat_plus [of "push_bit 1 x" e] by simp
  then show "2 * unat x + unat e < 2 ^ LENGTH('a) \<Longrightarrow> unat (push_bit 1 x OR e) = 2 * unat x + unat e"
    by simp
qed

lemma sign_of_unat: "sign_of (x :: 'a::len word) = (if 2 ^ (LENGTH('a) - 1) \<le> unat x then - 1 else 0)"
proof -
  have "unat x < 2 ^ (LENGTH('a) - 1) \<longleftrightarrow> \<not> bit x (LENGTH('a) - 1)"
    unfolding unat_small_bits by (auto dest: bit_imp_le_length) (metis One_nat_def Suc_pred bit_imp_le_length le_antisym len_gt_0 less_Suc_eq_le)
  moreover have "sint x < 0 \<longleftrightarrow> bit x (LENGTH('a) - 1)"
    unfolding sint_sign using low_bound [of x] by auto
  ultimately show ?thesis
    by (auto simp: sign_of_eq)
qed

text \<open>The comparison of the code: the sign of \<open>d - r - 1\<close>.\<close>

lemma subtract_test:
  assumes "unat (r :: 'a::len word) < unat d \<Longrightarrow> unat d - unat r - 1 < 2 ^ (LENGTH('a) - 1)"
    and "unat d \<le> unat r \<Longrightarrow> unat r + 1 - unat d \<le> 2 ^ (LENGTH('a) - 1)"
  shows "sign_of (d - r - 1) = (if unat d \<le> unat r then - 1 else 0)"
proof (cases "unat d \<le> unat r")
  case True
  obtain l where l: "LENGTH('a) = Suc l"
    using len_gt_0 [where ?'a = 'a] by (metis Suc_pred')
  let ?k = "unat r + 1 - unat d"
  have k: "0 < ?k" "?k \<le> 2 ^ l"
    using True assms(2) by (simp_all add: l)
  then have "(of_nat (2 ^ LENGTH('a) - ?k) :: 'a word) = of_nat (2 ^ LENGTH('a)) - of_nat ?k"
    by (intro of_nat_diff) (simp add: l)
  also have "\<dots> = d - r - 1"
    using True by (simp add: of_nat_diff)
  finally have "unat (d - r - 1) = unat (of_nat (2 ^ LENGTH('a) - ?k) :: 'a word)"
    by simp
  also have "\<dots> = 2 ^ LENGTH('a) - ?k"
    using k(1) by (simp only: unat_of_nat) (rule mod_less, rule diff_less, simp_all)
  finally have "unat (d - r - 1) = 2 ^ LENGTH('a) - ?k" .
  then show ?thesis
    using True assms(2) by (simp add: sign_of_unat l)
next
  case False
  then have "d - r - 1 = of_nat (unat d - unat r - 1)"
    by (simp add: of_nat_diff)
  moreover have "unat d - unat r - 1 < 2 ^ LENGTH('a)"
    using unsigned_less [of d, where ?'a = nat] by linarith
  ultimately have "unat (d - r - 1) = unat d - unat r - 1"
    by (simp only: unat_of_nat mod_less)
  then show ?thesis
    using False assms(1) by (simp add: sign_of_unat)
qed



subsection \<open>The loop\<close>

text \<open>
  Dividing \<open>N\<close> by \<open>D\<close> with \<open>sr\<close> rounds left: \<open>X\<close> is the quotient of the upper bits of \<open>N\<close>, of which \<open>q\<close> holds all
  but the last bit below the rest of \<open>N\<close>, and \<open>carry\<close> the last bit.
\<close>

definition div_inv :: "nat \<Rightarrow> nat \<Rightarrow> nat \<Rightarrow> nat \<Rightarrow> 'a::len word \<Rightarrow> 'a word \<Rightarrow> 'a word \<Rightarrow> bool" where
  "div_inv N D X sr q r carry \<longleftrightarrow> sr \<le> LENGTH('a) \<and> unat r < D \<and> N div 2 ^ sr = D * X + unat r
     \<and> unat q = N mod 2 ^ sr * 2 ^ (LENGTH('a) - sr) + X div 2 \<and> X div 2 < 2 ^ (LENGTH('a) - sr) \<and> unat carry = X mod 2"

text \<open>The comparison needs a divisor below half of the range, or a single round with a large dividend.\<close>

definition div_range :: "'a::len itself \<Rightarrow> nat \<Rightarrow> nat \<Rightarrow> nat \<Rightarrow> bool" where
  "div_range t N D sr \<longleftrightarrow> N < 2 ^ LENGTH('a) \<and> (D < 2 ^ (LENGTH('a) - 1) \<or> sr \<le> 1 \<and> 2 ^ (LENGTH('a) - 1) \<le> N)"

lemma split_bit: "(N :: nat) div 2 ^ k = 2 * (N div 2 ^ Suc k) + N div 2 ^ k mod 2"
  "N mod 2 ^ Suc k = (N div 2 ^ k mod 2) * 2 ^ k + N mod 2 ^ k"
proof -
  have "N div 2 ^ Suc k = N div 2 ^ k div 2"
    by (simp only: power_Suc2 div_mult2_eq)
  then show "N div 2 ^ k = 2 * (N div 2 ^ Suc k) + N div 2 ^ k mod 2"
    by simp
  show "N mod 2 ^ Suc k = (N div 2 ^ k mod 2) * 2 ^ k + N mod 2 ^ k"
    by (simp only: power_Suc2 mod_mult2_eq) (simp add: mult.commute)
qed

text \<open>One round: the shift, then the subtraction.\<close>

lemma div_round:
  fixes q r c :: "'a::len word"
  assumes "div_inv N D X (Suc k) q r c" "div_range TYPE('a) N D (Suc k)" "D = unat d"
  defines "r1 \<equiv> push_bit 1 r OR drop_bit (LENGTH('a) - 1) q" and "q1 \<equiv> push_bit 1 q OR c"
  shows "unat r1 = 2 * unat r + N div 2 ^ k mod 2" "unat r1 \<le> N div 2 ^ k"
    and "unat q1 = N mod 2 ^ k * 2 ^ (LENGTH('a) - k) + X"
    and "N div 2 ^ k = D * (2 * X) + unat r1"
proof -
  let ?b = "N div 2 ^ k mod 2" and ?W = "LENGTH('a)"
  define rest where "rest = N mod 2 ^ k * 2 ^ (?W - Suc k) + X div 2"
  have sr: "Suc k \<le> ?W" and up: "N div 2 ^ Suc k = D * X + unat r" and Xh: "X div 2 < 2 ^ (?W - Suc k)"
    and c: "unat c = X mod 2"
    using assms(1) by (simp_all add: div_inv_def)
  have pw: "(2 :: nat) ^ (?W - 1) = 2 ^ k * 2 ^ (?W - Suc k)" "(2 :: nat) ^ (?W - k) = 2 * 2 ^ (?W - Suc k)"
    using sr by (simp_all add: Suc_diff_Suc Suc_le_eq flip: power_add power_Suc)
  have q: "unat q = ?b * 2 ^ (?W - 1) + rest"
    using assms(1) unfolding div_inv_def rest_def pw by (simp only: split_bit(2) [of N k]) (simp add: algebra_simps)
  have "N mod 2 ^ k * 2 ^ (?W - Suc k) + 2 ^ (?W - Suc k) \<le> 2 ^ (?W - 1)"
    unfolding pw using mult_le_mono1 [of "N mod 2 ^ k + 1" "2 ^ k" "2 ^ (?W - Suc k)"] by (simp add: Suc_le_eq)
  then have rest: "rest < 2 ^ (?W - 1)"
    using Xh unfolding rest_def by linarith
  have top: "unat (drop_bit (?W - 1) q) = ?b"
    using rest by (simp add: unat_high_digit q)
  have N: "N < 2 ^ ?W"
    using assms(2) by (simp add: div_range_def)
  have le: "2 * unat r + ?b \<le> N div 2 ^ k"
    using split_bit(1) [of N k] up by simp
  also have "\<dots> \<le> N"
    by simp
  finally have "2 * unat r + ?b < 2 ^ ?W"
    using N by linarith
  then show r1: "unat r1 = 2 * unat r + ?b"
    unfolding r1_def using shift_in(2) [of "drop_bit (?W - 1) q" r] top by simp
  then show "unat r1 \<le> N div 2 ^ k"
    using le by simp
  show "N div 2 ^ k = D * (2 * X) + unat r1"
    using split_bit(1) [of N k] up r1 by (simp add: algebra_simps)
  have "(2 * unat q) mod 2 ^ ?W = 2 * rest"
  proof -
    have "(2 :: nat) ^ ?W = 2 * 2 ^ (?W - 1)"
      using sr by (simp add: flip: power_Suc)
    then have "2 * unat q = 2 * rest + ?b * 2 ^ ?W" "2 * rest < 2 ^ ?W"
      using rest by (simp_all add: q)
    then show ?thesis
      by simp
  qed
  then show "unat q1 = N mod 2 ^ k * 2 ^ (?W - k) + X"
    unfolding q1_def using shift_in(1) [of c q] c by (simp add: rest_def pw)
qed

text \<open>The round keeps the invariant; at its end the quotient and the remainder are there.\<close>

lemma div_step:
  fixes q r c d :: "'a::len word"
  assumes "div_inv N D X (Suc k) q r c" "div_range TYPE('a) N D (Suc k)" "D = unat d"
  defines "r1 \<equiv> push_bit 1 r OR drop_bit (LENGTH('a) - 1) q" and "q1 \<equiv> push_bit 1 q OR c"
  defines "s \<equiv> sign_of (d - r1 - 1)"
  shows "div_inv N D (if unat d \<le> unat r1 then 2 * X + 1 else 2 * X) k q1 (r1 - (d AND s)) (s AND 1)"
    and "div_range TYPE('a) N D k" and "s AND 1 = (if unat d \<le> unat r1 then 1 else 0)"
proof -
  let ?W = "LENGTH('a)"
  note round = div_round [OF assms(1, 2, 3), folded r1_def q1_def]
  have sr: "Suc k \<le> ?W" and r: "unat r < D" and Xh: "X div 2 < 2 ^ (?W - Suc k)"
    using assms(1) by (simp_all add: div_inv_def)
  have b: "N div 2 ^ k mod 2 < 2"
    by simp
  have lt: "unat r1 < 2 * D"
    using round(1) r b by linarith
  have s: "s = (if unat d \<le> unat r1 then - 1 else 0)"
    unfolding s_def
  proof (rule subtract_test)
    have W: "unat x < 2 * 2 ^ (?W - 1)" for x :: "'a word"
      using unsigned_less [of x, where ?'a = nat] sr by (simp flip: power_Suc)
    have large: "2 ^ (?W - 1) \<le> unat r1" if "\<not> D < 2 ^ (?W - 1)"
    proof -
      have N: "2 ^ (?W - 1) \<le> N" "k = 0" "N < 2 * 2 ^ (?W - 1)"
        using assms(2) that sr by (simp_all add: div_range_def flip: power_Suc)
      then have "N = D * (2 * X) + unat r1"
        using round(4) by simp
      moreover have "X = 0"
      proof (rule ccontr)
        assume "X \<noteq> 0"
        then have "D * 2 \<le> D * (2 * X)"
          by simp
        then show False
          using calculation N that by linarith
      qed
      ultimately show ?thesis
        using N by simp
    qed
    show "unat r1 < unat d \<Longrightarrow> unat d - unat r1 - 1 < 2 ^ (?W - 1)"
      using large W [of d] assms(3) by (cases "D < 2 ^ (?W - 1)") linarith+
    show "unat d \<le> unat r1 \<Longrightarrow> unat r1 + 1 - unat d \<le> 2 ^ (?W - 1)"
      using W [of r1] lt assms(3) by (cases "D < 2 ^ (?W - 1)") linarith+
  qed
  show "s AND 1 = (if unat d \<le> unat r1 then 1 else 0)"
    by (simp add: s)
  show "div_range TYPE('a) N D k"
    using assms(2) by (auto simp: div_range_def)
  show "div_inv N D (if unat d \<le> unat r1 then 2 * X + 1 else 2 * X) k q1 (r1 - (d AND s)) (s AND 1)"
  proof -
    have "X < 2 ^ (?W - k)"
      using Xh sr by (simp add: Suc_diff_Suc Suc_le_eq less_mult_imp_div_less flip: power_Suc) (metis Suc_diff_Suc Suc_le_lessD div_less_iff_less_mult mult.commute power_Suc sr zero_less_numeral)
    moreover have "unat (r1 - (d AND s)) = (if unat d \<le> unat r1 then unat r1 - D else unat r1)"
      using assms(3) by (simp add: s unat_sub_if')
    ultimately show ?thesis
      using round(3, 4) lt sr assms(3) by (auto simp: div_inv_def s)
  qed
qed

lemma div_loop_ok:
  "div_inv N D X sr q r c \<Longrightarrow> div_range TYPE('a) N D sr \<Longrightarrow> D = unat (d :: 'a::len word)
    \<Longrightarrow> \<exists>q1 r1 c1. div_loop d sr q r c = (q1, r1, c1) \<and> unat r1 = N mod D \<and> push_bit 1 q1 OR c1 = of_nat (N div D)"
proof (induction sr arbitrary: X q r c)
  case 0
  then have "unat r < D" and N: "N = D * X + unat r" and q: "unat q = X div 2" and c: "unat c = X mod 2"
    by (simp_all add: div_inv_def)
  then have "N div D = X" "N mod D = unat r"
    by simp_all
  moreover have "X < 2 ^ LENGTH('a)"
  proof -
    have "X \<le> N"
      using N \<open>unat r < D\<close> by (cases D) simp_all
    then show ?thesis
      using 0(2) by (simp add: div_range_def)
  qed
  then have "unat (push_bit 1 q OR c) = X"
    using shift_in(2) [of c q] q c by simp
  then have "push_bit 1 q OR c = of_nat X"
    by (metis of_nat_unat ucast_id)
  ultimately show ?case
    by simp
next
  case (Suc k)
  note step = div_step [OF Suc.prems]
  show ?case
    using Suc.IH [OF step(1, 2) Suc.prems(3)] by (simp add: sign_of_def Let_def)
qed



subsection \<open>Start values\<close>

lemma div_init:
  assumes "S \<le> LENGTH('a)" "unat (drop_bit S n) < D"
  shows "div_inv (unat n) D 0 S (push_bit (LENGTH('a) - S) n) (drop_bit S (n :: 'a::len word)) 0"
proof -
  have "unat (push_bit (LENGTH('a) - S) n) = (unat n * 2 ^ (LENGTH('a) - S)) mod 2 ^ LENGTH('a)"
    by (simp only: unsigned_push_bit_eq push_bit_eq_mult [where ?'a = nat] take_bit_eq_mod)
  also have "(2 :: nat) ^ LENGTH('a) = 2 ^ S * 2 ^ (LENGTH('a) - S)"
    using assms(1) by (simp flip: power_add)
  finally have "unat (push_bit (LENGTH('a) - S) n) = unat n mod 2 ^ S * 2 ^ (LENGTH('a) - S)"
    by (simp add: mod_mult_mult2)
  then show ?thesis
    using assms by (simp add: div_inv_def unat_high_digit)
qed

text \<open>The number of rounds: the difference of the numbers of digits, plus 1.\<close>

lemma div_rounds:
  assumes "D \<noteq> 0" "nbits D \<le> nbits N" "S = nbits N - nbits D + 1"
  shows "N div 2 ^ S < D"
proof -
  have "nbits (N div 2 ^ S) \<le> nbits D - 1"
    unfolding nbits_div using assms(2, 3) by linarith
  then have "N div 2 ^ S < 2 ^ (nbits D - 1)"
    by (simp only: nbits_le)
  then show ?thesis
    using nbits_bounds(1) [OF assms(1)] by (rule less_le_trans)
qed

lemma div_rounds_range:
  assumes "N < 2 ^ LENGTH('a::len)" "nbits D \<le> nbits N" "S = nbits N - nbits D + 1"
  shows "div_range TYPE('a) N D S"
proof (cases "D < 2 ^ (LENGTH('a) - 1)")
  case False
  then have "LENGTH('a) \<le> nbits D"
    using nbits_le [of D "LENGTH('a) - 1"] by linarith
  moreover have "nbits N \<le> LENGTH('a)"
    using assms(1) by (simp add: nbits_le)
  ultimately have "S = 1" "\<not> nbits N \<le> LENGTH('a) - 1"
    using assms(2, 3) len_gt_0 [where ?'a = 'a] by linarith+
  then show ?thesis
    using assms(1) by (simp only: div_range_def nbits_le not_less le_refl simp_thms)
qed (simp add: div_range_def assms(1))

lemma nbits_mono: "m \<le> n \<Longrightarrow> nbits m \<le> nbits n"
  using nbits_le [of m "nbits n"] nbits_bounds(2) [of n] by simp

text \<open>A difference of counts of leading zeros in unsigned arithmetic.\<close>

lemma clz_difference:
  fixes n d :: "'a::len word"
  assumes "LENGTH('a) < 2 ^ 30"
  shows "unat (of_nat (builtin_clz d) - of_nat (builtin_clz n) :: 32 word)
    = (if nbits (unat d) \<le> nbits (unat n) then nbits (unat n) - nbits (unat d)
       else 2 ^ 32 - (nbits (unat d) - nbits (unat n)))"
proof -
  have small: "unat (of_nat k :: 32 word) = k" if "k \<le> LENGTH('a)" for k
    using that assms by (simp only: unat_of_nat) simp
  have le: "nbits (unat n) \<le> LENGTH('a)" "nbits (unat d) \<le> LENGTH('a)"
    by (rule nbits_unat)+
  show ?thesis
    unfolding unat_sub_if' using le by (simp add: small builtin_clz_def del: of_nat_diff) linarith
qed

lemma udivsi3_ok: "udivsi3 n d = n div d"
proof -
  let ?sr = "of_nat (builtin_clz d) - of_nat (builtin_clz n) :: 32 word"
  let ?N = "unat n" and ?D = "unat d"
  consider "d = 0" | "d \<noteq> 0" "n = 0" | (pos) "d \<noteq> 0" "n \<noteq> 0"
    by blast
  then show ?thesis
  proof cases
    case pos
    have bits: "nbits ?D \<le> 32" "nbits ?N \<le> 32" "0 < nbits ?D"
      using nbits_unat [of d] nbits_unat [of n] pos by (simp_all add: nbits_pos)
    note sr = clz_difference [of d n, simplified]
    consider (less) "nbits ?N < nbits ?D" | (one) "nbits ?N - nbits ?D = 31" | (loop) "nbits ?D \<le> nbits ?N" "nbits ?N - nbits ?D < 31"
      using bits by linarith
    then show ?thesis
    proof cases
      case less
      then have "31 < ?sr"
        using sr bits by (simp add: word_less_nat_alt)
      moreover have "n < d"
        unfolding word_less_nat_alt using less nbits_mono [of ?D ?N] by linarith
      ultimately show ?thesis
        using pos by (simp add: udivsi3_def div_word_less)
    next
      case one
      then have "nbits ?D = 1"
        using bits by linarith
      then have "?D = 1"
        using nbits_bounds [of ?D] pos by simp
      then have "d = 1"
        by (metis of_nat_1 of_nat_unat ucast_id)
      moreover have "?sr = 31"
        using sr one bits by (simp add: word_eq_iff_unsigned [where ?'a = nat])
      ultimately show ?thesis
        using pos by (simp add: udivsi3_def)
    next
      case loop
      define S where "S = nbits ?N - nbits ?D + 1"
      have us: "unat ?sr = nbits ?N - nbits ?D"
        using sr loop by simp
      then have S: "unat (?sr + 1) = S" "S \<le> 31"
        using loop(2) unat_plus [of ?sr 1] by (simp_all add: S_def)
      then have S': "unat (32 - (?sr + 1)) = 32 - S"
        unfolding unat_sub_if' [of 32 "?sr + 1"] by simp
      have "div_inv ?N ?D 0 S (push_bit (32 - S) n) (drop_bit S n) 0"
        using div_init [of S n ?D] div_rounds [of ?D ?N S] loop(1) S(2) pos by (simp add: S_def unat_high_digit)
      moreover have "div_range TYPE(32) ?N ?D S"
        using div_rounds_range [where ?'a = 32, of ?N ?D S] loop(1) unsigned_less [of n, where ?'a = nat] by (simp add: S_def)
      ultimately obtain q1 r1 c1 where "div_loop d S (push_bit (32 - S) n) (drop_bit S n) 0 = (q1, r1, c1)"
        "push_bit 1 q1 OR c1 = of_nat (?N div ?D)"
        using div_loop_ok [of ?N ?D 0 S "push_bit (32 - S) n" "drop_bit S n" 0 d] by auto
      moreover have "\<not> 31 < ?sr" "?sr \<noteq> 31"
        using us loop(2) by (auto simp: word_less_nat_alt)
      moreover have "of_nat (?N div ?D) = n div d"
        by (simp flip: unat_div)
      ultimately show ?thesis
        using pos unfolding udivsi3_def Let_def S S' by simp
    qed
  qed (simp_all add: udivsi3_def)
qed



subsection \<open>Two words: the loop\<close>

lemma shift_halves:
  assumes tw: "twice TYPE('h::len) TYPE('w::len)"
  shows "all_of (push_bit 1 (s_high x) OR drop_bit (LENGTH('h) - 1) (s_low x)) (push_bit 1 (s_low x) OR e)
    = push_bit 1 (x :: 'w word) OR ucast (e :: 'h word)"
proof (rule bit_eqI)
  fix n
  assume "possible_bit TYPE('w word) n"
  then have n: "n < LENGTH('w)"
    by simp
  have W: "LENGTH('w) = 2 * LENGTH('h)"
    using tw by (simp add: twice_def)
  note bits = bit_all_of [OF tw] bit_or_iff bit_push_bit_iff bit_drop_bit_eq bit_s_high bit_s_low bit_ucast_iff comp_def
  consider "n < LENGTH('h)" | "n = LENGTH('h)" | m where "n = LENGTH('h) + Suc m"
    by (metis less_imp_Suc_add linorder_less_linear add_Suc_right)
  then show "bit (all_of (push_bit 1 (s_high x) OR drop_bit (LENGTH('h) - 1) (s_low x)) (push_bit 1 (s_low x) OR e) :: 'w word) n
      \<longleftrightarrow> bit (push_bit 1 x OR ucast e) n"
    using n W by cases (auto simp: bits Suc_le_eq simp del: push_bit_Suc dest: bit_imp_le_length)
qed

lemma top_half: "twice TYPE('h::len) TYPE('w::len)
    \<Longrightarrow> ucast (drop_bit (LENGTH('h) - 1) (s_high q :: 'h word)) = drop_bit (LENGTH('w) - 1) (q :: 'w word)"
  by (rule bit_eqI) (auto simp: bit_simps bit_s_high twice_def mult_2 add.assoc dest: bit_imp_le_length)

lemma ucast_bit_mask: "32 \<le> LENGTH('w::len) \<Longrightarrow> (ucast (ucast ((s :: 'w word) AND 1) :: 32 word) :: 'w word) = s AND 1"
  by (rule bit_eqI) (auto simp: bit_simps)

lemma ucast_ucast_up:
  "32 \<le> LENGTH('h::len) \<Longrightarrow> (ucast (ucast (c :: 32 word) :: 'h word) :: 'w::len word) = ucast c"
  by (rule bit_eqI) (auto simp: bit_simps dest: bit_imp_le_length)

text \<open>The loop on halves is the loop on whole words.\<close>

lemma udivmod_loop_eq:
  assumes tw: "twice TYPE('h::len) TYPE('w::len)" and big: "32 \<le> LENGTH('h)"
  shows "(case udivmod_loop TYPE('h) (d :: 'w word) sr q r c of (q1, r1, c1) \<Rightarrow> (q1, r1, ucast c1)) = div_loop d sr q r (ucast c)"
proof (induction sr arbitrary: q r c)
  case (Suc sr)
  have "32 \<le> LENGTH('w)"
    using tw big by (simp add: twice_def)
  note this [THEN ucast_bit_mask]
  then show ?case
    by (simp only: udivmod_loop.simps div_loop.simps Let_def shift_halves [OF tw] top_half [OF tw] ucast_ucast_up [OF big] Suc.IH)
qed simp


subsection \<open>Two words: the case distinction\<close>

text \<open>A number that has no bit in common with its predecessor is a power of two.\<close>

lemma power_of_two: "n \<noteq> 0 \<Longrightarrow> n AND (n - 1) = 0 \<Longrightarrow> n = 2 ^ ntz n" for n :: nat
proof (induction n rule: ntz.induct)
  case (1 n)
  show ?case
  proof (cases "odd n")
    case True
    then obtain m where m: "n = 2 * m + 1"
      by (auto elim: oddE)
    then have "n AND (n - 1) = 2 * m"
      by (subst and_nat_rec) simp
    then have "m = 0"
      using 1(3) by simp
    then show ?thesis
      using m by (simp add: ntz.simps)
  next
    case False
    then obtain m where m: "n = 2 * m" "m \<noteq> 0"
      using 1(2) by (auto elim: evenE)
    then have "(n - 1) div 2 = m - 1"
      by linarith
    then have "n AND (n - 1) = 2 * (m AND (m - 1))"
      using m by (subst and_nat_rec) simp
    then have "m AND (m - 1) = 0"
      using 1(3) by simp
    then have "m = 2 ^ ntz m"
      using 1(1) [of] m False by simp
    then show ?thesis
      using m False by (subst ntz.simps) (simp add: 1(2))
  qed
qed

lemma power_of_two_word:
  assumes "(x :: 'a::len word) \<noteq> 0" "x AND (x - 1) = 0"
  shows "unat x = 2 ^ builtin_ctz x"
proof -
  have "unat x AND (unat x - 1) = unat (x AND (x - 1))"
    by (simp only: unsigned_and_eq unat_minus_one [OF assms(1)])
  then have "unat x AND (unat x - 1) = 0"
    using assms(2) by simp
  then show ?thesis
    unfolding builtin_ctz_def using assms(1) by (intro power_of_two) simp_all
qed

lemma and_pred:
  assumes "unat (d :: 'a::len word) = 2 ^ k"
  shows "unat (n AND (d - 1)) = unat n mod 2 ^ k"
proof -
  have "d \<noteq> 0"
    using assms by auto
  from unat_minus_one [OF this] have "unat (n AND (d - 1)) = unat n AND (2 ^ k - 1)"
    by (simp only: unsigned_and_eq assms)
  also have "\<dots> = take_bit k (unat n)"
    by (simp add: take_bit_eq_mask mask_eq_exp_minus_1)
  finally show ?thesis
    by (simp add: take_bit_eq_mod)
qed

text \<open>Shifts of the whole word, from its halves.\<close>

lemma shift_parts:
  fixes n :: "'w::len word"
  assumes tw: "twice TYPE('h::len) TYPE('w)"
  defines "nh \<equiv> s_high n :: 'h word" and "nl \<equiv> s_low n :: 'h word"
  shows "S \<le> LENGTH('h) \<Longrightarrow> all_of (push_bit (LENGTH('h) - S) nl) 0 = push_bit (LENGTH('w) - S) n"
    and "S \<le> LENGTH('h) \<Longrightarrow> all_of (drop_bit S nh) (push_bit (LENGTH('h) - S) nh OR drop_bit S nl) = drop_bit S n"
    and "LENGTH('h) \<le> S \<Longrightarrow> S \<le> LENGTH('w) \<Longrightarrow>
      all_of (push_bit (LENGTH('w) - S) nh OR drop_bit (S - LENGTH('h)) nl) (push_bit (LENGTH('w) - S) nl) = push_bit (LENGTH('w) - S) n"
    and "LENGTH('h) \<le> S \<Longrightarrow> all_of 0 (drop_bit (S - LENGTH('h)) nh) = drop_bit S n"
proof -
  have W: "LENGTH('w) = LENGTH('h) + LENGTH('h)"
    using tw by (simp add: twice_def)
  note bits = bit_all_of [OF tw] bit_or_iff bit_push_bit_iff bit_drop_bit_eq bit_s_high bit_s_low comp_def bit_0_eq
  {
    assume "S \<le> LENGTH('h)"
    then obtain i where i: "LENGTH('h) = S + i"
      by (metis le_add_diff_inverse)
    show "all_of (push_bit (LENGTH('h) - S) nl) 0 = push_bit (LENGTH('w) - S) n"
      unfolding nl_def by (rule bit_eqI) (auto simp: bits W i add_ac)
    show "all_of (drop_bit S nh) (push_bit (LENGTH('h) - S) nh OR drop_bit S nl) = drop_bit S n"
      unfolding nl_def nh_def by (rule bit_eqI) (auto simp: bits W i add_ac dest: bit_imp_le_length)
  next
    assume "LENGTH('h) \<le> S"
    then obtain i where i: "S = LENGTH('h) + i"
      by (metis le_add_diff_inverse)
    show "all_of 0 (drop_bit (S - LENGTH('h)) nh) = drop_bit S n"
      unfolding nh_def by (rule bit_eqI) (auto simp: bits W i add_ac dest: bit_imp_le_length)
    assume "S \<le> LENGTH('w)"
    then obtain j where j: "LENGTH('h) = i + j"
      using i W by (metis add_le_cancel_left le_add_diff_inverse)
    show "all_of (push_bit (LENGTH('w) - S) nh OR drop_bit (S - LENGTH('h)) nl) (push_bit (LENGTH('w) - S) nl) = push_bit (LENGTH('w) - S) n"
      unfolding nl_def nh_def by (rule bit_eqI) (auto simp: bits W i j add_ac dest: bit_imp_le_length)
  }
qed

text \<open>What a branch has to deliver.\<close>

definition start_ok :: "'w::len word \<Rightarrow> 'w word \<Rightarrow> 'w word div_start \<Rightarrow> bool" where
  "start_ok n d st =
     (case st of
        Div_undef \<Rightarrow> False
      | Div_done q r \<Rightarrow> q = n div d \<and> r = n mod d
      | Div_loop sr q r \<Rightarrow>
          nbits (unat d) \<le> nbits (unat n) \<and> unat sr = nbits (unat n) - nbits (unat d) + 1 \<and> unat sr \<le> LENGTH('w)
          \<and> q = push_bit (LENGTH('w) - unat sr) n \<and> r = drop_bit (unat sr) n)"

lemma start_done: "unat q = unat n div unat d \<Longrightarrow> unat r = unat n mod unat d \<Longrightarrow> start_ok n d (Div_done q r)"
  by (simp add: start_ok_def word_eq_iff_unsigned [where ?'a = nat] unat_div unat_mod)

lemma start_smaller: "unat n < unat d \<Longrightarrow> start_ok n d (Div_done 0 n)"
  by (rule start_done) simp_all

lemma unat_up: "twice TYPE('h::len) TYPE('w::len) \<Longrightarrow> unat (ucast (x :: 'h word) :: 'w word) = unat x"
  by (simp add: unsigned_ucast_eq twice_def take_bit_nat_eq_self_iff less_le_trans [OF unsigned_less])

lemma up_low:
  assumes "twice TYPE('h::len) TYPE('w::len)" "(s_high (n :: 'w word) :: 'h word) = 0"
  shows "(ucast (s_low n :: 'h word) :: 'w word) = n"
  by (rule unsigned_word_eqI [where ?'a = nat]) (simp add: unat_up [OF assms(1)] unat_halves [OF assms(1), of n] assms(2))

lemma nbits_two:
  assumes "twice TYPE('h::len) TYPE('w::len)" "(s_high (n :: 'w word) :: 'h word) \<noteq> 0"
  shows "nbits (unat n) = nbits (unat (s_high n :: 'h word)) + LENGTH('h)"
proof -
  have "nbits (unat (s_high n :: 'h word)) = nbits (unat n) - LENGTH('h)"
    using nbits_div [of "unat n" "LENGTH('h)"] unat_halves [OF assms(1), of n] by simp
  moreover have "0 < nbits (unat (s_high n :: 'h word))"
    using assms(2) by (simp add: nbits_pos)
  ultimately show ?thesis
    by linarith
qed

lemma small_counts:
  assumes "LENGTH('h::len) < 2 ^ 29" "k \<le> 2 * LENGTH('h)"
  shows "unat (of_nat k :: 32 word) = k"
  using assms by (simp only: unat_of_nat) simp

text \<open>The branch for two divisors of two words: \<open>lim\<close> is the largest difference that leads to the loop.\<close>

lemma start_high:
  fixes n d :: "'w::len word"
  assumes tw: "twice TYPE('h::len) TYPE('w)" and H: "LENGTH('h) < 2 ^ 29" "2 < LENGTH('h)"
    and nz: "(s_high n :: 'h word) \<noteq> 0" "(s_high d :: 'h word) \<noteq> 0"
    and lim: "unat lim < LENGTH('h)" "nbits (unat (s_high n :: 'h word)) - nbits (unat (s_high d :: 'h word)) \<le> unat lim"
  defines "sr \<equiv> of_nat (builtin_clz (s_high d :: 'h word)) - of_nat (builtin_clz (s_high n :: 'h word)) :: 32 word"
  shows "lim < sr \<Longrightarrow> start_ok n d (Div_done 0 n)"
    and "\<not> lim < sr \<Longrightarrow> unat (sr + 1) \<le> LENGTH('h)"
    and "\<not> lim < sr \<Longrightarrow> start_ok n d (Div_loop (sr + 1) (push_bit (LENGTH('w) - unat (sr + 1)) n) (drop_bit (unat (sr + 1)) n))"
proof -
  let ?nh = "s_high n :: 'h word" and ?dh = "s_high d :: 'h word"
  have W: "LENGTH('w) = 2 * LENGTH('h)"
    using tw by (simp add: twice_def)
  have le: "nbits (unat ?nh) \<le> LENGTH('h)" "nbits (unat ?dh) \<le> LENGTH('h)"
    by (rule nbits_unat)+
  have sr: "unat sr = (if nbits (unat ?dh) \<le> nbits (unat ?nh) then nbits (unat ?nh) - nbits (unat ?dh)
       else 2 ^ 32 - (nbits (unat ?dh) - nbits (unat ?nh)))"
    unfolding sr_def using H by (intro clz_difference) simp
  note two = nbits_two [OF tw nz(1)] nbits_two [OF tw nz(2)]
  {
    assume "lim < sr"
    then have "nbits (unat n) < nbits (unat d)"
      using sr lim two by (auto simp: word_less_nat_alt split: if_splits)
    then have "unat n < unat d"
      using nbits_mono [of "unat d" "unat n"] by linarith
    then show "start_ok n d (Div_done 0 n)"
      by (rule start_smaller)
  next
    assume "\<not> lim < sr"
    then have d: "nbits (unat ?dh) \<le> nbits (unat ?nh)"
      using sr lim le H by (auto simp: word_less_nat_alt split: if_splits)
    then have "unat sr = nbits (unat ?nh) - nbits (unat ?dh)"
      using sr by simp
    then have sr1: "unat (sr + 1) = nbits (unat ?nh) - nbits (unat ?dh) + 1"
      using unat_plus [of sr 1] le H by simp
    then show "unat (sr + 1) \<le> LENGTH('h)"
      using lim by simp
    then show "start_ok n d (Div_loop (sr + 1) (push_bit (LENGTH('w) - unat (sr + 1)) n) (drop_bit (unat (sr + 1)) n))"
      using d two sr1 W by (simp add: start_ok_def)
  }
qed

lemma start_low:
  fixes n d :: "'w::len word"
  assumes tw: "twice TYPE('h::len) TYPE('w)" and H: "LENGTH('h) < 2 ^ 29"
    and nz: "(s_high n :: 'h word) \<noteq> 0" "(s_high d :: 'h word) = 0" "1 < nbits (unat (s_low d :: 'h word))"
  defines "sr \<equiv> 1 + of_nat LENGTH('h) + of_nat (builtin_clz (s_low d :: 'h word)) - of_nat (builtin_clz (s_high n :: 'h word)) :: 32 word"
  shows "unat sr < LENGTH('w)"
    and "start_ok n d (Div_loop sr (push_bit (LENGTH('w) - unat sr) n) (drop_bit (unat sr) n))"
proof -
  let ?nh = "s_high n :: 'h word" and ?dl = "s_low d :: 'h word"
  let ?S = "1 + LENGTH('h) + builtin_clz ?dl - builtin_clz ?nh"
  have W: "LENGTH('w) = 2 * LENGTH('h)"
    using tw by (simp add: twice_def)
  have le: "nbits (unat ?nh) \<le> LENGTH('h)" "nbits (unat ?dl) \<le> LENGTH('h)" "0 < nbits (unat ?nh)"
    using nz(1) by (simp_all add: nbits_unat nbits_pos)
  have d: "unat d = unat ?dl"
    using unat_halves [OF tw, of d] nz(2) by simp
  have "builtin_clz ?nh \<le> 1 + LENGTH('h) + builtin_clz ?dl"
    by (simp add: builtin_clz_def)
  then have "sr = of_nat ?S"
    unfolding sr_def by (subst of_nat_diff) simp_all
  moreover have S: "?S = nbits (unat n) - nbits (unat d) + 1" "?S < LENGTH('w)"
    using le nz(3) by (simp_all add: builtin_clz_def nbits_two [OF tw nz(1)] d W)
  ultimately have sr: "unat sr = ?S"
    using H W by (simp only:) (rule small_counts [OF H], simp)
  then show "unat sr < LENGTH('w)"
    using S by simp
  then show "start_ok n d (Div_loop sr (push_bit (LENGTH('w) - unat sr) n) (drop_bit (unat sr) n))"
    using S le sr by (simp add: start_ok_def d nbits_two [OF tw nz(1)])
qed

lemma not_power_nbits:
  assumes "(d :: 'h::len word) \<noteq> 0" "d AND (d - 1) \<noteq> 0"
  shows "1 < nbits (unat d)"
proof (rule ccontr)
  assume "\<not> 1 < nbits (unat d)"
  then have "unat d < 2"
    using nbits_le [of "unat d" 1] by simp
  then have "unat d = 1"
    using assms(1) by (simp add: less_2_cases_iff)
  then have "d = 1"
    by (metis of_nat_1 of_nat_unat ucast_id)
  then show False
    using assms(2) by simp
qed

text \<open>The remaining branches end at once.\<close>

lemma start_power_high:
  fixes n d :: "'w::len word"
  assumes tw: "twice TYPE('h::len) TYPE('w)" and d: "(s_high d :: 'h word) \<noteq> 0" "(s_low d :: 'h word) = 0"
    "(s_high d :: 'h word) AND (s_high d - 1) = 0"
  shows "start_ok n d (Div_done (ucast (drop_bit (builtin_ctz (s_high d :: 'h word)) (s_high n :: 'h word)))
    (all_of (s_high n AND (s_high d - 1 :: 'h word)) (s_low n)))"
proof (rule start_done)
  let ?k = "builtin_ctz (s_high d :: 'h word)" and ?B = "2 ^ LENGTH('h) :: nat" and ?nh = "s_high n :: 'h word" and ?nl = "s_low n :: 'h word"
  have p: "unat (s_high d :: 'h word) = 2 ^ ?k"
    using d by (intro power_of_two_word)
  have D: "unat d = ?B * 2 ^ ?k"
    using unat_halves [OF tw, of d] d(2) p by (simp add: mult.commute)
  have N: "unat n div ?B = unat ?nh" "unat n mod ?B = unat ?nl"
    using unat_halves [OF tw, of n] by simp_all
  show "unat (ucast (drop_bit ?k ?nh) :: 'w word) = unat n div unat d"
    by (simp only: unat_up [OF tw] unat_high_digit D div_mult2_eq N)
  show "unat (all_of (?nh AND (s_high d - 1)) ?nl :: 'w word) = unat n mod unat d"
    by (simp only: unat_all_of [OF tw] and_pred [OF p] D mod_mult2_eq N mult.commute)
qed

lemma start_power_low:
  fixes n d :: "'w::len word"
  assumes tw: "twice TYPE('h::len) TYPE('w)" and d: "(s_high d :: 'h word) = 0" "(s_low d :: 'h word) \<noteq> 0"
    "(s_low d :: 'h word) AND (s_low d - 1) = 0"
  shows "start_ok n d (Div_done (drop_bit (builtin_ctz (s_low d :: 'h word)) n) (ucast (s_low n AND (s_low d - 1 :: 'h word))))"
proof (rule start_done)
  let ?k = "builtin_ctz (s_low d :: 'h word)" and ?B = "2 ^ LENGTH('h) :: nat" and ?nl = "s_low n :: 'h word"
  have p: "unat (s_low d :: 'h word) = 2 ^ ?k"
    using d by (intro power_of_two_word)
  have D: "unat d = 2 ^ ?k"
    using unat_halves [OF tw, of d] d(1) p by simp
  have "?k < LENGTH('h)"
    using d(2) by (rule ctz_bound)
  then have "(2 :: nat) ^ ?k dvd ?B"
    by (intro le_imp_power_dvd) simp
  then have "unat n mod 2 ^ ?k = unat ?nl mod 2 ^ ?k"
    using unat_halves [OF tw, of n] by (metis dvd_mult mod_add_left_eq mod_0_imp_dvd dvd_imp_mod_0 add_0)
  then show "unat (ucast (?nl AND (s_low d - 1)) :: 'w word) = unat n mod unat d"
    by (simp only: unat_up [OF tw] and_pred [OF p] D)
  show "unat (drop_bit ?k n) = unat n div unat d"
    by (simp only: unat_high_digit D)
qed

lemma start_low_zero:
  fixes n d :: "'w::len word"
  assumes tw: "twice TYPE('h::len) TYPE('w)" and "(s_low n :: 'h word) = 0" "(s_low d :: 'h word) = 0"
  shows "start_ok n d (Div_done (ucast (s_high n div s_high d :: 'h word)) (all_of (s_high n mod s_high d :: 'h word) 0))"
proof (rule start_done)
  show "unat (ucast (s_high n div s_high d :: 'h word) :: 'w word) = unat n div unat d"
    "unat (all_of (s_high n mod s_high d :: 'h word) 0 :: 'w word) = unat n mod unat d"
    using unat_halves [OF tw, of n] unat_halves [OF tw, of d] assms(2, 3)
    by (simp_all add: unat_up [OF tw] unat_all_of [OF tw] unat_div unat_mod mod_mult_mult2)
qed

text \<open>The word arithmetic of the branches: the counts fit in an unsigned, and the shifts by one word.\<close>

lemma word_counts:
  assumes "twice TYPE('h::len) TYPE('w::len)" "LENGTH('h) < 2 ^ 29"
  shows "unat (of_nat LENGTH('h) :: 32 word) = LENGTH('h)"
    and "unat s \<le> LENGTH('h) \<Longrightarrow> unat (of_nat LENGTH('h) - s :: 32 word) = LENGTH('h) - unat s"
    and "LENGTH('h) \<le> unat s \<Longrightarrow> unat (s - of_nat LENGTH('h) :: 32 word) = unat s - LENGTH('h)"
    and "unat s \<le> LENGTH('w) \<Longrightarrow> unat (of_nat LENGTH('w) - s :: 32 word) = LENGTH('w) - unat s"
proof -
  have "unat (of_nat LENGTH('h) :: 32 word) = LENGTH('h)" "unat (of_nat LENGTH('w) :: 32 word) = LENGTH('w)"
    using small_counts [OF assms(2), of "LENGTH('h)"] small_counts [OF assms(2), of "LENGTH('w)"] assms(1)
    by (simp_all add: twice_def)
  then show "unat (of_nat LENGTH('h) :: 32 word) = LENGTH('h)"
    and "unat s \<le> LENGTH('h) \<Longrightarrow> unat (of_nat LENGTH('h) - s :: 32 word) = LENGTH('h) - unat s"
    and "LENGTH('h) \<le> unat s \<Longrightarrow> unat (s - of_nat LENGTH('h) :: 32 word) = unat s - LENGTH('h)"
    and "unat s \<le> LENGTH('w) \<Longrightarrow> unat (of_nat LENGTH('w) - s :: 32 word) = LENGTH('w) - unat s"
    by (simp_all add: unat_sub_if')
qed

lemma shift_one_word:
  fixes n :: "'w::len word"
  assumes "twice TYPE('h::len) TYPE('w)"
  shows "all_of (s_low n :: 'h word) 0 = push_bit (LENGTH('w) - LENGTH('h)) n"
    and "all_of 0 (s_high n :: 'h word) = drop_bit LENGTH('h) n"
  using shift_parts(1, 4) [OF assms, of "LENGTH('h)" n] by simp_all

text \<open>The branches of the routine, one lemma for each shape of the operands.\<close>

lemma start_one_word:
  fixes n d :: "'w::len word"
  assumes tw: "twice TYPE('h::len) TYPE('w)" and n: "(s_high n :: 'h word) = 0" and "d \<noteq> 0"
  shows "start_ok n d (udivmod_start TYPE('h) n d)"
proof (cases "(s_high d :: 'h word) = 0")
  case True
  moreover have "(s_low d :: 'h word) \<noteq> 0"
    using all_of_halves [OF tw, of d] True assms(3) by (auto simp: all_of_def)
  ultimately have "udivmod_start TYPE('h) n d
      = Div_done (ucast (s_low n div s_low d :: 'h word)) (ucast (s_low n mod s_low d :: 'h word))"
    using n by (simp add: udivmod_start_def Let_def)
  then show ?thesis
    using n True unat_halves [OF tw, of n] unat_halves [OF tw, of d]
    by (simp add: start_done unat_up [OF tw] unat_div unat_mod)
next
  case False
  then have "udivmod_start TYPE('h) n d = Div_done 0 n"
    using n up_low [OF tw n] by (simp add: udivmod_start_def Let_def)
  moreover have "unat n < 2 ^ LENGTH('h)"
    using unat_halves [OF tw, of n] n unsigned_less [of "s_low n :: 'h word", where ?'a = nat] by simp
  moreover have "1 * 2 ^ LENGTH('h) \<le> unat (s_high d :: 'h word) * 2 ^ LENGTH('h)"
    using False by (intro mult_right_mono) (simp_all add: unat_gt_0 Suc_le_eq)
  moreover have "unat n < unat d"
    using calculation(2,3) unat_halves [OF tw, of d] by linarith
  ultimately show ?thesis
    using start_smaller [of n d] by simp
qed

lemma start_divisor_high:
  fixes n d :: "'w::len word"
  assumes tw: "twice TYPE('h::len) TYPE('w)" and H: "LENGTH('h) < 2 ^ 29" "2 < LENGTH('h)"
    and nz: "(s_high n :: 'h word) \<noteq> 0" "(s_low d :: 'h word) = 0" "(s_high d :: 'h word) \<noteq> 0"
  shows "start_ok n d (udivmod_start TYPE('h) n d)"
proof -
  let ?nh = "s_high n :: 'h word" and ?nl = "s_low n :: 'h word" and ?dh = "s_high d :: 'h word"
  let ?sr = "of_nat (builtin_clz ?dh) - of_nat (builtin_clz ?nh) :: 32 word" and ?B = "of_nat LENGTH('h) :: 32 word"
  consider (zero) "?nl = 0" | (power) "?nl \<noteq> 0" "?dh AND (?dh - 1) = 0" | (other) "?nl \<noteq> 0" "?dh AND (?dh - 1) \<noteq> 0"
    by blast
  then show ?thesis
  proof cases
    case zero
    then show ?thesis
      using nz start_low_zero [OF tw, of n d] by (simp add: udivmod_start_def Let_def)
  next
    case power
    then show ?thesis
      using nz start_power_high [OF tw nz(3,2) power(2), of n] by (simp add: udivmod_start_def Let_def)
  next
    case other
    then have "udivmod_start TYPE('h) n d = (if ?B - 2 < ?sr then Div_done 0 n
        else Div_loop (?sr + 1) (all_of (push_bit (unat (?B - (?sr + 1))) ?nl) 0)
          (all_of (drop_bit (unat (?sr + 1)) ?nh) (push_bit (unat (?B - (?sr + 1))) ?nh OR drop_bit (unat (?sr + 1)) ?nl)))"
      unfolding udivmod_start_def Let_def using nz by (simp only: if_True if_False simp_thms)
    moreover have "unat (?B - 2) < LENGTH('h)" "nbits (unat ?nh) - nbits (unat ?dh) \<le> unat (?B - 2)"
      using word_counts(2) [OF tw H(1), of 2] H not_power_nbits [OF nz(3) other(2)] nbits_unat [of ?nh] by simp_all
    note start_high [OF tw H nz(1,3) this]
    ultimately show ?thesis
      using word_counts(2) [OF tw H(1), of "?sr + 1"] shift_parts(1, 2) [OF tw, of "unat (?sr + 1)" n] by (simp split: if_split)
  qed
qed

lemma start_divisor_power:
  fixes n d :: "'w::len word"
  assumes tw: "twice TYPE('h::len) TYPE('w)" and H: "LENGTH('h) < 2 ^ 29"
    and nz: "(s_high n :: 'h word) \<noteq> 0" "(s_high d :: 'h word) = 0" "(s_low d :: 'h word) \<noteq> 0"
    and p: "(s_low d :: 'h word) AND (s_low d - 1) = 0"
  shows "start_ok n d (udivmod_start TYPE('h) n d)"
proof -
  let ?nh = "s_high n :: 'h word" and ?nl = "s_low n :: 'h word" and ?dl = "s_low d :: 'h word"
  let ?k = "builtin_ctz ?dl" and ?B = "of_nat LENGTH('h) :: 32 word"
  have le: "?k < LENGTH('h)"
    using nz(3) by (rule ctz_bound)
  then have k: "unat (of_nat ?k :: 32 word) = ?k"
    using small_counts [OF H(1), of ?k] by simp
  have "builtin_ctz (1 :: 'h word) = 0"
    unfolding builtin_ctz_def by (subst ntz.simps) simp
  then have "(if ?dl = 1 then n else all_of (drop_bit ?k ?nh) (push_bit (LENGTH('h) - ?k) ?nh OR drop_bit ?k ?nl)) = drop_bit ?k n"
    using shift_parts(2) [OF tw, of ?k n] le by simp
  then have "udivmod_start TYPE('h) n d = Div_done (drop_bit ?k n) (ucast (?nl AND (?dl - 1)))"
    unfolding udivmod_start_def Let_def using nz p word_counts(2) [OF tw H, of "of_nat ?k"] k le
    by (simp only: if_True if_False simp_thms less_imp_le)
  then show ?thesis
    using start_power_low [OF tw nz(2,3) p, of n] by simp
qed

lemma start_divisor_low:
  fixes n d :: "'w::len word"
  assumes tw: "twice TYPE('h::len) TYPE('w)" and H: "LENGTH('h) < 2 ^ 29"
    and nz: "(s_high n :: 'h word) \<noteq> 0" "(s_high d :: 'h word) = 0" "(s_low d :: 'h word) \<noteq> 0"
    and p: "(s_low d :: 'h word) AND (s_low d - 1) \<noteq> 0"
  shows "start_ok n d (udivmod_start TYPE('h) n d)"
proof -
  define sr where "sr = (1 + of_nat LENGTH('h) + of_nat (builtin_clz (s_low d :: 'h word))
      - of_nat (builtin_clz (s_high n :: 'h word)) :: 32 word)"
  let ?nh = "s_high n :: 'h word" and ?nl = "s_low n :: 'h word"
  let ?B = "of_nat LENGTH('h) :: 32 word" and ?B2 = "of_nat LENGTH('w) :: 32 word"
  have "1 < nbits (unat (s_low d :: 'h word))"
    using nz(3) p by (rule not_power_nbits)
  note start_low [OF tw H nz(1,2) this, folded sr_def]
  moreover have "udivmod_start TYPE('h) n d =
      (if sr = ?B then Div_loop sr (all_of ?nl 0) (all_of 0 ?nh)
       else if sr < ?B
       then Div_loop sr (all_of (push_bit (unat (?B - sr)) ?nl) 0)
              (all_of (drop_bit (unat sr) ?nh) (push_bit (unat (?B - sr)) ?nh OR drop_bit (unat sr) ?nl))
       else Div_loop sr (all_of (push_bit (unat (?B2 - sr)) ?nh OR drop_bit (unat (sr - ?B)) ?nl) (push_bit (unat (?B2 - sr)) ?nl))
              (all_of 0 (drop_bit (unat (sr - ?B)) ?nh)))"
    unfolding udivmod_start_def Let_def sr_def [symmetric] using nz p by (simp only: if_True if_False simp_thms)
  moreover have "sr = ?B \<Longrightarrow> unat sr = LENGTH('h)" "sr < ?B \<Longrightarrow> unat sr \<le> LENGTH('h)" "\<not> sr < ?B \<Longrightarrow> LENGTH('h) \<le> unat sr"
    using word_counts(1) [OF tw H] by (simp_all add: word_less_nat_alt)
  ultimately show ?thesis
    using shift_parts [OF tw, of "unat sr" n] word_counts(2-4) [OF tw H, of sr] shift_one_word [OF tw, of n] by (auto split: if_splits)
qed

lemma start_two_words:
  fixes n d :: "'w::len word"
  assumes tw: "twice TYPE('h::len) TYPE('w)" and H: "LENGTH('h) < 2 ^ 29" "2 < LENGTH('h)"
    and nz: "(s_high n :: 'h word) \<noteq> 0" "(s_low d :: 'h word) \<noteq> 0" "(s_high d :: 'h word) \<noteq> 0"
  shows "start_ok n d (udivmod_start TYPE('h) n d)"
proof -
  let ?nh = "s_high n :: 'h word" and ?nl = "s_low n :: 'h word" and ?dh = "s_high d :: 'h word"
  let ?sr = "of_nat (builtin_clz ?dh) - of_nat (builtin_clz ?nh) :: 32 word" and ?B = "of_nat LENGTH('h) :: 32 word"
  have "udivmod_start TYPE('h) n d = (if ?B - 1 < ?sr then Div_done 0 n
      else if ?sr + 1 = ?B then Div_loop (?sr + 1) (all_of ?nl 0) (all_of 0 ?nh)
      else Div_loop (?sr + 1) (all_of (push_bit (unat (?B - (?sr + 1))) ?nl) 0)
        (all_of (drop_bit (unat (?sr + 1)) ?nh) (push_bit (unat (?B - (?sr + 1))) ?nh OR drop_bit (unat (?sr + 1)) ?nl)))"
    unfolding udivmod_start_def Let_def using nz by (simp only: if_True if_False simp_thms)
  moreover have "unat (?B - 1) < LENGTH('h)" "nbits (unat ?nh) - nbits (unat ?dh) \<le> unat (?B - 1)"
    using word_counts(2) [OF tw H(1), of 1] H nbits_unat [of ?nh] nz(3) nbits_pos [of "unat ?dh"] by simp_all
  note start_high [OF tw H nz(1,3) this]
  moreover have "?sr + 1 = ?B \<Longrightarrow> unat (?sr + 1) = LENGTH('h)"
    using word_counts(1) [OF tw H(1)] by simp
  ultimately show ?thesis
    using word_counts(2) [OF tw H(1), of "?sr + 1"] shift_parts(1, 2) [OF tw, of "unat (?sr + 1)" n] shift_one_word [OF tw, of n]
    by (auto split: if_splits)
qed

lemma udivmod_start_ok:
  fixes n d :: "'w::len word"
  assumes tw: "twice TYPE('h::len) TYPE('w)" and H: "LENGTH('h) < 2 ^ 29" "2 < LENGTH('h)" and "d \<noteq> 0"
  shows "start_ok n d (udivmod_start TYPE('h) n d)"
proof -
  have "(s_high d :: 'h word) \<noteq> 0 \<or> (s_low d :: 'h word) \<noteq> 0"
    using all_of_halves [OF tw, of d] assms(4) by (auto simp: all_of_def)
  then show ?thesis
    using start_one_word [OF tw _ assms(4)] start_divisor_high [OF tw H, of n d] start_divisor_power [OF tw H(1), of n d]
      start_divisor_low [OF tw H(1), of n d] start_two_words [OF tw H, of n d] by blast
qed

text \<open>The routine on two words is the division of the language.\<close>

lemma udivmod4_ok:
  assumes tw: "twice TYPE('h::len) TYPE('w::len)" and H: "LENGTH('h) < 2 ^ 29" "32 \<le> LENGTH('h)"
  shows "udivmod4 TYPE('h) (a :: 'w word) b = (if b = 0 then None else Some (a div b, a mod b))"
proof (cases "b = 0")
  case True
  then have "udivmod_start TYPE('h) a b = Div_undef"
    by (simp add: udivmod_start_def s_high_def s_low_def Let_def)
  then show ?thesis
    using True by (simp add: udivmod4_def)
next
  case False
  have ok: "start_ok a b (udivmod_start TYPE('h) a b)"
    using udivmod_start_ok [OF tw, of b a] H False by simp
  show ?thesis
  proof (cases "udivmod_start TYPE('h) a b")
    case Div_undef
    then show ?thesis
      using ok by (simp add: start_ok_def)
  next
    case (Div_done q r)
    then show ?thesis
      using ok False by (simp add: start_ok_def udivmod4_def)
  next
    case (Div_loop sr q r)
    let ?N = "unat a" and ?D = "unat b" and ?S = "unat sr"
    have st: "nbits ?D \<le> nbits ?N" "?S = nbits ?N - nbits ?D + 1" "?S \<le> LENGTH('w)"
      "q = push_bit (LENGTH('w) - ?S) a" "r = drop_bit ?S a"
      using ok Div_loop by (simp_all add: start_ok_def)
    have "div_inv ?N ?D 0 ?S q r 0"
      using div_init [OF st(3), of a ?D] div_rounds [of ?D ?N ?S] st False by (simp add: unat_high_digit)
    moreover have "div_range TYPE('w) ?N ?D ?S"
      using st by (intro div_rounds_range) simp_all
    ultimately obtain q1 r1 c1 where loop: "div_loop b ?S q r 0 = (q1, r1, c1)" "unat r1 = ?N mod ?D"
      "push_bit 1 q1 OR c1 = of_nat (?N div ?D)"
      using div_loop_ok [of ?N ?D 0 ?S q r 0 b] by auto
    obtain q2 r2 c2 where h: "udivmod_loop TYPE('h) b ?S q r 0 = (q2, r2, c2)"
      by (metis prod_cases3)
    then have eq: "q2 = q1" "r2 = r1" "ucast c2 = c1"
      using udivmod_loop_eq [OF tw H(2), of b ?S q r 0] loop(1) by simp_all
    have "of_nat (?N div ?D) = a div b"
      by (simp flip: unat_div)
    moreover have "r1 = a mod b"
      using loop(2) by (intro unsigned_word_eqI [where ?'a = nat]) (simp add: unat_mod)
    ultimately show ?thesis
      using False Div_loop h eq loop(3) by (simp only: udivmod4_def div_start.case Let_def prod.case if_False)
  qed
qed


subsection \<open>Signed division\<close>

lemma uint_abs: "uint (negate_if (sign_of a) (a :: 'a::len word)) = \<bar>sint a\<bar>"
proof -
  have "\<bar>sint a\<bar> \<le> 2 ^ (LENGTH('a) - 1)"
    using sint_ge [of a] sint_lt [of a] by linarith
  also have "(2 :: int) ^ (LENGTH('a) - 1) < 2 ^ LENGTH('a)"
    by simp
  finally have "uint (word_of_int \<bar>sint a\<bar> :: 'a word) = \<bar>sint a\<bar>"
    by (simp only: uint_word_of_int) (simp add: take_bit_int_eq_self)
  moreover have "negate_if (sign_of a) a = word_of_int \<bar>sint a\<bar>"
    by (simp add: sign_of_eq)
  ultimately show ?thesis
    by simp
qed

lemma word_div_int: "(x :: 'a::len word) div y = word_of_int (uint x div uint y)"
  and word_mod_int: "x mod y = word_of_int (uint x mod uint y)"
  by (simp_all flip: uint_div uint_mod)

lemma signs_xor: "negate_if (sign_of a XOR sign_of b) (x :: 'a::len word) = (if (sint a < 0) = (sint b < 0) then x else - x)"
  by (simp add: sign_of_eq)

lemma quotient_sign:
  "negate_if (sign_of a XOR sign_of b) (negate_if (sign_of a) a div negate_if (sign_of b) b)
    = (word_of_int (sint a sdiv sint b) :: 'a::len word)"
proof -
  have "sint a sdiv sint b = (if (sint a < 0) = (sint b < 0) then \<bar>sint a\<bar> div \<bar>sint b\<bar> else - (\<bar>sint a\<bar> div \<bar>sint b\<bar>))"
    by (auto simp: signed_divide_int_def sgn_if)
  then show ?thesis
    unfolding signs_xor word_div_int uint_abs by simp
qed

lemma remainder_sign:
  "negate_if (sign_of a) (negate_if (sign_of a) a mod negate_if (sign_of b) b)
    = (word_of_int (sint a smod sint b) :: 'a::len word)"
proof -
  have "sint a smod sint b = (if sint a < 0 then - (\<bar>sint a\<bar> mod \<bar>sint b\<bar>) else \<bar>sint a\<bar> mod \<bar>sint b\<bar>)"
    by (auto simp: signed_modulo_int_def sgn_if)
  then show ?thesis
    unfolding word_mod_int uint_abs by (simp add: sign_of_eq)
qed

lemma abs_eq_0: "negate_if (sign_of b) b = 0 \<longleftrightarrow> b = 0"
  by (simp add: sign_of_eq)

lemma remainder_word: "a - word_of_int (sint a sdiv sint b) * b = (word_of_int (sint a smod sint b) :: 'a::len word)"
proof -
  have "a - word_of_int (sint a sdiv sint b) * b = word_of_int (sint a - sint a sdiv sint b * sint b)"
    by simp
  then show ?thesis
    by (simp only: minus_sdiv_mult_eq_smod)
qed

lemma div3_ok:
  assumes "\<And>a b. udivmod a b = (if b = 0 then None else Some (a div b, a mod b))"
  shows "div3 udivmod a b = (if b = 0 then None else Some (word_of_int (sint a sdiv sint b)))"
    and "mod3 udivmod a b = (if b = 0 then None else Some (word_of_int (sint a smod sint b)))"
  by (simp_all add: div3_def mod3_def Let_def assms abs_eq_0 quotient_sign remainder_sign)

lemma divsi3_ok: "divsi3 a b = (if b = 0 then None else Some (word_of_int (sint a sdiv sint b)))"
  by (simp add: divsi3_def udivw_def Let_def abs_eq_0 quotient_sign)

text \<open>The routines that return a remainder, or both results, at 32 bits.\<close>

lemma remainder_unsigned: "a - a div b * b = a mod (b :: 'a::len word)"
  by (simp add: minus_div_mult_eq_mod)

lemma udivmodsi_ok:
  "umodsi3 a b = a mod b" "udivmodsi4 a b = (a div b, a mod b)"
  by (simp_all add: umodsi3_def udivmodsi4_def udivsi3_ok remainder_unsigned Let_def)

lemma divmodsi_ok:
  "modsi3 a b = (if b = 0 then None else Some (word_of_int (sint a smod sint b)))"
  "divmodsi4 a b = (if b = 0 then None else Some (word_of_int (sint a sdiv sint b), word_of_int (sint a smod sint b)))"
  by (simp_all add: modsi3_def divmodsi4_def divsi3_ok remainder_word)

text \<open>At 64 and 128 bits.\<close>

lemma udivmoddi4_ok: "udivmoddi4 a b = (if b = 0 then None else Some (a div b, a mod b))"
  unfolding udivmoddi4_def by (rule udivmod4_ok) simp_all

lemma udivmodti4_ok: "udivmodti4 a b = (if b = 0 then None else Some (a div b, a mod b))"
  unfolding udivmodti4_def by (rule udivmod4_ok) simp_all

lemma udiv_ok:
  "udivdi3 a b = (if b = 0 then None else Some (a div b))" "umoddi3 a b = (if b = 0 then None else Some (a mod b))"
  "udivti3 c d = (if d = 0 then None else Some (c div d))" "umodti3 c d = (if d = 0 then None else Some (c mod d))"
  by (simp_all add: udivdi3_def umoddi3_def udivti3_def umodti3_def udivmoddi4_ok udivmodti4_ok)

end
