(* ===== verification/Builtins_Float.thy ===== *)
theory Builtins_Float
  imports Builtins_Bits Complex_Main
begin

text \<open>
  Floating point in software (\<^verbatim>\<open>fp_lib.h\<close> of \<^verbatim>\<open>compiler-rt\<close>): comparison.  The routines work on the
  representation of a number.  The text of a routine is a definition over the word \<open>'r\<close> that holds the
  representation and the number \<open>sb\<close> of its \<^verbatim>\<open>significandBits\<close>; the routines for single, double and quad
  precision are the instances 23, 52 and 112.
\<close>

subsection \<open>fp\_lib.h\<close>

definition exponentBits :: "'r::len itself \<Rightarrow> nat \<Rightarrow> nat" where
  "exponentBits r sb = LENGTH('r) - sb - 1"

definition maxExponent :: "'r::len itself \<Rightarrow> nat \<Rightarrow> nat" where
  "maxExponent r sb = 2 ^ exponentBits r sb - 1"

definition exponentBias :: "'r::len itself \<Rightarrow> nat \<Rightarrow> nat" where
  "exponentBias r sb = maxExponent r sb div 2"

definition implicitBit :: "nat \<Rightarrow> 'r::len word" where
  "implicitBit sb = push_bit sb 1"

definition significandMask :: "nat \<Rightarrow> 'r::len word" where
  "significandMask sb = implicitBit sb - 1"

definition signBit :: "nat \<Rightarrow> 'r::len word" where
  "signBit sb = push_bit (sb + exponentBits TYPE('r) sb) 1"

definition absMask :: "nat \<Rightarrow> 'r::len word" where
  "absMask sb = signBit sb - 1"

definition infRep :: "nat \<Rightarrow> 'r::len word" where
  "infRep sb = absMask sb XOR significandMask sb"


subsection \<open>comparesf2.c, comparedf2.c, comparetf2.c\<close>

text \<open>
  \<^verbatim>\<open>__lesf2\<close> and \<^verbatim>\<open>__gesf2\<close> have the same text, but for the result when an operand is not a number.
\<close>

definition fp_compare :: "int \<Rightarrow> nat \<Rightarrow> 'r::len word \<Rightarrow> 'r word \<Rightarrow> int" where
  "fp_compare unordered sb aInt bInt =
     (let aAbs = aInt AND absMask sb; bAbs = bInt AND absMask sb
      in if infRep sb < aAbs \<or> infRep sb < bAbs then unordered
         else if aAbs OR bAbs = 0 then 0
         else if 0 \<le>s aInt AND bInt
         then if aInt <s bInt then - 1 else if aInt = bInt then 0 else 1
         else if bInt <s aInt then - 1 else if aInt = bInt then 0 else 1)"

definition fp_unord :: "nat \<Rightarrow> 'r::len word \<Rightarrow> 'r word \<Rightarrow> int" where
  "fp_unord sb a b =
     (let aAbs = a AND absMask sb; bAbs = b AND absMask sb in of_bool (infRep sb < aAbs \<or> infRep sb < bAbs))"

definition lesf2 :: "32 word \<Rightarrow> 32 word \<Rightarrow> int" where "lesf2 = fp_compare 1 23"
definition gesf2 :: "32 word \<Rightarrow> 32 word \<Rightarrow> int" where "gesf2 = fp_compare (- 1) 23"
definition unordsf2 :: "32 word \<Rightarrow> 32 word \<Rightarrow> int" where "unordsf2 = fp_unord 23"
definition eqsf2 :: "32 word \<Rightarrow> 32 word \<Rightarrow> int" where "eqsf2 = lesf2"
definition ltsf2 :: "32 word \<Rightarrow> 32 word \<Rightarrow> int" where "ltsf2 = lesf2"
definition nesf2 :: "32 word \<Rightarrow> 32 word \<Rightarrow> int" where "nesf2 = lesf2"
definition gtsf2 :: "32 word \<Rightarrow> 32 word \<Rightarrow> int" where "gtsf2 = gesf2"

definition ledf2 :: "64 word \<Rightarrow> 64 word \<Rightarrow> int" where "ledf2 = fp_compare 1 52"
definition gedf2 :: "64 word \<Rightarrow> 64 word \<Rightarrow> int" where "gedf2 = fp_compare (- 1) 52"
definition unorddf2 :: "64 word \<Rightarrow> 64 word \<Rightarrow> int" where "unorddf2 = fp_unord 52"
definition eqdf2 :: "64 word \<Rightarrow> 64 word \<Rightarrow> int" where "eqdf2 = ledf2"
definition ltdf2 :: "64 word \<Rightarrow> 64 word \<Rightarrow> int" where "ltdf2 = ledf2"
definition nedf2 :: "64 word \<Rightarrow> 64 word \<Rightarrow> int" where "nedf2 = ledf2"
definition gtdf2 :: "64 word \<Rightarrow> 64 word \<Rightarrow> int" where "gtdf2 = gedf2"

definition letf2 :: "128 word \<Rightarrow> 128 word \<Rightarrow> int" where "letf2 = fp_compare 1 112"
definition getf2 :: "128 word \<Rightarrow> 128 word \<Rightarrow> int" where "getf2 = fp_compare (- 1) 112"
definition unordtf2 :: "128 word \<Rightarrow> 128 word \<Rightarrow> int" where "unordtf2 = fp_unord 112"
definition eqtf2 :: "128 word \<Rightarrow> 128 word \<Rightarrow> int" where "eqtf2 = letf2"
definition lttf2 :: "128 word \<Rightarrow> 128 word \<Rightarrow> int" where "lttf2 = letf2"
definition netf2 :: "128 word \<Rightarrow> 128 word \<Rightarrow> int" where "netf2 = letf2"
definition gttf2 :: "128 word \<Rightarrow> 128 word \<Rightarrow> int" where "gttf2 = getf2"


subsection \<open>What a representation stands for\<close>

datatype ieee = Not_a_number | Infinity bool | Finite real

text \<open>The sign is true for negative numbers; both zeros are \<open>Finite 0\<close>.\<close>

definition fp_neg :: "'r::len word \<Rightarrow> bool" where
  "fp_neg r = bit r (LENGTH('r) - 1)"

definition fp_abs :: "'r::len word \<Rightarrow> nat" where
  "fp_abs r = unat (take_bit (LENGTH('r) - 1) r)"

definition fp_magnitude :: "'r::len itself \<Rightarrow> nat \<Rightarrow> nat \<Rightarrow> real" where
  "fp_magnitude t sb n =
     (let e = n div 2 ^ sb; m = n mod 2 ^ sb; bias = exponentBias t sb
      in if e = 0 then real m / 2 ^ sb * (2 / 2 ^ bias) else (1 + real m / 2 ^ sb) * (2 ^ e / 2 ^ bias))"

definition fp_decode :: "nat \<Rightarrow> 'r::len word \<Rightarrow> ieee" where
  "fp_decode sb r =
     (let top_exp = maxExponent TYPE('r) sb; e = fp_abs r div 2 ^ sb; m = fp_abs r mod 2 ^ sb
      in if e = top_exp then if m = 0 then Infinity (fp_neg r) else Not_a_number
         else Finite ((if fp_neg r then - 1 else 1) * fp_magnitude TYPE('r) sb (fp_abs r)))"

fun ieee_less :: "ieee \<Rightarrow> ieee \<Rightarrow> bool" where
  "ieee_less (Finite x) (Finite y) \<longleftrightarrow> x < y"
| "ieee_less (Infinity s) (Infinity t) \<longleftrightarrow> s \<and> \<not> t"
| "ieee_less (Infinity s) (Finite y) \<longleftrightarrow> s"
| "ieee_less (Finite x) (Infinity t) \<longleftrightarrow> \<not> t"
| "ieee_less x y \<longleftrightarrow> False"

definition ieee_compare :: "int \<Rightarrow> ieee \<Rightarrow> ieee \<Rightarrow> int" where
  "ieee_compare unordered x y =
     (if x = Not_a_number \<or> y = Not_a_number then unordered
      else if ieee_less x y then - 1 else if x = y then 0 else 1)"

text \<open>Formats with at least one bit of significand and two of exponent.\<close>

definition fp_format :: "'r::len itself \<Rightarrow> nat \<Rightarrow> bool" where
  "fp_format r sb \<longleftrightarrow> 0 < sb \<and> sb + 2 < LENGTH('r)"

lemma fp_formats [simp]:
  "fp_format TYPE(16) 10" "fp_format TYPE(32) 23" "fp_format TYPE(64) 52" "fp_format TYPE(128) 112"
  by (simp_all add: fp_format_def)


subsection \<open>The constants\<close>

lemma push_bit_1_minus_1: "push_bit k 1 - 1 = (mask k :: 'r::len word)"
  by (simp add: push_bit_eq_mult mask_eq_exp_minus_1)

lemma significandMask_mask: "significandMask sb = mask sb"
  by (simp only: significandMask_def implicitBit_def push_bit_1_minus_1)

lemma format_width: "fp_format TYPE('r::len) sb \<Longrightarrow> sb + exponentBits TYPE('r) sb = LENGTH('r) - 1"
  by (simp add: fp_format_def exponentBits_def)

lemma absMask_mask: "fp_format TYPE('r::len) sb \<Longrightarrow> absMask sb = (mask (LENGTH('r) - 1) :: 'r word)"
  by (simp only: absMask_def signBit_def push_bit_1_minus_1 format_width)

lemma max_exponent_pos: "fp_format TYPE('r::len) sb \<Longrightarrow> 0 < maxExponent TYPE('r) sb"
  using one_less_power [of "2 :: nat" "exponentBits TYPE('r) sb"]
  by (simp add: maxExponent_def exponentBits_def fp_format_def)

lemma unat_abs: "fp_format TYPE('r::len) sb \<Longrightarrow> unat ((a :: 'r word) AND absMask sb) = fp_abs a"
  by (simp add: absMask_mask fp_abs_def take_bit_eq_mask)

lemma format_power: "fp_format TYPE('r::len) sb \<Longrightarrow> (2 :: nat) ^ (LENGTH('r) - 1) = 2 ^ exponentBits TYPE('r) sb * 2 ^ sb"
  using format_width [of sb, where 'r = 'r] by (metis mult.commute power_add)

lemma fp_abs_less: "fp_abs (a :: 'r::len word) < 2 ^ (LENGTH('r) - 1)"
  by (simp add: fp_abs_def unsigned_take_bit_eq)

lemma infRep_value:
  assumes "fp_format TYPE('r::len) sb"
  shows "unat (infRep sb :: 'r word) = maxExponent TYPE('r) sb * 2 ^ sb"
proof -
  let ?L = "LENGTH('r) - 1"
  have le: "sb \<le> ?L"
    using assms by (simp add: fp_format_def)
  have inf: "infRep sb = (mask ?L - mask sb :: 'r word)"
  proof -
    have "(mask ?L XOR mask sb) + mask sb = ((mask ?L XOR mask sb) OR mask sb :: 'r word)"
      by (rule disjunctive_add_eq_or, rule bit_word_eqI) (use le in \<open>auto simp: bit_simps\<close>)
    also have "\<dots> = mask ?L"
      by (rule bit_word_eqI) (use le in \<open>auto simp: bit_simps\<close>)
    finally show ?thesis
      by (simp add: infRep_def absMask_mask [OF assms] significandMask_mask algebra_simps)
  qed
  have mask: "unat (mask k :: 'r word) = 2 ^ k - 1" if "k \<le> ?L" for k
  proof -
    have "mask k = (of_nat (2 ^ k - 1) :: 'r word)"
      by (simp add: mask_eq_exp_minus_1 of_nat_diff)
    moreover have "(2 :: nat) ^ k - 1 < 2 ^ LENGTH('r)"
      using that power_increasing [of k "LENGTH('r)" "2 :: nat"] by (simp add: less_imp_diff_less order_le_less_trans)
    ultimately show ?thesis
      by (simp only: unat_of_nat_small)
  qed
  have "(2 :: nat) ^ sb \<le> 2 ^ ?L"
    using le by (rule power_increasing) simp
  then have "unat (mask sb :: 'r word) \<le> unat (mask ?L :: 'r word)"
    by (simp only: mask le order_refl diff_le_mono)
  then have "unat (infRep sb :: 'r word) = (2 ^ ?L - 1) - (2 ^ sb - 1)"
    unfolding inf by (simp only: unat_sub_small mask le order_refl)
  then show ?thesis
    using format_power [OF assms] by (simp add: maxExponent_def diff_mult_distrib)
qed


subsection \<open>The order of magnitudes\<close>

text \<open>A magnitude in units of the least positive number.\<close>

definition fp_units :: "nat \<Rightarrow> nat \<Rightarrow> nat" where
  "fp_units sb n = (if n div 2 ^ sb = 0 then n mod 2 ^ sb else (2 ^ sb + n mod 2 ^ sb) * 2 ^ (n div 2 ^ sb - 1))"

lemma fp_magnitude_units: "fp_magnitude t sb n = real (fp_units sb n) * (2 / (2 ^ sb * 2 ^ exponentBias t sb))"
proof (cases "n div 2 ^ sb")
  case (Suc e)
  have "(1 + x / b) * (2 * p / c) = (b + x) * p * (2 / (b * c))" if "b \<noteq> 0" for x b p c :: real
    using that by (simp add: field_simps)
  from this [of "2 ^ sb" "real (n mod 2 ^ sb)" "2 ^ e" "2 ^ exponentBias t sb"] show ?thesis
    unfolding fp_magnitude_def fp_units_def Let_def Suc by simp
qed (simp add: fp_magnitude_def fp_units_def Let_def)

lemma fp_units_Suc: "fp_units sb n < fp_units sb (Suc n)"
proof -
  let ?b = "2 ^ sb :: nat"
  define e m where "e = n div ?b" and "m = n mod ?b"
  have b: "0 < ?b" and m: "m < ?b"
    by (simp_all add: m_def)
  show ?thesis
  proof (cases "Suc m = ?b")
    case True
    then have "Suc n div ?b = Suc e" "Suc n mod ?b = 0"
      by (simp_all add: div_Suc mod_Suc e_def m_def)
    then have new: "fp_units sb (Suc n) = ?b * 2 ^ e"
      by (simp add: fp_units_def)
    show ?thesis
    proof (cases e)
      case 0
      then show ?thesis
        unfolding new using m by (simp add: fp_units_def flip: e_def m_def)
    next
      case (Suc k)
      have "(?b + m) * 2 ^ k < (2 * ?b) * 2 ^ k"
        using m by (intro mult_strict_right_mono) simp_all
      then show ?thesis
        unfolding new using Suc by (simp add: fp_units_def mult.left_commute flip: e_def m_def)
    qed
  next
    case False
    then have "Suc n div ?b = e" "Suc n mod ?b = Suc m"
      by (simp_all add: div_Suc mod_Suc e_def m_def)
    then show ?thesis
      by (simp add: fp_units_def flip: e_def m_def)
  qed
qed

lemma fp_units_less: "fp_units sb m < fp_units sb n \<longleftrightarrow> m < n"
  using strict_mono_less [OF strict_mono_Suc_iff [THEN iffD2]] fp_units_Suc by metis

lemma fp_units_eq: "fp_units sb m = fp_units sb n \<longleftrightarrow> m = n"
  using fp_units_less [of sb m n] fp_units_less [of sb n m] by (metis less_irrefl nat_neq_iff)

lemma fp_units_0 [simp]: "fp_units sb 0 = 0"
  by (simp add: fp_units_def)

lemma fp_magnitude_order:
  "fp_magnitude t sb m < fp_magnitude t sb n \<longleftrightarrow> m < n" "fp_magnitude t sb m = fp_magnitude t sb n \<longleftrightarrow> m = n"
  "fp_magnitude t sb 0 = 0" "0 \<le> fp_magnitude t sb m" "fp_magnitude t sb m = 0 \<longleftrightarrow> m = 0"
  using fp_units_eq [of sb m 0]
  by (simp_all add: fp_magnitude_units fp_units_less fp_units_eq field_simps)

text \<open>The rank of a representation: its magnitude with its sign.\<close>

definition fp_rank :: "'r::len word \<Rightarrow> int" where
  "fp_rank a = (if fp_neg a then - int (fp_abs a) else int (fp_abs a))"

lemma signed_magnitude_order:
  fixes m n sb :: nat and s t :: bool and r :: "'r::len itself"
  defines "x \<equiv> (if s then - 1 else 1) * fp_magnitude r sb m" and "y \<equiv> (if t then - 1 else 1) * fp_magnitude r sb n"
    and "i \<equiv> if s then - int m else int m" and "j \<equiv> if t then - int n else int n"
  shows "x < y \<longleftrightarrow> i < j" and "x = y \<longleftrightarrow> i = j"
proof -
  have p: "0 \<le> fp_magnitude r sb m" "0 \<le> fp_magnitude r sb n" "fp_magnitude r sb m = 0 \<longleftrightarrow> m = 0"
    "fp_magnitude r sb n = 0 \<longleftrightarrow> n = 0"
    by (simp_all add: fp_magnitude_order)
  have o: "fp_magnitude r sb m < fp_magnitude r sb n \<longleftrightarrow> m < n" "fp_magnitude r sb n < fp_magnitude r sb m \<longleftrightarrow> n < m"
    "fp_magnitude r sb m = fp_magnitude r sb n \<longleftrightarrow> m = n"
    by (simp_all add: fp_magnitude_order)
  show "x < y \<longleftrightarrow> i < j" "x = y \<longleftrightarrow> i = j"
    unfolding x_def y_def i_def j_def using p o
    by (cases s; cases t; auto; linarith)+
qed


lemma fp_exponent_le:
  assumes "fp_format TYPE('r::len) sb"
  shows "fp_abs (a :: 'r word) div 2 ^ sb \<le> maxExponent TYPE('r) sb"
proof -
  have "fp_abs a < 2 ^ exponentBits TYPE('r) sb * 2 ^ sb"
    using fp_abs_less [of a] format_power [OF assms] by simp
  then have "fp_abs a div 2 ^ sb < 2 ^ exponentBits TYPE('r) sb"
    by (rule less_mult_imp_div_less)
  then show ?thesis
    by (simp add: maxExponent_def)
qed

lemma fp_nan_iff:
  assumes "fp_format TYPE('r::len) sb"
  shows "fp_decode sb (a :: 'r word) = Not_a_number \<longleftrightarrow> maxExponent TYPE('r) sb * 2 ^ sb < fp_abs a"
proof -
  let ?b = "2 ^ sb :: nat" and ?M = "maxExponent TYPE('r) sb"
  have split: "fp_abs a = fp_abs a div ?b * ?b + fp_abs a mod ?b"
    by (rule div_mult_mod_eq [symmetric])
  have "?M * ?b < fp_abs a \<longleftrightarrow> fp_abs a div ?b = ?M \<and> fp_abs a mod ?b \<noteq> 0"
  proof
    assume lt: "?M * ?b < fp_abs a"
    then have "?M \<le> fp_abs a div ?b"
      by (simp add: less_eq_div_iff_mult_less_eq)
    then have "fp_abs a div ?b = ?M"
      using fp_exponent_le [OF assms, of a] by simp
    then show "fp_abs a div ?b = ?M \<and> fp_abs a mod ?b \<noteq> 0"
      using lt split by (metis add_0_right less_irrefl)
  next
    assume "fp_abs a div ?b = ?M \<and> fp_abs a mod ?b \<noteq> 0"
    then show "?M * ?b < fp_abs a"
      using split by (metis less_add_same_cancel1 not_gr_zero)
  qed
  then show ?thesis
    by (simp add: fp_decode_def Let_def)
qed

text \<open>Numbers are ordered as their ranks; the infinities have the greatest magnitude.\<close>

lemma fp_decode_order:
  assumes f: "fp_format TYPE('r::len) sb"
    and a: "fp_decode sb (a :: 'r word) \<noteq> Not_a_number" and b: "fp_decode sb (b :: 'r word) \<noteq> Not_a_number"
  shows "ieee_less (fp_decode sb a) (fp_decode sb b) \<longleftrightarrow> fp_rank a < fp_rank b"
    and "fp_decode sb a = fp_decode sb b \<longleftrightarrow> fp_rank a = fp_rank b"
proof -
  let ?M = "maxExponent TYPE('r) sb" and ?b = "2 ^ sb :: nat"
  have M: "0 < ?M"
    by (rule max_exponent_pos [OF f])
  have inf: "fp_decode sb c = Infinity (fp_neg c) \<and> fp_abs c = ?M * ?b
      \<or> fp_decode sb c = Finite ((if fp_neg c then - 1 else 1) * fp_magnitude TYPE('r) sb (fp_abs c)) \<and> fp_abs c < ?M * ?b"
    if c: "fp_decode sb c \<noteq> Not_a_number" for c :: "'r word"
  proof (cases "fp_abs c div ?b = ?M")
    case True
    then have "fp_abs c mod ?b = 0"
      using c by (simp add: fp_decode_def Let_def split: if_splits)
    then show ?thesis
      using True by (auto simp: fp_decode_def Let_def)
  next
    case False
    then have "fp_abs c div ?b < ?M"
      using fp_exponent_le [OF f, of c] by simp
    then show ?thesis
      using False by (simp add: fp_decode_def Let_def div_less_iff_less_mult)
  qed
  define N where "N = ?M * ?b"
  have pos: "0 < N"
    using M by (simp add: N_def)
  note ord = signed_magnitude_order [where r = "TYPE('r)" and sb = sb]
  from inf [OF a, folded N_def] inf [OF b, folded N_def] pos
  show "ieee_less (fp_decode sb a) (fp_decode sb b) \<longleftrightarrow> fp_rank a < fp_rank b"
    by (elim disjE conjE) (auto simp: fp_rank_def ord)
  from inf [OF a, folded N_def] inf [OF b, folded N_def] pos
  show "fp_decode sb a = fp_decode sb b \<longleftrightarrow> fp_rank a = fp_rank b"
    by (elim disjE conjE) (auto simp: fp_rank_def ord)
qed

lemma sint_fp: "sint (a :: 'r::len word) = int (fp_abs a) - (if fp_neg a then 2 ^ (LENGTH('r) - 1) else 0)"
proof -
  have "unat a = fp_abs a + (if fp_neg a then 2 ^ (LENGTH('r) - 1) else 0)"
  proof -
    obtain k where k: "LENGTH('r) = Suc k"
      using len_gt_0 [where 'a = 'r] by (cases "LENGTH('r)") auto
    then have "take_bit (Suc k) (unat a) = unat a"
      using unsigned_less [of a, where ?'a = nat] by (simp add: take_bit_nat_eq_self_iff)
    then have "unat a = take_bit k (unat a) + of_bool (bit (unat a) k) * 2 ^ k"
      using take_bit_Suc_from_most [of k "unat a"] by (simp only: add.commute mult.commute)
    moreover have "bit (unat a) k \<longleftrightarrow> fp_neg a" "take_bit k (unat a) = fp_abs a"
      by (simp_all add: k fp_abs_def fp_neg_def unsigned_take_bit_eq bit_unsigned_iff)
    ultimately show ?thesis
      using k by (cases "fp_neg a") simp_all
  qed
  then have u: "uint a = int (fp_abs a) + (if fp_neg a then 2 ^ (LENGTH('r) - 1) else 0)"
    by (simp add: uint_nat)
  have d: "(2 :: int) ^ LENGTH('r) = 2 * 2 ^ (LENGTH('r) - 1)"
    by (metis One_nat_def Suc_pred len_gt_0 power_Suc)
  show ?thesis
    unfolding sint_sign u d by (simp add: fp_neg_def)
qed


subsection \<open>Comparison is the order of the numbers\<close>

lemma fp_sign_test: "0 \<le>s (a :: 'r::len word) AND b \<longleftrightarrow> \<not> (fp_neg a \<and> fp_neg b)"
proof -
  have "0 \<le>s c \<longleftrightarrow> \<not> fp_neg c" for c :: "'r word"
  proof -
    have "int (fp_abs c) < 2 ^ (LENGTH('r) - 1)"
      using fp_abs_less [of c] by (metis of_nat_less_iff of_nat_numeral of_nat_power)
    then show ?thesis
      by (simp add: word_sle_eq sint_fp [of c])
  qed
  then show ?thesis
    by (simp add: fp_neg_def bit_and_iff)
qed

lemma fp_rank_sint:
  fixes a b :: "'r::len word"
  shows "\<not> (fp_neg a \<and> fp_neg b) \<Longrightarrow> fp_abs a \<noteq> 0 \<or> fp_abs b \<noteq> 0 \<Longrightarrow> fp_rank a < fp_rank b \<longleftrightarrow> sint a < sint b"
    and "fp_neg a \<Longrightarrow> fp_neg b \<Longrightarrow> fp_rank a < fp_rank b \<longleftrightarrow> sint b < sint a"
    and "fp_abs a \<noteq> 0 \<or> fp_abs b \<noteq> 0 \<Longrightarrow> fp_rank a = fp_rank b \<longleftrightarrow> sint a = sint b"
proof -
  define H :: int where "H = 2 ^ (LENGTH('r) - 1)"
  have "int (fp_abs c) < H" for c :: "'r word"
    unfolding H_def using fp_abs_less [of c] by (metis of_nat_less_iff of_nat_numeral of_nat_power)
  note less = this [of a] this [of b]
  note defs = fp_rank_def sint_fp H_def [symmetric]
  show "fp_rank a < fp_rank b \<longleftrightarrow> sint a < sint b" if "\<not> (fp_neg a \<and> fp_neg b)" "fp_abs a \<noteq> 0 \<or> fp_abs b \<noteq> 0"
    using less that unfolding defs by (cases "fp_neg a"; cases "fp_neg b") auto
  show "fp_rank a < fp_rank b \<longleftrightarrow> sint b < sint a" if "fp_neg a" "fp_neg b"
    using that unfolding defs by presburger
  show "fp_rank a = fp_rank b \<longleftrightarrow> sint a = sint b" if "fp_abs a \<noteq> 0 \<or> fp_abs b \<noteq> 0"
    using less that unfolding defs by (cases "fp_neg a"; cases "fp_neg b") auto
qed

theorem fp_compare_ok:
  assumes f: "fp_format TYPE('r::len) sb"
  shows "fp_compare u sb a (b :: 'r word) = ieee_compare u (fp_decode sb a) (fp_decode sb b)"
proof -
  have nan: "infRep sb < c AND absMask sb \<longleftrightarrow> fp_decode sb c = Not_a_number" for c :: "'r word"
    by (simp add: word_less_nat_alt unat_abs [OF f] infRep_value [OF f] fp_nan_iff [OF f])
  have zero: "(a AND absMask sb) OR (b AND absMask sb) = 0 \<longleftrightarrow> fp_abs a = 0 \<and> fp_abs b = 0"
    using unat_abs [OF f, of a] unat_abs [OF f, of b] by (metis or_eq_0_iff unat_eq_0_iff)
  show ?thesis
  proof (cases "fp_decode sb a = Not_a_number \<or> fp_decode sb b = Not_a_number")
    case True
    then show ?thesis
      by (simp add: fp_compare_def Let_def nan ieee_compare_def)
  next
    case num: False
    then have ord: "ieee_less (fp_decode sb a) (fp_decode sb b) \<longleftrightarrow> fp_rank a < fp_rank b"
      "fp_decode sb a = fp_decode sb b \<longleftrightarrow> fp_rank a = fp_rank b"
      using fp_decode_order [OF f] by blast+
    show ?thesis
    proof (cases "fp_abs a = 0 \<and> fp_abs b = 0")
      case True
      then show ?thesis
        using num by (simp add: fp_compare_def Let_def nan zero ieee_compare_def ord fp_rank_def)
    next
      case False
      then have "fp_rank a = fp_rank b \<longleftrightarrow> a = b"
        using fp_rank_sint(3) [of a b] by (auto intro: signed_word_eqI)
      then show ?thesis
        using False num fp_rank_sint(1,2) [of a b]
        by (auto simp: fp_compare_def Let_def nan zero ieee_compare_def ord fp_sign_test word_sless_alt)
    qed
  qed
qed

lemma fp_unord_ok:
  assumes f: "fp_format TYPE('r::len) sb"
  shows "fp_unord sb a (b :: 'r word) = of_bool (fp_decode sb a = Not_a_number \<or> fp_decode sb b = Not_a_number)"
  by (simp add: fp_unord_def Let_def word_less_nat_alt unat_abs [OF f] infRep_value [OF f] fp_nan_iff [OF f])

end
