(* ===== verification/Builtins_Convert.thy ===== *)
theory Builtins_Convert
  imports Builtins_Float Builtins_Checked
begin

text \<open>
  Conversions of \<^verbatim>\<open>compiler-rt\<close> between floating point numbers and integers and between formats
  (\<^verbatim>\<open>fp_fixint_impl.inc\<close>, \<^verbatim>\<open>fp_fixuint_impl.inc\<close>, \<^verbatim>\<open>floatsisf.c\<close> and its relatives, \<^verbatim>\<open>fp_extend_impl.inc\<close>),
  on the representations.
\<close>

subsection \<open>fp\_fixint\_impl.inc, fp\_fixuint\_impl.inc\<close>

text \<open>
  The product with the sign is computed in the wider of \<^verbatim>\<open>fixint_t\<close> and \<^verbatim>\<open>rep_t\<close> and converted to
  \<^verbatim>\<open>fixint_t\<close>; modulo the size of \<^verbatim>\<open>fixint_t\<close> this is the product of the converted factors.
  The last line shifts a signed integer; a shift into the sign bit, which C leaves undefined, wraps around here.
\<close>

definition fixint :: "nat \<Rightarrow> 'r::len word \<Rightarrow> 'f::len word" where
  "fixint sb aRep =
     (let fixint_max = NOT 0 div 2; fixint_min = - fixint_max - 1;
          aAbs = aRep AND absMask sb;
          sign = (if aRep AND signBit sb \<noteq> 0 then - 1 else 1);
          exponent = int (unat (drop_bit sb aAbs)) - int (exponentBias TYPE('r) sb);
          significand = (aAbs AND significandMask sb) OR implicitBit sb
      in if exponent < 0 then 0
         else if int LENGTH('f) \<le> exponent then if sign = 1 then fixint_max else fixint_min
         else if exponent < int sb then sign * ucast (drop_bit (nat (int sb - exponent)) significand)
         else sign * push_bit (nat (exponent - int sb)) (ucast significand))"

definition fixuint :: "nat \<Rightarrow> 'r::len word \<Rightarrow> 'f::len word" where
  "fixuint sb aRep =
     (let aAbs = aRep AND absMask sb;
          sign = (if aRep AND signBit sb \<noteq> 0 then - 1 else 1 :: int);
          exponent = int (unat (drop_bit sb aAbs)) - int (exponentBias TYPE('r) sb);
          significand = (aAbs AND significandMask sb) OR implicitBit sb
      in if sign = - 1 \<or> exponent < 0 then 0
         else if int LENGTH('f) \<le> exponent then NOT 0
         else if exponent < int sb then ucast (drop_bit (nat (int sb - exponent)) significand)
         else push_bit (nat (exponent - int sb)) (ucast significand))"

definition fixsfsi :: "32 word \<Rightarrow> 32 word" where "fixsfsi = fixint 23"
definition fixdfsi :: "64 word \<Rightarrow> 32 word" where "fixdfsi = fixint 52"
definition fixtfsi :: "128 word \<Rightarrow> 32 word" where "fixtfsi = fixint 112"
definition fixsfdi :: "32 word \<Rightarrow> 64 word" where "fixsfdi = fixint 23"
definition fixdfdi :: "64 word \<Rightarrow> 64 word" where "fixdfdi = fixint 52"
definition fixtfdi :: "128 word \<Rightarrow> 64 word" where "fixtfdi = fixint 112"
definition fixsfti :: "32 word \<Rightarrow> 128 word" where "fixsfti = fixint 23"
definition fixdfti :: "64 word \<Rightarrow> 128 word" where "fixdfti = fixint 52"
definition fixtfti :: "128 word \<Rightarrow> 128 word" where "fixtfti = fixint 112"
definition fixunssfsi :: "32 word \<Rightarrow> 32 word" where "fixunssfsi = fixuint 23"
definition fixunsdfsi :: "64 word \<Rightarrow> 32 word" where "fixunsdfsi = fixuint 52"
definition fixunstfsi :: "128 word \<Rightarrow> 32 word" where "fixunstfsi = fixuint 112"
definition fixunssfdi :: "32 word \<Rightarrow> 64 word" where "fixunssfdi = fixuint 23"
definition fixunsdfdi :: "64 word \<Rightarrow> 64 word" where "fixunsdfdi = fixuint 52"
definition fixunstfdi :: "128 word \<Rightarrow> 64 word" where "fixunstfdi = fixuint 112"
definition fixunssfti :: "32 word \<Rightarrow> 128 word" where "fixunssfti = fixuint 23"
definition fixunsdfti :: "64 word \<Rightarrow> 128 word" where "fixunsdfti = fixuint 52"
definition fixunstfti :: "128 word \<Rightarrow> 128 word" where "fixunstfti = fixuint 112"


subsection \<open>The parts of a representation\<close>

lemma fp_sign_bit:
  assumes "fp_format TYPE('r::len) sb"
  shows "(a :: 'r word) AND signBit sb \<noteq> 0 \<longleftrightarrow> fp_neg a"
proof -
  have "a AND push_bit k 1 \<noteq> 0 \<longleftrightarrow> bit a k" if "k < LENGTH('r)" for k
    using that by (simp add: push_bit_eq_mult and_exp_eq_0_iff_not_bit)
  then show ?thesis
    by (simp add: signBit_def format_width [OF assms] fp_neg_def)
qed

lemma fp_exponent_part:
  "fp_format TYPE('r::len) sb \<Longrightarrow> unat (drop_bit sb ((a :: 'r word) AND absMask sb)) = fp_abs a div 2 ^ sb"
  by (simp only: unat_high_digit unat_abs)

lemma or_implicitBit:
  assumes "sb < LENGTH('r::len)" "unat (x :: 'r word) < 2 ^ sb"
  shows "unat (x OR implicitBit sb) = 2 ^ sb + unat x"
proof -
  have "x AND push_bit sb 1 = 0"
    using assms by (auto simp: unat_small_bits bit_eq_iff [of _ 0] bit_simps)
  then have "x OR push_bit sb 1 = x + push_bit sb 1"
    by (rule disjunctive_add_eq_or [symmetric])
  moreover have one: "unat (push_bit sb 1 :: 'r word) = 2 ^ sb"
    using assms(1) unat_of_nat_small [of "2 ^ sb", where 'a = 'r] by (simp add: push_bit_eq_mult)
  moreover have "(2 :: nat) ^ sb + 2 ^ sb \<le> 2 ^ LENGTH('r)"
    using assms(1) power_increasing [of "Suc sb" "LENGTH('r)" "2 :: nat"] by simp
  ultimately show ?thesis
    using assms(2) by (simp add: implicitBit_def unat_add_small)
qed

lemma fp_significand_part:
  assumes "fp_format TYPE('r::len) sb"
  shows "unat (((a :: 'r word) AND absMask sb AND significandMask sb) OR implicitBit sb) = 2 ^ sb + fp_abs a mod 2 ^ sb"
proof -
  have "unat ((a AND absMask sb) AND significandMask sb) = fp_abs a mod 2 ^ sb"
    by (simp only: significandMask_mask unat_low_digit unat_abs [OF assms])
  then show ?thesis
    using assms or_implicitBit [of sb "(a AND absMask sb) AND significandMask sb"] by (simp add: fp_format_def and.assoc)
qed


subsection \<open>Numbers to integers\<close>

definition toward_zero :: "real \<Rightarrow> int" where
  "toward_zero v = (if v < 0 then - \<lfloor>- v\<rfloor> else \<lfloor>v\<rfloor>)"

text \<open>The magnitude of a number, in the cases that the routines distinguish.\<close>

lemma bias_pos: "fp_format TYPE('r::len) sb \<Longrightarrow> 0 < exponentBias TYPE('r) sb"
proof -
  assume "fp_format TYPE('r) sb"
  then have "(2 :: nat) ^ 2 \<le> 2 ^ exponentBits TYPE('r) sb"
    by (intro power_increasing) (auto simp: fp_format_def exponentBits_def)
  then show ?thesis
    by (simp add: exponentBias_def maxExponent_def)
qed

lemma fp_magnitude_small:
  assumes "fp_format TYPE('r::len) sb" "n div 2 ^ sb < exponentBias TYPE('r) sb"
  shows "fp_magnitude TYPE('r) sb n < 1"
proof -
  let ?B = "exponentBias TYPE('r) sb" and ?e = "n div 2 ^ sb" and ?m = "real (n mod 2 ^ sb) / 2 ^ sb"
  have m: "?m < 1" "0 \<le> ?m"
    by (simp_all add: divide_less_eq_1)
  show ?thesis
  proof (cases "?e = 0")
    case True
    have "(2 :: real) ^ 1 \<le> 2 ^ ?B"
      using bias_pos [OF assms(1)] by (intro power_increasing) simp_all
    then have "2 / 2 ^ ?B \<le> (1 :: real)"
      by simp
    then have "?m * (2 / 2 ^ ?B) \<le> ?m * 1"
      using m(2) by (rule mult_left_mono)
    then have "?m * (2 / 2 ^ ?B) < 1"
      using m(1) by (simp only: mult_1_right order_le_less_trans)
    then show ?thesis
      using True by (simp only: fp_magnitude_def Let_def if_True simp_thms)
  next
    case False
    have "(2 :: real) ^ Suc ?e \<le> 2 ^ ?B"
      using assms(2) by (intro power_increasing) simp_all
    then have q: "2 ^ ?e / 2 ^ ?B \<le> (1 / 2 :: real)"
      by (simp add: field_simps)
    have "(1 + ?m) * (2 ^ ?e / 2 ^ ?B) \<le> (1 + ?m) * (1 / 2)"
      using m(2) by (intro mult_left_mono [OF q]) simp
    also have "\<dots> < 1"
      using m(1) by simp
    finally show ?thesis
      using False by (simp add: fp_magnitude_def Let_def)
  qed
qed

lemma fp_magnitude_large:
  fixes n sb :: nat
  assumes "n div 2 ^ sb = exponentBias TYPE('r::len) sb + k" "0 < exponentBias TYPE('r) sb"
  defines "S \<equiv> 2 ^ sb + n mod 2 ^ sb"
  shows "fp_magnitude TYPE('r) sb n = real (S * 2 ^ k) / 2 ^ sb"
    and "2 ^ k \<le> fp_magnitude TYPE('r) sb n" and "fp_magnitude TYPE('r) sb n < 2 ^ Suc k"
    and "\<lfloor>fp_magnitude TYPE('r) sb n\<rfloor> = int (S * 2 ^ k div 2 ^ sb)"
proof -
  have "fp_magnitude TYPE('r) sb n = (1 + real (n mod 2 ^ sb) / 2 ^ sb) * 2 ^ k"
    using assms(1,2) by (simp add: fp_magnitude_def Let_def power_add)
  also have "\<dots> = real (S * 2 ^ k) / 2 ^ sb"
    by (simp add: S_def field_simps)
  finally show v: "fp_magnitude TYPE('r) sb n = real (S * 2 ^ k) / 2 ^ sb" .
  have S: "real (2 ^ sb) \<le> real S" "real S < real (2 * 2 ^ sb)"
    unfolding of_nat_le_iff of_nat_less_iff by (simp_all add: S_def)
  show "2 ^ k \<le> fp_magnitude TYPE('r) sb n" "fp_magnitude TYPE('r) sb n < 2 ^ Suc k"
    unfolding v using S by (simp_all add: field_simps)
  show "\<lfloor>fp_magnitude TYPE('r) sb n\<rfloor> = int (S * 2 ^ k div 2 ^ sb)"
    unfolding v using floor_divide_of_nat_eq [of "S * 2 ^ k" "2 ^ sb", where ?'a = real] by simp
qed

text \<open>The shifts give the integral part of the significand times the power.\<close>

lemma fp_shift:
  "int k < int sb \<Longrightarrow> ucast (drop_bit (nat (int sb - int k)) (x :: 'r::len word)) = (of_nat (unat x * 2 ^ k div 2 ^ sb) :: 'f::len word)"
  "\<not> int k < int sb \<Longrightarrow> push_bit (nat (int k - int sb)) (ucast (x :: 'r::len word)) = (of_nat (unat x * 2 ^ k div 2 ^ sb) :: 'f::len word)"
proof -
  have cast: "ucast y = (of_nat (unat y) :: 'f word)" for y :: "'r word"
    by simp
  show "ucast (drop_bit (nat (int sb - int k)) x) = (of_nat (unat x * 2 ^ k div 2 ^ sb) :: 'f word)" if "int k < int sb"
  proof -
    have "(2 :: nat) ^ sb = 2 ^ (sb - k) * 2 ^ k"
      using that by (simp flip: power_add)
    then show ?thesis
      unfolding cast unat_high_digit using that by (simp add: nat_diff_distrib')
  qed
  show "push_bit (nat (int k - int sb)) (ucast x) = (of_nat (unat x * 2 ^ k div 2 ^ sb) :: 'f word)" if "\<not> int k < int sb"
  proof -
    have "(2 :: nat) ^ k = 2 ^ (k - sb) * 2 ^ sb"
      using that by (simp flip: power_add)
    then have "unat x * 2 ^ k div 2 ^ sb = unat x * 2 ^ (k - sb)"
      by simp
    then show ?thesis
      unfolding cast using that by (simp add: push_bit_eq_mult nat_diff_distrib')
  qed
qed


text \<open>What the routines return, by the exponent.\<close>

lemma fixint_cases:
  fixes a :: "'r::len word"
  assumes f: "fp_format TYPE('r) sb"
  defines "e \<equiv> fp_abs a div 2 ^ sb" and "S \<equiv> 2 ^ sb + fp_abs a mod 2 ^ sb" and "B \<equiv> exponentBias TYPE('r) sb"
    and "s \<equiv> if fp_neg a then - 1 else 1"
  shows "e < B \<Longrightarrow> fixint sb a = (0 :: 'f::len word)"
    and "e = B + k \<Longrightarrow> LENGTH('f) \<le> k \<Longrightarrow> fixint sb a = (if s = 1 then NOT 0 div 2 else - (NOT 0 div 2) - 1 :: 'f word)"
    and "e = B + k \<Longrightarrow> k < LENGTH('f) \<Longrightarrow> fixint sb a = s * (of_nat (S * 2 ^ k div 2 ^ sb) :: 'f word)"
    and "fp_neg a \<or> e < B \<Longrightarrow> fixuint sb a = (0 :: 'f word)"
    and "\<not> fp_neg a \<Longrightarrow> e = B + k \<Longrightarrow> LENGTH('f) \<le> k \<Longrightarrow> fixuint sb a = (NOT 0 :: 'f word)"
    and "\<not> fp_neg a \<Longrightarrow> e = B + k \<Longrightarrow> k < LENGTH('f) \<Longrightarrow> fixuint sb a = (of_nat (S * 2 ^ k div 2 ^ sb) :: 'f word)"
proof -
  let ?x = "((a AND absMask sb) AND significandMask sb) OR implicitBit sb"
  have x: "unat ?x = S"
    using fp_significand_part [OF f, of a] by (simp add: S_def and.assoc)
  note simps = Let_def fp_sign_bit [OF f] fp_exponent_part [OF f] e_def [symmetric] B_def [symmetric]
  define E where "E = int e - int B"
  have fi: "fixint sb a =
      (if E < 0 then 0 else if int LENGTH('f) \<le> E then if s = 1 then NOT 0 div 2 else - (NOT 0 div 2) - 1
       else if E < int sb then s * ucast (drop_bit (nat (int sb - E)) ?x)
       else s * push_bit (nat (E - int sb)) (ucast ?x) :: 'f word)"
    by (simp only: fixint_def simps E_def s_def)
  have fu: "fixuint sb a =
      (if fp_neg a \<or> E < 0 then 0 else if int LENGTH('f) \<le> E then NOT 0
       else if E < int sb then ucast (drop_bit (nat (int sb - E)) ?x)
       else push_bit (nat (E - int sb)) (ucast ?x) :: 'f word)"
    by (cases "fp_neg a") (simp_all only: fixuint_def simps E_def if_True if_False simp_thms, simp_all)
  note shift = fp_shift [of k sb ?x, where 'f = 'f, unfolded x]
  have E: "E = int k" if "e = B + k"
    using that by (simp add: E_def)
  show "fixint sb a = (0 :: 'f word)" if "e < B"
    using that unfolding fi by (simp add: E_def)
  show "fixint sb a = (if s = 1 then NOT 0 div 2 else - (NOT 0 div 2) - 1 :: 'f word)" if "e = B + k" "LENGTH('f) \<le> k"
    using that unfolding fi E [OF that(1)] by simp
  show "fixint sb a = s * (of_nat (S * 2 ^ k div 2 ^ sb) :: 'f word)" if "e = B + k" "k < LENGTH('f)"
    using that shift unfolding fi E [OF that(1)] by (cases "int k < int sb") (simp_all only: if_True if_False, simp_all)
  show "fixuint sb a = (0 :: 'f word)" if "fp_neg a \<or> e < B"
    using that unfolding fu by (auto simp: E_def)
  show "fixuint sb a = (NOT 0 :: 'f word)" if "\<not> fp_neg a" "e = B + k" "LENGTH('f) \<le> k"
    using that unfolding fu E [OF that(2)] by simp
  show "fixuint sb a = (of_nat (S * 2 ^ k div 2 ^ sb) :: 'f word)" if "\<not> fp_neg a" "e = B + k" "k < LENGTH('f)"
    using that shift unfolding fu E [OF that(2)] by (cases "int k < int sb") (simp_all only: if_True if_False, simp_all)
qed


text \<open>A finite number lies in one of the ranges that the exponent distinguishes.\<close>

lemma fp_finite_cases:
  fixes a :: "'r::len word"
  assumes f: "fp_format TYPE('r) sb" and v: "fp_decode sb a = Finite v"
  defines "e \<equiv> fp_abs a div 2 ^ sb" and "S \<equiv> 2 ^ sb + fp_abs a mod 2 ^ sb" and "B \<equiv> exponentBias TYPE('r) sb"
  obtains (small) "e < B" "\<bar>v\<bar> < 1"
  | (large) k where "e = B + k" "2 ^ k \<le> \<bar>v\<bar>" "\<bar>v\<bar> < 2 ^ Suc k" "fp_neg a \<longleftrightarrow> v < 0" "\<lfloor>\<bar>v\<bar>\<rfloor> = int (S * 2 ^ k div 2 ^ sb)"
proof -
  let ?mag = "fp_magnitude TYPE('r) sb (fp_abs a)"
  have v': "v = (if fp_neg a then - ?mag else ?mag)" and abs: "\<bar>v\<bar> = ?mag"
    using v fp_magnitude_order(4) [of "TYPE('r)" sb "fp_abs a"] by (auto simp: fp_decode_def Let_def split: if_splits)
  show thesis
  proof (cases "e < B")
    case True
    then have "\<bar>v\<bar> < 1"
      unfolding abs using fp_magnitude_small [OF f, of "fp_abs a"] by (simp add: e_def B_def)
    with True show thesis
      by (rule small)
  next
    case False
    define k where "k = e - B"
    have k: "e = B + k"
      using False by (simp add: k_def)
    note m = fp_magnitude_large [where 'r = 'r, OF k [unfolded e_def B_def] bias_pos [OF f]]
    have "0 < ?mag"
      by (rule less_le_trans [OF _ m(2)]) simp
    then have "fp_neg a \<longleftrightarrow> v < 0"
      by (simp add: v')
    with k m show thesis
      by (intro large [of k]) (simp_all add: abs S_def)
  qed
qed

lemma toward_zero_abs: "toward_zero v = (if v < 0 then - \<lfloor>\<bar>v\<bar>\<rfloor> else \<lfloor>\<bar>v\<bar>\<rfloor>)"
  by (simp add: toward_zero_def)

lemma power_separates:
  fixes x :: real
  assumes "2 ^ k \<le> x" "x < 2 ^ Suc k"
  shows "2 ^ W \<le> x \<longleftrightarrow> W \<le> k"
proof
  assume "W \<le> k"
  then have "(2 :: real) ^ W \<le> 2 ^ k"
    by (intro power_increasing) simp_all
  from this assms(1) show "2 ^ W \<le> x"
    by (rule order_trans)
next
  assume "2 ^ W \<le> x"
  then have "(2 :: real) ^ W < 2 ^ Suc k"
    using assms(2) by simp
  then have "W < Suc k"
    by (rule power_less_imp_less_exp [rotated]) simp
  then show "W \<le> k"
    by simp
qed

theorem fixint_ok:
  fixes a :: "'r::len word"
  assumes f: "fp_format TYPE('r) sb" and v: "fp_decode sb a = Finite v" and w: "1 < LENGTH('f::len)"
  shows "fixint sb a =
    (if 2 ^ LENGTH('f) \<le> \<bar>v\<bar> then if v < 0 then - (NOT 0 div 2) - 1 else NOT 0 div 2
     else word_of_int (toward_zero v) :: 'f word)"
proof -
  have one: "(- 1 :: 'f word) \<noteq> 1"
    using w by (metis bit_minus_1_iff bit_1_iff possible_bit_word less_numeral_extra(1) nat_neq_iff zero_neq_one)
  have pow: "(1 :: real) \<le> 2 ^ LENGTH('f)"
    by (rule one_le_power) simp
  from f v show ?thesis
  proof (cases rule: fp_finite_cases)
    case small
    then have "\<lfloor>\<bar>v\<bar>\<rfloor> = 0"
      by (simp add: floor_eq_iff)
    then have "toward_zero v = 0"
      unfolding toward_zero_abs by (simp only: if_cancel minus_zero)
    moreover have "\<not> 2 ^ LENGTH('f) \<le> \<bar>v\<bar>"
      using small(2) pow by linarith
    ultimately show ?thesis
      using fixint_cases(1) [OF f small(1), where 'f = 'f] by (simp only: if_False of_int_0)
  next
    case (large k)
    note sep = power_separates [OF large(2,3), of "LENGTH('f)"]
    show ?thesis
    proof (cases "LENGTH('f) \<le> k")
      case True
      then show ?thesis
        using fixint_cases(2) [OF f large(1) True] sep large(4) one by simp
    next
      case False
      let ?T = "(2 ^ sb + fp_abs a mod 2 ^ sb) * 2 ^ k div 2 ^ sb :: nat"
      have "toward_zero v = (if v < 0 then - int ?T else int ?T)"
        by (simp only: toward_zero_abs large(5))
      then show ?thesis
        using fixint_cases(3) [OF f large(1), where 'f = 'f] sep large(4) False by simp
    qed
  qed
qed

theorem fixuint_ok:
  fixes a :: "'r::len word"
  assumes f: "fp_format TYPE('r) sb" and v: "fp_decode sb a = Finite v"
  shows "uint (fixuint sb a :: 'f::len word) = min (2 ^ LENGTH('f) - 1) (max 0 \<lfloor>v\<rfloor>)"
proof (cases "fp_neg a")
  case True
  then have "v \<le> 0"
    using v fp_magnitude_order(4) [of "TYPE('r)" sb "fp_abs a"] by (auto simp: fp_decode_def Let_def split: if_splits)
  then have "\<lfloor>v\<rfloor> \<le> 0"
    by simp
  then show ?thesis
    using fixint_cases(4) [OF f, of a, where 'f = 'f] True by simp
next
  case pos: False
  then have v0: "0 \<le> v"
    using v fp_magnitude_order(4) [of "TYPE('r)" sb "fp_abs a"] by (auto simp: fp_decode_def Let_def split: if_splits)
  from f v show ?thesis
  proof (cases rule: fp_finite_cases)
    case small
    then have "\<lfloor>v\<rfloor> = 0"
      using v0 by (simp add: floor_eq_iff)
    then show ?thesis
      using fixint_cases(4) [OF f, of a, where 'f = 'f] small(1) by simp
  next
    case (large k)
    note sep = power_separates [OF large(2,3), of "LENGTH('f)"]
    have le: "2 ^ LENGTH('f) \<le> \<lfloor>v\<rfloor> \<longleftrightarrow> LENGTH('f) \<le> k"
      using sep v0 by (simp add: le_floor_iff)
    show ?thesis
    proof (cases "LENGTH('f) \<le> k")
      case True
      then have "2 ^ LENGTH('f) \<le> \<lfloor>v\<rfloor>"
        using le by simp
      then have "min (2 ^ LENGTH('f) - 1) (max 0 \<lfloor>v\<rfloor>) = 2 ^ LENGTH('f) - 1"
        by linarith
      then show ?thesis
        using fixint_cases(5) [OF f pos large(1) True] by (simp add: unsigned_minus_1_eq_mask mask_eq_exp_minus_1)
    next
      case False
      let ?T = "(2 ^ sb + fp_abs a mod 2 ^ sb) * 2 ^ k div 2 ^ sb :: nat"
      have fl: "\<lfloor>v\<rfloor> = int ?T"
        using large(5) v0 by simp
      then have "int ?T < 2 ^ LENGTH('f)"
        using le False by linarith
      then have "uint (of_nat ?T :: 'f word) = int ?T"
        by (simp add: unsigned_of_nat take_bit_nat_eq_self)
      moreover have "fixuint sb a = (of_nat ?T :: 'f word)"
        using fixint_cases(6) [OF f pos large(1), where 'f = 'f] False by simp
      ultimately show ?thesis
        using fl \<open>int ?T < 2 ^ LENGTH('f)\<close> by simp
    qed
  qed
qed


text \<open>
  As signed numbers: in range the result is exact, far out of range it saturates.  In between, where only
  the sign bit of the result is missing, the shift runs into it and the result has the wrong sign.
\<close>

lemma int_extremes:
  assumes "1 < LENGTH('f::len)"
  shows "sint (NOT 0 div 2 :: 'f word) = 2 ^ (LENGTH('f) - 1) - 1" and "sint (- (NOT 0 div 2) - 1 :: 'f word) = - (2 ^ (LENGTH('f) - 1))"
proof -
  have half: "NOT 0 div 2 = (drop_bit 1 (NOT 0) :: 'f word)"
    by (simp only: drop_bit_eq_div power_one_right)
  have max: "NOT 0 div 2 = (NOT INT_MIN :: 'f word)"
    unfolding half by (rule bit_word_eqI) (auto simp: bit_simps INT_MIN_def)
  show "sint (NOT 0 div 2 :: 'f word) = 2 ^ (LENGTH('f) - 1) - 1"
    unfolding max by (rule sint_NOT_INT_MIN)
  have "- (NOT INT_MIN) - 1 = (INT_MIN :: 'f word)"
    by (simp add: not_eq_complement)
  then show "sint (- (NOT 0 div 2) - 1 :: 'f word) = - (2 ^ (LENGTH('f) - 1))"
    unfolding max by (simp only: sint_INT_MIN)
qed

lemma sint_fixint:
  fixes a :: "'r::len word" and W :: nat
  assumes f: "fp_format TYPE('r) sb" and v: "fp_decode sb a = Finite v" and w: "1 < LENGTH('f::len)"
  defines "r \<equiv> sint (fixint sb a :: 'f word)" and "H \<equiv> 2 ^ (LENGTH('f) - 1)"
  shows "- H \<le> toward_zero v \<Longrightarrow> toward_zero v < H \<Longrightarrow> r = toward_zero v"
    and "2 ^ LENGTH('f) \<le> \<bar>v\<bar> \<Longrightarrow> r = (if v < 0 then - H else H - 1)"
    and "H \<le> toward_zero v \<Longrightarrow> \<bar>v\<bar> < 2 ^ LENGTH('f) \<Longrightarrow> r = toward_zero v - 2 * H"
    and "toward_zero v < - H \<Longrightarrow> \<bar>v\<bar> < 2 ^ LENGTH('f) \<Longrightarrow> r = toward_zero v + 2 * H"
proof -
  have W: "(2 :: int) ^ LENGTH('f) = 2 * H"
    unfolding H_def by (rule double_half)
  have small: "fixint sb a = (word_of_int (toward_zero v) :: 'f word)" if "\<bar>v\<bar> < 2 ^ LENGTH('f)"
    using fixint_ok [OF f v w] that by simp
  show "r = toward_zero v" if r: "- H \<le> toward_zero v" "toward_zero v < H"
  proof -
    have "\<lfloor>\<bar>v\<bar>\<rfloor> < 2 ^ LENGTH('f)"
      using r unfolding W toward_zero_abs by (cases "v < 0") simp_all
    then have "\<bar>v\<bar> < 2 ^ LENGTH('f)"
      by (simp add: floor_less_iff)
    then show ?thesis
      using r by (simp add: r_def small sint_word_of_int fits_def H_def)
  qed
  show "r = (if v < 0 then - H else H - 1)" if "2 ^ LENGTH('f) \<le> \<bar>v\<bar>"
    using fixint_ok [OF f v w] that int_extremes [OF w] by (simp add: r_def H_def)
  show "r = toward_zero v - 2 * H" if "H \<le> toward_zero v" "\<bar>v\<bar> < 2 ^ LENGTH('f)"
  proof -
    have "\<lfloor>\<bar>v\<bar>\<rfloor> < 2 ^ LENGTH('f)"
      using that(2) by (simp add: floor_less_iff)
    moreover have "0 \<le> v"
    proof (rule ccontr)
      assume neg: "\<not> 0 \<le> v"
      then have "0 \<le> \<lfloor>- v\<rfloor>"
        by simp
      moreover have "0 < H"
        by (simp add: H_def)
      moreover have "toward_zero v = - \<lfloor>- v\<rfloor>"
        using neg by (simp add: toward_zero_def)
      ultimately show False
        using that(1) by linarith
    qed
    ultimately have "toward_zero v < 2 * H"
      by (simp add: toward_zero_def W)
    then have "fits TYPE('f) (toward_zero v - 2 * H)"
      using that(1) by (simp add: fits_def H_def)
    moreover have "word_of_int (toward_zero v) = (word_of_int (toward_zero v - 2 * H) :: 'f word)"
      by (simp flip: W)
    ultimately show ?thesis
      by (simp only: r_def small [OF that(2)] sint_word_of_int)
  qed
  show "r = toward_zero v + 2 * H" if "toward_zero v < - H" "\<bar>v\<bar> < 2 ^ LENGTH('f)"
  proof -
    have "\<lfloor>\<bar>v\<bar>\<rfloor> < 2 * H"
      using that(2) by (simp add: floor_less_iff flip: W)
    moreover have "\<bar>toward_zero v\<bar> = \<lfloor>\<bar>v\<bar>\<rfloor>"
      by (simp add: toward_zero_def)
    ultimately have "- (2 * H) < toward_zero v"
      by linarith
    then have "fits TYPE('f) (toward_zero v + 2 * H)"
      using that(1) by (simp add: fits_def H_def)
    moreover have "word_of_int (toward_zero v) = (word_of_int (toward_zero v + 2 * H) :: 'f word)"
      by (simp flip: W)
    ultimately show ?thesis
      by (simp only: r_def small [OF that(2)] sint_word_of_int)
  qed
qed


text \<open>What the conversions promise for a number: a signed result and an unsigned one.\<close>

definition truncates :: "real \<Rightarrow> 'f::len word \<Rightarrow> bool" where
  "truncates v r \<longleftrightarrow>
     (let H = 2 ^ (LENGTH('f) - 1)
      in (- H \<le> toward_zero v \<and> toward_zero v < H \<longrightarrow> sint r = toward_zero v)
         \<and> (2 ^ LENGTH('f) \<le> \<bar>v\<bar> \<longrightarrow> sint r = (if v < 0 then - H else H - 1))
         \<and> (H \<le> toward_zero v \<and> \<bar>v\<bar> < 2 ^ LENGTH('f) \<longrightarrow> sint r = toward_zero v - 2 * H)
         \<and> (toward_zero v < - H \<and> \<bar>v\<bar> < 2 ^ LENGTH('f) \<longrightarrow> sint r = toward_zero v + 2 * H))"

definition clamps :: "real \<Rightarrow> 'f::len word \<Rightarrow> bool" where
  "clamps v r \<longleftrightarrow> uint r = min (2 ^ LENGTH('f) - 1) (max 0 \<lfloor>v\<rfloor>)"

lemma fixint_truncates:
  "fp_format TYPE('r::len) sb \<Longrightarrow> fp_decode sb (a :: 'r word) = Finite v \<Longrightarrow> 1 < LENGTH('f::len) \<Longrightarrow> truncates v (fixint sb a :: 'f word)"
  unfolding truncates_def Let_def using sint_fixint [of sb a v, where 'f = 'f] by simp

lemma fixuint_clamps:
  "fp_format TYPE('r::len) sb \<Longrightarrow> fp_decode sb (a :: 'r word) = Finite v \<Longrightarrow> clamps v (fixuint sb a :: 'f::len word)"
  unfolding clamps_def by (rule fixuint_ok)


subsection \<open>Integers to numbers: floatsisf.c and its relatives\<close>

text \<open>
  The text of the unsigned routines after the test for zero.  \<open>float_exact\<close> is the one for formats that hold
  every integer of the type, \<open>float_round\<close> the one for 32 bit integers in single precision.
\<close>

definition float_exact :: "nat \<Rightarrow> 'i::len word \<Rightarrow> 'r::len word" where
  "float_exact sb a =
     (let exponent = LENGTH('i) - 1 - builtin_clz a; shift = sb - exponent;
          result = push_bit shift (ucast a) XOR implicitBit sb
      in result + push_bit sb (of_nat (exponent + exponentBias TYPE('r) sb)))"

definition float_round :: "nat \<Rightarrow> 'r::len word \<Rightarrow> 'r word" where
  "float_round sb a =
     (let exponent = LENGTH('r) - 1 - builtin_clz a;
          result =
            (if exponent \<le> sb then push_bit (sb - exponent) a XOR implicitBit sb
             else let shift = exponent - sb;
                      result = drop_bit shift a XOR implicitBit sb;
                      rnd = push_bit (LENGTH('r) - shift) a;
                      result = (if signBit sb < rnd then result + 1 else result)
                  in if rnd = signBit sb then result + (result AND 1) else result)
      in result + push_bit sb (of_nat (exponent + exponentBias TYPE('r) sb)))"

definition float_unsigned :: "('i::len word \<Rightarrow> 'r::len word) \<Rightarrow> 'i word \<Rightarrow> 'r word" where
  "float_unsigned conv a = (if a = 0 then 0 else conv a)"

definition float_signed :: "nat \<Rightarrow> ('i::len word \<Rightarrow> 'r::len word) \<Rightarrow> 'i word \<Rightarrow> 'r word" where
  "float_signed sb conv a =
     (if a = 0 then 0
      else let sign = (if a <s 0 then signBit sb else 0); aAbs = (if a <s 0 then - a else a)
           in conv aAbs OR sign)"

definition floatsisf :: "32 word \<Rightarrow> 32 word" where "floatsisf = float_signed 23 (float_round 23)"
definition floatunsisf :: "32 word \<Rightarrow> 32 word" where "floatunsisf = float_unsigned (float_round 23)"
definition floatsidf :: "32 word \<Rightarrow> 64 word" where "floatsidf = float_signed 52 (float_exact 52)"
definition floatunsidf :: "32 word \<Rightarrow> 64 word" where "floatunsidf = float_unsigned (float_exact 52)"
definition floatsitf :: "32 word \<Rightarrow> 128 word" where "floatsitf = float_signed 112 (float_exact 112)"
definition floatunsitf :: "32 word \<Rightarrow> 128 word" where "floatunsitf = float_unsigned (float_exact 112)"
definition floatditf :: "64 word \<Rightarrow> 128 word" where "floatditf = float_signed 112 (float_exact 112)"
definition floatunditf :: "64 word \<Rightarrow> 128 word" where "floatunditf = float_unsigned (float_exact 112)"

text \<open>Rounding to a multiple of a power of two, to the nearest and on a tie to the even one.\<close>

definition round_even :: "nat \<Rightarrow> nat \<Rightarrow> nat" where
  "round_even s a =
     (let q = a div 2 ^ s; r = a mod 2 ^ s
      in if 2 ^ s < 2 * r \<or> 2 ^ s = 2 * r \<and> odd q then q + 1 else q)"

lemma round_even_0 [simp]: "round_even 0 a = a"
  by (simp add: round_even_def)

text \<open>It is a nearest multiple, and an even one when there are two.\<close>

lemma round_even_nearest:
  "2 * \<bar>int (round_even s a * 2 ^ s) - int a\<bar> \<le> 2 ^ s"
  "2 * \<bar>int (round_even s a * 2 ^ s) - int a\<bar> = 2 ^ s \<Longrightarrow> 0 < s \<Longrightarrow> even (round_even s a)"
proof -
  define b q r where "b = (2 :: nat) ^ s" and "q = a div b" and "r = a mod b"
  have a: "a = q * b + r" and r: "r < b"
    unfolding q_def r_def by (simp_all only: div_mult_mod_eq) (simp add: b_def)
  have b2: "(2 :: int) ^ s = int b"
    by (simp add: b_def)
  have e: "round_even s a = (if b < 2 * r \<or> b = 2 * r \<and> odd q then q + 1 else q)"
    by (simp add: round_even_def Let_def b_def q_def r_def)
  have up: "int ((q + 1) * b) - int a = int b - int r" and down: "int (q * b) - int a = - int r"
    using r by (simp_all add: a algebra_simps)
  have dist: "\<bar>int (round_even s a * 2 ^ s) - int a\<bar> = (if b < 2 * r \<or> b = 2 * r \<and> odd q then int b - int r else int r)"
  proof (cases "b < 2 * r \<or> b = 2 * r \<and> odd q")
    case True
    then have "round_even s a = q + 1"
      by (simp add: e)
    then show ?thesis
      using True r by (simp only: up b_def [symmetric] if_True)
  next
    case False
    then have "round_even s a = q"
      by (simp add: e)
    then show ?thesis
      using False by (simp only: down b_def [symmetric] if_False)
  qed
  show "2 * \<bar>int (round_even s a * 2 ^ s) - int a\<bar> \<le> 2 ^ s"
    unfolding dist b2 using r by auto
  show "even (round_even s a)" if "2 * \<bar>int (round_even s a * 2 ^ s) - int a\<bar> = 2 ^ s" "0 < s"
  proof -
    have "2 * (if b < 2 * r \<or> b = 2 * r \<and> odd q then int b - int r else int r) = int b"
      using that(1) unfolding dist b2 .
    then show ?thesis
      unfolding e by (auto split: if_splits)
  qed
qed


subsection \<open>Assembling a representation\<close>

lemma xor_implicitBit:
  fixes x :: "'r::len word"
  assumes "sb < LENGTH('r)" "2 ^ sb \<le> unat x" "unat x < 2 * 2 ^ sb"
  shows "unat (x XOR implicitBit sb) = unat x - 2 ^ sb"
proof -
  define y where "y = x - push_bit sb 1"
  have one: "unat (push_bit sb 1 :: 'r word) = 2 ^ sb"
    using assms(1) unat_of_nat_small [of "2 ^ sb", where 'a = 'r] by (simp add: push_bit_eq_mult)
  then have y: "unat y = unat x - 2 ^ sb"
    using assms(2) by (simp add: y_def unat_sub_small)
  then have "unat y < 2 ^ sb"
    using assms(2,3) by simp
  then have none: "y AND push_bit sb 1 = 0"
    by (auto simp: unat_small_bits bit_eq_iff [of _ 0] bit_simps)
  then have "y + push_bit sb 1 = y OR push_bit sb 1"
    by (rule disjunctive_add_eq_or)
  then have "x = y OR push_bit sb 1"
    by (simp add: y_def)
  then have "x XOR push_bit sb 1 = y"
    using none by (auto simp: bit_eq_iff bit_simps)
  then show ?thesis
    by (simp add: implicitBit_def y)
qed

lemma fp_abs_small:
  assumes "unat (x :: 'r::len word) < 2 ^ (LENGTH('r) - 1)"
  shows "fp_abs x = unat x" and "\<not> fp_neg x"
  using assms by (simp_all add: fp_abs_def fp_neg_def unsigned_take_bit_eq take_bit_nat_eq_self unat_small_bits)

text \<open>
  A significand with its leading bit, or one that a carry made twice as large, under an exponent.
\<close>

lemma fp_magnitude_at:
  assumes "fp_format TYPE('r::len) sb" "2 ^ sb \<le> M" "M \<le> 2 * 2 ^ sb" "0 < E"
  shows "fp_magnitude TYPE('r) sb (M - 2 ^ sb + E * 2 ^ sb) = real M * 2 ^ E / (2 ^ exponentBias TYPE('r) sb * 2 ^ sb)"
    and "(M - 2 ^ sb + E * 2 ^ sb) div 2 ^ sb \<in> {E, E + 1}"
proof -
  let ?b = "2 ^ sb :: nat" and ?B = "2 ^ exponentBias TYPE('r) sb :: real"
  show "fp_magnitude TYPE('r) sb (M - ?b + E * ?b) = real M * 2 ^ E / (?B * 2 ^ sb)"
  proof (cases "M = 2 * ?b")
    case True
    then have "M - ?b + E * ?b = (E + 1) * ?b"
      by simp
    then have "(M - ?b + E * ?b) div ?b = E + 1" "(M - ?b + E * ?b) mod ?b = 0"
      by simp_all
    then show ?thesis
      unfolding fp_magnitude_def Let_def using True by (simp add: field_simps)
  next
    case False
    then have "M - ?b < ?b"
      using assms(2,3) by simp
    then have "(M - ?b + E * ?b) div ?b = E" "(M - ?b + E * ?b) mod ?b = M - ?b"
      by simp_all
    then show ?thesis
      unfolding fp_magnitude_def Let_def using assms(2,4) by (simp add: field_simps of_nat_diff)
  qed
  have "(M - ?b + E * ?b) div ?b = (M - ?b) div ?b + E"
    by simp
  moreover have "(M - ?b) div ?b \<le> 1"
    using assms(3) div_le_mono [of "M - ?b" ?b ?b] by simp
  ultimately show "(M - ?b + E * ?b) div ?b \<in> {E, E + 1}"
    by auto
qed

lemma fp_decode_finite:
  assumes "fp_abs (x :: 'r::len word) div 2 ^ sb < maxExponent TYPE('r) sb"
  shows "fp_decode sb x = Finite ((if fp_neg x then - 1 else 1) * fp_magnitude TYPE('r) sb (fp_abs x))"
  using assms by (simp add: fp_decode_def Let_def)

lemma insert_exponent:
  fixes x :: "'r::len word"
  assumes f: "fp_format TYPE('r) sb" and x: "unat x = M - 2 ^ sb" "2 ^ sb \<le> M" "M \<le> 2 * 2 ^ sb"
    and E: "0 < E" "E + 1 < maxExponent TYPE('r) sb"
  defines "r \<equiv> x + push_bit sb (of_nat E)"
  shows "unat r = M - 2 ^ sb + E * 2 ^ sb" and "unat r < 2 ^ (LENGTH('r) - 1)"
    and "fp_decode sb r = Finite (real M * 2 ^ E / (2 ^ exponentBias TYPE('r) sb * 2 ^ sb))" and "\<not> fp_neg r"
proof -
  let ?b = "2 ^ sb :: nat" and ?M = "maxExponent TYPE('r) sb"
  have bound: "M - ?b + E * ?b < 2 ^ (LENGTH('r) - 1)"
  proof -
    have "M - ?b + E * ?b \<le> (E + 1) * ?b"
      using x(3) by simp
    also have "\<dots> < 2 ^ exponentBits TYPE('r) sb * ?b"
      using E(2) by (intro mult_strict_right_mono) (simp_all add: maxExponent_def)
    finally show ?thesis
      by (simp only: format_power [OF f])
  qed
  also have half: "(2 :: nat) ^ (LENGTH('r) - 1) \<le> 2 ^ LENGTH('r)"
    by (rule power_increasing) simp_all
  finally have "E * ?b < 2 ^ LENGTH('r)" and sum: "M - ?b + E * ?b < 2 ^ LENGTH('r)"
    by simp_all
  then have "unat (push_bit sb (of_nat E) :: 'r word) = E * ?b"
    using unat_of_nat_small [of "E * ?b", where 'a = 'r] by (simp add: push_bit_eq_mult)
  then show u: "unat r = M - ?b + E * ?b"
    unfolding r_def using sum x(1) by (simp add: unat_add_small)
  then show lt: "unat r < 2 ^ (LENGTH('r) - 1)"
    using bound by simp
  note abs = fp_abs_small [OF lt]
  show "\<not> fp_neg r"
    by (rule abs(2))
  note mag = fp_magnitude_at [OF f x(2,3) E(1)]
  have "fp_abs r div ?b < ?M"
    unfolding abs(1) u using mag(2) E(2) by auto
  then show "fp_decode sb r = Finite (real M * 2 ^ E / (2 ^ exponentBias TYPE('r) sb * 2 ^ sb))"
    using mag(1) abs u by (simp add: fp_decode_finite)
qed


subsection \<open>Conversion rounds to the nearest\<close>

text \<open>The integer nearest to \<open>A\<close> with at most \<open>sb + 1\<close> significant bits, a tie going to the even significand.\<close>

definition rounded :: "nat \<Rightarrow> nat \<Rightarrow> nat" where
  "rounded sb A = (let s = nbits A - (sb + 1) in round_even s A * 2 ^ s)"

lemma clz_exponent: "LENGTH('i) - 1 - builtin_clz (a :: 'i::len word) = nbits (unat a) - 1"
  using nbits_unat [of a] by (simp add: builtin_clz_def)

text \<open>A significand whose leading bit is bit \<open>k\<close> of an integer.\<close>

lemma insert_integer_exponent:
  fixes x :: "'r::len word"
  assumes f: "fp_format TYPE('r) sb" and x: "unat x = M - 2 ^ sb" "2 ^ sb \<le> M" "M \<le> 2 * 2 ^ sb"
    and k: "k < exponentBias TYPE('r) sb"
  defines "r \<equiv> x + push_bit sb (of_nat (k + exponentBias TYPE('r) sb))"
  shows "fp_decode sb r = Finite (real M * 2 ^ k / 2 ^ sb)" and "\<not> fp_neg r" and "unat r < 2 ^ (LENGTH('r) - 1)"
proof -
  let ?B = "exponentBias TYPE('r) sb"
  have "0 < ?B"
    by (rule bias_pos [OF f])
  have "2 * ?B \<le> maxExponent TYPE('r) sb"
    by (simp add: exponentBias_def)
  moreover have "odd (maxExponent TYPE('r) sb)"
    using f by (simp add: maxExponent_def exponentBits_def fp_format_def)
  ultimately have "2 * ?B < maxExponent TYPE('r) sb"
    by (metis dvd_triv_left le_neq_implies_less)
  then have E: "0 < k + ?B" "k + ?B + 1 < maxExponent TYPE('r) sb"
    using k \<open>0 < ?B\<close> by simp_all
  note ins = insert_exponent [OF f x E, folded r_def]
  show "fp_decode sb r = Finite (real M * 2 ^ k / 2 ^ sb)"
    unfolding ins(3) by (simp add: power_add)
  show "\<not> fp_neg r" "unat r < 2 ^ (LENGTH('r) - 1)"
    by (rule ins(4), rule ins(2))
qed

lemma leading_bit:
  assumes "A \<noteq> 0"
  shows "2 ^ (nbits A - 1) \<le> A" and "A < 2 * 2 ^ (nbits A - 1)"
  using nbits_bounds [of A] assms nbits_pos [of A] by (simp_all flip: power_Suc)

lemma normalized:
  assumes "A \<noteq> 0" "nbits A - 1 \<le> sb"
  shows "2 ^ sb \<le> A * 2 ^ (sb - (nbits A - 1))" and "A * 2 ^ (sb - (nbits A - 1)) < 2 * 2 ^ sb"
proof -
  let ?k = "nbits A - 1"
  have p: "2 ^ sb = 2 ^ ?k * (2 :: nat) ^ (sb - ?k)"
    using assms(2) by (simp flip: power_add)
  show "2 ^ sb \<le> A * 2 ^ (sb - ?k)" "A * 2 ^ (sb - ?k) < 2 * 2 ^ sb"
    unfolding p using leading_bit [OF assms(1)] by (simp_all flip: mult.assoc)
qed

lemma float_exact_ok:
  fixes a :: "'i::len word"
  assumes f: "fp_format TYPE('r::len) sb" and a: "a \<noteq> 0" and w: "nbits (unat a) \<le> sb + 1" "nbits (unat a) \<le> exponentBias TYPE('r) sb"
  defines "r \<equiv> float_exact sb a :: 'r word"
  shows "fp_decode sb r = Finite (real (rounded sb (unat a)))" and "\<not> fp_neg r" and "unat r < 2 ^ (LENGTH('r) - 1)"
proof -
  let ?A = "unat a"
  define k where "k = nbits ?A - 1"
  have A: "?A \<noteq> 0"
    using a by simp
  then have "0 < nbits ?A"
    using nbits_pos [of ?A] by blast
  then have k: "k \<le> sb" "k < exponentBias TYPE('r) sb" "nbits ?A - (sb + 1) = 0"
    using w by (simp_all add: k_def)
  let ?M = "?A * 2 ^ (sb - k)"
  note M = normalized [OF A k(1) [unfolded k_def], folded k_def]
  have sb: "sb < LENGTH('r)" and "(2 :: nat) * 2 ^ sb \<le> 2 ^ LENGTH('r)"
    using f power_increasing [of "Suc sb" "LENGTH('r)" "2 :: nat"] by (simp_all add: fp_format_def)
  then have "?M < 2 ^ LENGTH('r)"
    using M(2) by simp
  then have "unat (of_nat ?M :: 'r word) = ?M"
    by (rule unat_of_nat_small)
  moreover have "push_bit (sb - k) (ucast a) = (of_nat ?M :: 'r word)"
    by (simp add: push_bit_eq_mult)
  ultimately have x: "unat (push_bit (sb - k) (ucast a) XOR implicitBit sb :: 'r word) = ?M - 2 ^ sb"
    using xor_implicitBit [OF sb, of "of_nat ?M"] M by simp
  have r: "r = (push_bit (sb - k) (ucast a) XOR implicitBit sb) + push_bit sb (of_nat (k + exponentBias TYPE('r) sb))"
    by (simp only: r_def float_exact_def Let_def clz_exponent k_def)
  note ins = insert_integer_exponent [OF f x M(1) less_imp_le [OF M(2)] k(2), folded r]
  have "?M * 2 ^ k = ?A * 2 ^ sb"
    using k(1) by (simp add: mult.assoc flip: power_add)
  then have "real ?M * 2 ^ k / 2 ^ sb = real ?A"
    by (metis (no_types, lifting) nonzero_mult_div_cancel_right of_nat_mult of_nat_numeral of_nat_power power_eq_0_iff zero_neq_numeral)
  then show "fp_decode sb r = Finite (real (rounded sb ?A))"
    using ins(1) k(3) by (simp add: rounded_def Let_def)
  show "\<not> fp_neg r" "unat r < 2 ^ (LENGTH('r) - 1)"
    by (rule ins(2), rule ins(3))
qed


text \<open>The bits that are shifted out, aligned to the top of the word, against half of a unit.\<close>

lemma round_test:
  fixes a :: "'r::len word"
  assumes "0 < s" "s < LENGTH('r)" "h = (push_bit (LENGTH('r) - 1) 1 :: 'r word)"
  defines "t \<equiv> push_bit (LENGTH('r) - s) a" and "rem \<equiv> unat a mod 2 ^ s"
  shows "h < t \<longleftrightarrow> 2 ^ s < 2 * rem" and "t = h \<longleftrightarrow> 2 ^ s = 2 * rem"
proof -
  let ?L = "LENGTH('r)" and ?p = "2 ^ (LENGTH('r) - s) :: nat"
  have L: "(2 :: nat) ^ ?L = 2 ^ s * ?p"
    using assms(2) by (simp flip: power_add)
  have "unat t = unat a * ?p mod 2 ^ ?L"
    unfolding t_def unsigned_push_bit_eq by (simp add: push_bit_eq_mult take_bit_eq_mod)
  then have t: "unat t = rem * ?p"
    unfolding L rem_def by (simp add: mult_mod_left)
  have h: "unat h = 2 ^ (?L - 1)"
    using unat_of_nat_small [of "2 ^ (?L - 1)", where 'a = 'r] by (simp add: assms(3) push_bit_eq_mult)
  have two: "2 * 2 ^ (?L - 1) = 2 ^ s * ?p"
    unfolding L [symmetric] by (metis One_nat_def Suc_pred len_gt_0 power_Suc)
  have "h < t \<longleftrightarrow> 2 * 2 ^ (?L - 1) < 2 * (rem * ?p)"
    by (simp add: word_less_nat_alt t h)
  also have "\<dots> \<longleftrightarrow> 2 ^ s * ?p < 2 * rem * ?p"
    by (simp only: two mult.assoc)
  finally show "h < t \<longleftrightarrow> 2 ^ s < 2 * rem"
    by simp
  have "t = h \<longleftrightarrow> 2 * 2 ^ (?L - 1) = 2 * (rem * ?p)"
    unfolding word_unat_eq_iff t h by auto
  also have "\<dots> \<longleftrightarrow> 2 ^ s * ?p = 2 * rem * ?p"
    by (simp only: two mult.assoc)
  finally show "t = h \<longleftrightarrow> 2 ^ s = 2 * rem"
    by simp
qed

lemma unat_and_1: "unat ((x :: 'a::len word) AND 1) = unat x mod 2"
  using unat_low_digit [of x 1] by (simp add: mask_eq_exp_minus_1)

lemma round_up:
  fixes x h t :: "'r::len word"
  assumes sb: "0 < sb" "(2 :: nat) * 2 ^ sb < 2 ^ LENGTH('r)" and q: "2 ^ sb \<le> q" "q < 2 * 2 ^ sb" and x: "unat x = q - 2 ^ sb"
    and t: "h < t \<longleftrightarrow> 2 ^ s < 2 * rem" "t = h \<longleftrightarrow> 2 ^ s = 2 * rem" and A: "q = A div 2 ^ s" "rem = A mod 2 ^ s"
  defines "y \<equiv> if h < t then x + 1 else x"
  shows "unat (if t = h then y + (y AND 1) else y) = round_even s A - 2 ^ sb"
    and "2 ^ sb \<le> round_even s A" "round_even s A \<le> 2 * 2 ^ sb"
proof -
  have re: "round_even s A = (if 2 ^ s < 2 * rem \<or> 2 ^ s = 2 * rem \<and> odd q then q + 1 else q)"
    by (simp add: round_even_def Let_def A)
  show "2 ^ sb \<le> round_even s A" "round_even s A \<le> 2 * 2 ^ sb"
    using q unfolding re by auto
  have up: "unat (x + of_nat d) = q - 2 ^ sb + d" if "d \<le> 1" for d
    using that x q sb(2) by (subst unat_add_of_nat) simp_all
  have odd: "(q - 2 ^ sb) mod 2 = of_bool (odd q)"
    using sb(1) q(1) by (simp add: mod_2_eq_odd even_diff_nat)
  have one: "unat (x AND 1) = of_bool (odd q)"
    by (simp only: unat_and_1 x odd)
  have bit: "x AND 1 = of_nat (of_bool (odd q))"
    by (subst one [symmetric]) simp
  consider (tie) "t = h" | (above) "t \<noteq> h" "h < t" | (below) "t \<noteq> h" "\<not> h < t"
    by blast
  then show "unat (if t = h then y + (y AND 1) else y) = round_even s A - 2 ^ sb"
  proof cases
    case tie
    then show ?thesis
      using up [of "of_bool (odd q)"] t q(1) by (auto simp: y_def re bit)
  next
    case above
    then show ?thesis
      using up [of 1] t q(1) by (simp add: y_def re)
  next
    case below
    then show ?thesis
      using x t by (simp add: y_def re)
  qed
qed


lemma float_round_ok:
  fixes a :: "'r::len word"
  assumes f: "fp_format TYPE('r) sb" and a: "a \<noteq> 0" and w: "LENGTH('r) \<le> exponentBias TYPE('r) sb"
  defines "r \<equiv> float_round sb a"
  shows "fp_decode sb r = Finite (real (rounded sb (unat a)))" and "\<not> fp_neg r" and "unat r < 2 ^ (LENGTH('r) - 1)"
proof -
  let ?A = "unat a" and ?B = "exponentBias TYPE('r) sb"
  define k where "k = nbits ?A - 1"
  have A: "?A \<noteq> 0"
    using a by simp
  have n: "0 < nbits ?A" "nbits ?A \<le> LENGTH('r)"
    using A nbits_pos [of ?A] nbits_unat [of a] by blast+
  then have k: "k < LENGTH('r)" "k < ?B" and nb: "nbits ?A = Suc k"
    using w by (simp_all add: k_def)
  have sb: "0 < sb" "sb < LENGTH('r)" "(2 :: nat) * 2 ^ sb < 2 ^ LENGTH('r)"
    using f power_strict_increasing [of "Suc sb" "LENGTH('r)" "2 :: nat"] by (simp_all add: fp_format_def)
  have goal: "fp_decode sb r = Finite (real (rounded sb ?A)) \<and> \<not> fp_neg r \<and> unat r < 2 ^ (LENGTH('r) - 1)"
  proof (cases "k \<le> sb")
    case True
    then have "r = float_exact sb a"
      unfolding r_def float_round_def float_exact_def Let_def clz_exponent k_def [symmetric] by simp
    then show ?thesis
      using float_exact_ok [OF f a] True k(2) nb by simp
  next
    case False
    let ?s = "k - sb" and ?q = "?A div 2 ^ (k - sb)"
    have s: "0 < ?s" "?s < LENGTH('r)"
      using False k(1) by simp_all
    have "?q = ?A div 2 ^ ?s" and p: "2 ^ k = (2 :: nat) ^ sb * 2 ^ ?s"
      using False by (simp_all flip: power_add)
    have q: "2 ^ sb \<le> ?q" "?q < 2 * 2 ^ sb"
      using leading_bit [OF A, folded k_def] unfolding p
      by (simp_all add: less_eq_div_iff_mult_less_eq div_less_iff_less_mult mult.assoc)
    have x: "unat (drop_bit ?s a XOR implicitBit sb) = ?q - 2 ^ sb"
      using xor_implicitBit [OF sb(2), of "drop_bit ?s a"] q by (simp add: unat_high_digit)
    have h: "signBit sb = (push_bit (LENGTH('r) - 1) 1 :: 'r word)"
      by (simp only: signBit_def format_width [OF f])
    note up = round_up [OF sb(1,3) q x round_test [OF s h] refl refl]
    let ?t = "push_bit (LENGTH('r) - ?s) a" and ?x = "drop_bit ?s a XOR implicitBit sb"
    let ?y = "if signBit sb < ?t then ?x + 1 else ?x"
    have r: "r = (if ?t = signBit sb then ?y + (?y AND 1) else ?y) + push_bit sb (of_nat (k + ?B))"
      unfolding r_def float_round_def Let_def clz_exponent k_def [symmetric] using False by (simp only: if_False)
    note ins = insert_integer_exponent [OF f up k(2), folded r]
    have "round_even ?s ?A * 2 ^ k = round_even ?s ?A * 2 ^ ?s * 2 ^ sb"
      unfolding p by simp
    then have "real (round_even ?s ?A) * 2 ^ k / 2 ^ sb = real (round_even ?s ?A * 2 ^ ?s)"
      by (metis (no_types, lifting) nonzero_mult_div_cancel_right of_nat_mult of_nat_numeral of_nat_power power_eq_0_iff zero_neq_numeral)
    then show ?thesis
      using ins nb by (simp add: rounded_def Let_def)
  qed
  then show "fp_decode sb r = Finite (real (rounded sb ?A))" "\<not> fp_neg r" "unat r < 2 ^ (LENGTH('r) - 1)"
    by blast+
qed


text \<open>The sign of an integer, and the sign bit of the result.\<close>

lemma fp_decode_negate:
  fixes x :: "'r::len word"
  assumes f: "fp_format TYPE('r) sb" and x: "fp_decode sb x = Finite v" "\<not> fp_neg x"
  shows "fp_decode sb (x OR signBit sb) = Finite (- v)"
proof -
  have h: "signBit sb = (push_bit (LENGTH('r) - 1) 1 :: 'r word)"
    by (simp only: signBit_def format_width [OF f])
  have "take_bit (LENGTH('r) - 1) (x OR signBit sb) = take_bit (LENGTH('r) - 1) x"
    unfolding h by (rule bit_word_eqI) (auto simp: bit_simps)
  then have "fp_abs (x OR signBit sb) = fp_abs x"
    by (simp only: fp_abs_def)
  moreover have "fp_neg (x OR signBit sb)"
    unfolding h by (simp add: fp_neg_def bit_simps)
  ultimately show ?thesis
    using x by (auto simp: fp_decode_def Let_def split: if_splits)
qed

lemma sint_abs_word: "unat (if a <s 0 then - a else a :: 'i::len word) = nat \<bar>sint a\<bar>" "a <s 0 \<longleftrightarrow> sint a < 0"
proof -
  show neg: "a <s 0 \<longleftrightarrow> sint a < 0"
    by (simp add: word_sless_alt)
  show "unat (if a <s 0 then - a else a) = nat \<bar>sint a\<bar>"
  proof (cases "sint a < 0")
    case True
    have "- (2 ^ (LENGTH('i) - 1)) \<le> sint a"
      using sint_ge [of a] by simp
    then have "- sint a < 2 ^ LENGTH('i)"
      unfolding double_half using zero_less_power [of "2 :: int" "LENGTH('i) - 1"] by linarith
    moreover have "- a = word_of_int (- sint a)"
      by simp
    ultimately have "uint (- a) = - sint a"
      using True by (metis take_bit_int_eq_self uint_word_of_int_eq neg_0_le_iff_le less_imp_le)
    then show ?thesis
      using True neg by (simp add: unat_eq_nat_uint)
  next
    case False
    then show ?thesis
      using neg sint_nonneg_uint [of a] by (simp add: unat_eq_nat_uint)
  qed
qed

lemma fp_decode_zero: "fp_format TYPE('r::len) sb \<Longrightarrow> fp_decode sb (0 :: 'r word) = Finite 0"
  using max_exponent_pos [of sb, where 'r = 'r] by (simp add: fp_decode_def Let_def fp_abs_def fp_magnitude_order(3))

theorem float_unsigned_ok:
  fixes a :: "'i::len word"
  assumes f: "fp_format TYPE('r::len) sb"
    and conv: "\<And>a. a \<noteq> 0 \<Longrightarrow> fp_decode sb (conv a :: 'r word) = Finite (real (rounded sb (unat (a :: 'i word))))"
  shows "fp_decode sb (float_unsigned conv a) = Finite (real (rounded sb (unat a)))"
  using conv [of a] fp_decode_zero [OF f] by (simp add: float_unsigned_def rounded_def)

theorem float_signed_ok:
  fixes a :: "'i::len word"
  assumes f: "fp_format TYPE('r::len) sb"
    and conv: "\<And>a. a \<noteq> 0 \<Longrightarrow> fp_decode sb (conv a :: 'r word) = Finite (real (rounded sb (unat (a :: 'i word))))"
      "\<And>a. a \<noteq> 0 \<Longrightarrow> \<not> fp_neg (conv a)"
  shows "fp_decode sb (float_signed sb conv a) = Finite (sgn (sint a) * real (rounded sb (nat \<bar>sint a\<bar>)))"
proof (cases "a = 0")
  case True
  then show ?thesis
    using fp_decode_zero [OF f] by (simp add: float_signed_def)
next
  case False
  let ?b = "if a <s 0 then - a else a"
  have b: "?b \<noteq> 0"
    using False by simp
  have s: "sint a \<noteq> 0"
    using False signed_word_eqI [of a 0] by auto
  have v: "fp_decode sb (conv ?b) = Finite (real (rounded sb (nat \<bar>sint a\<bar>)))"
    using conv(1) [OF b] by (simp only: sint_abs_word(1))
  show ?thesis
  proof (cases "sint a < 0")
    case True
    then show ?thesis
      using fp_decode_negate [OF f v conv(2) [OF b]] False sint_abs_word(2) [of a] by (simp add: float_signed_def)
  next
    case pos: False
    then show ?thesis
      using v False s sint_abs_word(2) [of a] by (simp add: float_signed_def)
  qed
qed


text \<open>The instances.\<close>

lemma rounded_exact: "nbits A \<le> sb + 1 \<Longrightarrow> rounded sb A = A"
  by (simp add: rounded_def)

lemma rounded_nearest:
  "2 * \<bar>int (rounded 23 n) - int n\<bar> < 2 ^ (nbits n - 24)
   \<or> 2 * \<bar>int (rounded 23 n) - int n\<bar> = 2 ^ (nbits n - 24) \<and> even (rounded 23 n div 2 ^ (nbits n - 24))"
proof -
  let ?s = "nbits n - 24"
  have r: "rounded 23 n = round_even ?s n * 2 ^ ?s"
    by (simp add: rounded_def Let_def)
  show ?thesis
  proof (cases "?s = 0")
    case False
    then show ?thesis
      unfolding r using round_even_nearest [of ?s n] by auto
  qed (simp add: r)
qed

lemma nbits_abs: "nbits (nat \<bar>sint (a :: 'i::len word)\<bar>) \<le> LENGTH('i)"
  using nbits_unat [of "if a <s 0 then - a else a"] by (simp only: sint_abs_word(1))

lemma single_bias [simp]: "exponentBias TYPE(32) 23 = 127" and double_bias [simp]: "exponentBias TYPE(64) 52 = 1023"
  and quad_bias [simp]: "exponentBias TYPE(128) 112 = 16383"
  by (simp_all add: exponentBias_def maxExponent_def exponentBits_def)

lemma float_round_instances:
  "fp_decode 23 (floatunsisf a) = Finite (real (rounded 23 (unat a)))"
  "fp_decode 23 (floatsisf a) = Finite (sgn (sint a) * real (rounded 23 (nat \<bar>sint a\<bar>)))"
  unfolding floatunsisf_def floatsisf_def
  by (rule float_unsigned_ok float_signed_ok; simp add: float_round_ok)+

lemma float_exact_instances:
  fixes a :: "'i::len word"
  assumes f: "fp_format TYPE('r::len) sb" and w: "LENGTH('i) \<le> sb + 1" "LENGTH('i) \<le> exponentBias TYPE('r) sb"
  shows "fp_decode sb (float_unsigned (float_exact sb) a :: 'r word) = Finite (real (unat a))"
    and "fp_decode sb (float_signed sb (float_exact sb) a :: 'r word) = Finite (real_of_int (sint a))"
proof -
  have n: "nbits (unat b) \<le> sb + 1" "nbits (unat b) \<le> exponentBias TYPE('r) sb" for b :: "'i word"
    using nbits_unat [of b] w by linarith+
  note conv = float_exact_ok [OF f _ n]
  have "rounded sb (unat a) = unat a" "rounded sb (nat \<bar>sint a\<bar>) = nat \<bar>sint a\<bar>"
    using n(1) [of a] nbits_abs [of a] w(1) by (auto intro!: rounded_exact)
  moreover have "real_of_int (sgn i) * real (nat \<bar>i\<bar>) = real_of_int i" for i
    by (cases "0 < i"; cases "i = 0") simp_all
  ultimately show "fp_decode sb (float_unsigned (float_exact sb) a :: 'r word) = Finite (real (unat a))"
    "fp_decode sb (float_signed sb (float_exact sb) a :: 'r word) = Finite (real_of_int (sint a))"
    using float_unsigned_ok [OF f conv(1), of a] float_signed_ok [OF f conv(1,2), of a] by (simp_all only: simp_thms)
qed

end
