(* ===== verification/Builtins_Extend.thy ===== *)
theory Builtins_Extend
  imports Builtins_Convert
begin

text \<open>
  Conversion of \<^verbatim>\<open>compiler-rt\<close> to a wider floating point format (\<^verbatim>\<open>fp_extend_impl.inc\<close>).  The text is a
  definition over the words \<open>'s\<close> and \<open>'d\<close> of the two representations and the numbers \<open>ss\<close> and \<open>ds\<close> of their
  significand bits; the scale of a denormal number is a difference of two counts of leading zeros, which is
  the same in the promoted type of a half precision number; the constants of \<^verbatim>\<open>fp_extend_impl.inc\<close> are those of \<^verbatim>\<open>fp_lib.h\<close> for the two formats.
\<close>

definition srcInfinity :: "nat \<Rightarrow> 's::len word" where
  "srcInfinity ss = push_bit ss (of_nat (maxExponent TYPE('s) ss))"

definition extend_abs :: "nat \<Rightarrow> nat \<Rightarrow> 's::len word \<Rightarrow> 'd::len word" where
  "extend_abs ss ds aAbs =
     (let srcMinNormal = implicitBit ss; srcQNaN = push_bit (ss - 1) 1; srcNaNCode = srcQNaN - 1;
          dstMinNormal = implicitBit ds;
          srcExpBias = exponentBias TYPE('s) ss; dstExpBias = exponentBias TYPE('d) ds; dstInfExp = maxExponent TYPE('d) ds
      in if aAbs - srcMinNormal < srcInfinity ss - srcMinNormal
         then push_bit (ds - ss) (ucast aAbs) + push_bit ds (of_nat (dstExpBias - srcExpBias))
         else if srcInfinity ss \<le> aAbs
         then push_bit ds (of_nat dstInfExp) OR push_bit (ds - ss) (ucast (aAbs AND srcQNaN))
              OR push_bit (ds - ss) (ucast (aAbs AND srcNaNCode))
         else if aAbs \<noteq> 0
         then let scale = builtin_clz aAbs - builtin_clz (srcMinNormal :: 's word);
                  resultExponent = dstExpBias - srcExpBias - scale + 1
              in (push_bit (ds - ss + scale) (ucast aAbs) XOR dstMinNormal) OR push_bit ds (of_nat resultExponent)
         else 0)"

definition extend :: "nat \<Rightarrow> nat \<Rightarrow> 's::len word \<Rightarrow> 'd::len word" where
  "extend ss ds aRep =
     (let aAbs = aRep AND absMask ss; sign = aRep AND signBit ss
      in extend_abs ss ds aAbs OR push_bit (LENGTH('d) - LENGTH('s)) (ucast sign))"

definition extendhfsf2 :: "16 word \<Rightarrow> 32 word" where "extendhfsf2 = extend 10 23"
definition extendsfdf2 :: "32 word \<Rightarrow> 64 word" where "extendsfdf2 = extend 23 52"
definition extendsftf2 :: "32 word \<Rightarrow> 128 word" where "extendsftf2 = extend 23 112"
definition extenddftf2 :: "64 word \<Rightarrow> 128 word" where "extenddftf2 = extend 52 112"

text \<open>The destination has more bits of significand and of exponent, enough for the denormal numbers of the source.\<close>

definition wider :: "'s::len itself \<Rightarrow> nat \<Rightarrow> 'd::len itself \<Rightarrow> nat \<Rightarrow> bool" where
  "wider s ss d ds \<longleftrightarrow>
     fp_format s ss \<and> fp_format d ds \<and> ss < ds \<and> LENGTH('s) < LENGTH('d)
     \<and> exponentBias s ss + ss \<le> exponentBias d ds \<and> maxExponent s ss + (exponentBias d ds - exponentBias s ss) + 1 < maxExponent d ds"

lemma wider_formats [simp]:
  "wider TYPE(16) 10 TYPE(32) 23" "wider TYPE(32) 23 TYPE(64) 52" "wider TYPE(32) 23 TYPE(128) 112" "wider TYPE(64) 52 TYPE(128) 112"
  by (simp_all add: wider_def exponentBias_def maxExponent_def exponentBits_def)


subsection \<open>The sign\<close>

lemma extend_sign:
  fixes a :: "'s::len word"
  assumes "wider TYPE('s) ss TYPE('d::len) ds"
  shows "push_bit (LENGTH('d) - LENGTH('s)) (ucast (a AND signBit ss)) = (if fp_neg a then signBit ds else 0 :: 'd word)"
proof -
  have f: "fp_format TYPE('s) ss" "fp_format TYPE('d) ds" "LENGTH('s) < LENGTH('d)"
    using assms by (simp_all add: wider_def)
  have hs: "signBit ss = (push_bit (LENGTH('s) - 1) 1 :: 's word)" and hd: "signBit ds = (push_bit (LENGTH('d) - 1) 1 :: 'd word)"
    by (simp_all only: signBit_def format_width [OF f(1)] format_width [OF f(2)])
  show ?thesis
    unfolding hs hd by (rule bit_word_eqI) (use f(3) in \<open>auto simp: bit_simps fp_neg_def\<close>)
qed

text \<open>A sign put in front of a magnitude.\<close>

lemma signed_parts:
  fixes x :: "'d::len word"
  assumes f: "fp_format TYPE('d) ds" and x: "unat x < 2 ^ (LENGTH('d) - 1)"
  shows "fp_neg (x OR (if s then signBit ds else 0)) = s" and "fp_abs (x OR (if s then signBit ds else 0)) = unat x"
proof -
  have h: "signBit ds = (push_bit (LENGTH('d) - 1) 1 :: 'd word)"
    by (simp only: signBit_def format_width [OF f])
  note small = fp_abs_small [OF x]
  show "fp_neg (x OR (if s then signBit ds else 0)) = s"
    using small(2) unfolding h by (auto simp: fp_neg_def bit_simps)
  have "take_bit (LENGTH('d) - 1) (x OR (if s then signBit ds else 0)) = take_bit (LENGTH('d) - 1) x"
    unfolding h by (rule bit_word_eqI) (auto simp: bit_simps)
  then show "fp_abs (x OR (if s then signBit ds else 0)) = unat x"
    using small(1) by (simp only: fp_abs_def)
qed

lemma extend_parts:
  fixes a :: "'s::len word" and x :: "'d::len word"
  assumes "wider TYPE('s) ss TYPE('d) ds" "unat x < 2 ^ (LENGTH('d) - 1)"
    and "r = x OR push_bit (LENGTH('d) - LENGTH('s)) (ucast (a AND signBit ss))"
  shows "fp_neg r = fp_neg a" and "fp_abs r = unat x"
  using assms signed_parts [of ds x "fp_neg a"] unfolding assms(3) extend_sign [OF assms(1)] by (simp_all add: wider_def)

lemma fp_decode_same:
  fixes a :: "'s::len word" and r :: "'d::len word"
  assumes "fp_neg r = fp_neg a"
    and "fp_abs a div 2 ^ ss < maxExponent TYPE('s) ss \<and> fp_abs r div 2 ^ ds < maxExponent TYPE('d) ds
        \<and> fp_magnitude TYPE('d) ds (fp_abs r) = fp_magnitude TYPE('s) ss (fp_abs a)
      \<or> fp_abs a div 2 ^ ss = maxExponent TYPE('s) ss \<and> fp_abs r div 2 ^ ds = maxExponent TYPE('d) ds
        \<and> (fp_abs r mod 2 ^ ds = 0 \<longleftrightarrow> fp_abs a mod 2 ^ ss = 0)"
  shows "fp_decode ds r = fp_decode ss a"
  using assms by (auto simp: fp_decode_def Let_def)


subsection \<open>The magnitude, case by case\<close>

lemma max_exponent_bound: "fp_format TYPE('r::len) sb \<Longrightarrow> (maxExponent TYPE('r) sb + 1) * 2 ^ sb = 2 ^ (LENGTH('r) - 1)"
  using format_power [of sb, where 'r = 'r] by (simp add: maxExponent_def)

lemma half_range: "(2 :: nat) ^ (LENGTH('r::len) - 1) < 2 ^ LENGTH('r)"
  by (rule power_strict_increasing) simp_all

lemma unat_implicitBit: "fp_format TYPE('r::len) sb \<Longrightarrow> unat (implicitBit sb :: 'r word) = 2 ^ sb"
  using unat_of_nat_small [of "2 ^ sb", where 'a = 'r] power_strict_increasing [of sb "LENGTH('r)" "2 :: nat"]
  by (simp add: implicitBit_def push_bit_eq_mult fp_format_def)

lemma unat_exponent_at:
  assumes "fp_format TYPE('r::len) sb" "E \<le> maxExponent TYPE('r) sb"
  shows "unat (push_bit sb (of_nat E) :: 'r word) = E * 2 ^ sb" and "E * 2 ^ sb + 2 ^ sb \<le> 2 ^ (LENGTH('r) - 1)"
proof -
  have "(E + 1) * 2 ^ sb \<le> (maxExponent TYPE('r) sb + 1) * 2 ^ sb"
    using assms(2) by (intro mult_right_mono) simp_all
  then show le: "E * 2 ^ sb + 2 ^ sb \<le> 2 ^ (LENGTH('r) - 1)"
    unfolding max_exponent_bound [OF assms(1)] by simp
  have "E * 2 ^ sb < 2 ^ LENGTH('r)"
    using le half_range [where 'r = 'r] by (meson add_leE le_less_trans)
  then show "unat (push_bit sb (of_nat E) :: 'r word) = E * 2 ^ sb"
    using unat_of_nat_small [of "E * 2 ^ sb", where 'a = 'r] by (simp add: push_bit_eq_mult)
qed

lemma src_tests:
  fixes x :: "'s::len word"
  assumes f: "fp_format TYPE('s) ss"
  shows "x - implicitBit ss < srcInfinity ss - implicitBit ss \<longleftrightarrow> 2 ^ ss \<le> unat x \<and> unat x < maxExponent TYPE('s) ss * 2 ^ ss"
    and "srcInfinity ss \<le> x \<longleftrightarrow> maxExponent TYPE('s) ss * 2 ^ ss \<le> unat x"
proof -
  let ?i = "implicitBit ss :: 's word" and ?inf = "srcInfinity ss :: 's word" and ?M = "maxExponent TYPE('s) ss * 2 ^ ss"
  have i: "unat ?i = 2 ^ ss"
    by (rule unat_implicitBit [OF f])
  have inf: "unat ?inf = ?M" and top_le: "?M + 2 ^ ss \<le> 2 ^ (LENGTH('s) - 1)"
    unfolding srcInfinity_def using unat_exponent_at [OF f order_refl] by simp_all
  show "?inf \<le> x \<longleftrightarrow> ?M \<le> unat x"
    by (simp add: word_le_nat_alt inf)
  have M: "2 ^ ss \<le> ?M"
    using max_exponent_pos [OF f] by simp
  have d: "unat (?inf - ?i) = ?M - 2 ^ ss"
    using M by (subst unat_sub_small) (simp_all add: i inf)
  show "x - ?i < ?inf - ?i \<longleftrightarrow> 2 ^ ss \<le> unat x \<and> unat x < ?M"
  proof
    assume "x - ?i < ?inf - ?i"
    then have lt: "unat (x - ?i) < ?M - 2 ^ ss"
      by (simp add: word_less_nat_alt d)
    then have "unat (x - ?i) + unat ?i < 2 ^ LENGTH('s)"
      using M top_le half_range [where 'r = 's] i by linarith
    then have "unat (x - ?i + ?i) = unat (x - ?i) + unat ?i"
      by (rule unat_add_small)
    then have "unat x = unat (x - ?i) + 2 ^ ss"
      using i by simp
    then show "2 ^ ss \<le> unat x \<and> unat x < ?M"
      using lt by simp
  next
    assume "2 ^ ss \<le> unat x \<and> unat x < ?M"
    then show "x - ?i < ?inf - ?i"
      using diff_less_mono [of "unat x" ?M "2 ^ ss"] by (simp add: word_less_nat_alt d unat_sub_small i)
  qed
qed

text \<open>The parts that are put side by side do not overlap.\<close>

lemma or_exponent:
  fixes x :: "'r::len word"
  assumes "fp_format TYPE('r) sb" "E \<le> maxExponent TYPE('r) sb" "unat x < 2 ^ sb"
  shows "x OR push_bit sb (of_nat E) = x + push_bit sb (of_nat E)"
    and "unat (x OR push_bit sb (of_nat E)) = unat x + E * 2 ^ sb"
proof -
  have "x AND push_bit sb (of_nat E) = 0"
    using assms(3) by (auto simp: unat_small_bits bit_eq_iff [of _ 0] bit_simps)
  then show eq: "x OR push_bit sb (of_nat E) = x + push_bit sb (of_nat E)"
    by (rule disjunctive_add_eq_or [symmetric])
  note at = unat_exponent_at [OF assms(1,2)]
  have "unat x + unat (push_bit sb (of_nat E) :: 'r word) < 2 ^ LENGTH('r)"
    unfolding at(1) using at(2) assms(3) half_range [where 'r = 'r] by linarith
  then show "unat (x OR push_bit sb (of_nat E)) = unat x + E * 2 ^ sb"
    unfolding eq by (simp add: unat_add_small at(1))
qed

lemma unat_shifted:
  fixes x :: "'s::len word"
  assumes "unat x * 2 ^ k < 2 ^ LENGTH('d::len)"
  shows "unat (push_bit k (ucast x) :: 'd word) = unat x * 2 ^ k"
proof -
  have "push_bit k (ucast x) = (of_nat (unat x * 2 ^ k) :: 'd word)"
    by (simp add: push_bit_eq_mult)
  then show ?thesis
    using unat_of_nat_small [OF assms] by simp
qed


lemma extend_normal:
  fixes x :: "'s::len word"
  assumes w: "wider TYPE('s) ss TYPE('d::len) ds" and x: "2 ^ ss \<le> unat x" "unat x < maxExponent TYPE('s) ss * 2 ^ ss"
  defines "y \<equiv> extend_abs ss ds x :: 'd word"
  shows "unat y < 2 ^ (LENGTH('d) - 1)" and "unat y div 2 ^ ds < maxExponent TYPE('d) ds"
    and "fp_magnitude TYPE('d) ds (unat y) = fp_magnitude TYPE('s) ss (unat x)"
proof -
  have f: "fp_format TYPE('s) ss" "fp_format TYPE('d) ds" and D: "ss < ds"
    and B: "exponentBias TYPE('s) ss + ss \<le> exponentBias TYPE('d) ds"
    and top_le: "maxExponent TYPE('s) ss + (exponentBias TYPE('d) ds - exponentBias TYPE('s) ss) + 1 < maxExponent TYPE('d) ds"
    using w unfolding wider_def by blast+
  define C where "C = exponentBias TYPE('d) ds - exponentBias TYPE('s) ss"
  define e m where "e = unat x div 2 ^ ss" and "m = unat x mod 2 ^ ss"
  have n: "unat x = m + e * 2 ^ ss" and m: "m < 2 ^ ss"
    unfolding e_def m_def by (simp_all only: mod_div_mult_eq) simp
  have e: "0 < e" "e < maxExponent TYPE('s) ss"
    using x by (simp_all add: e_def div_greater_zero_iff div_less_iff_less_mult)
  let ?E = "e + C" and ?M = "(2 ^ ss + m) * 2 ^ (ds - ss)"
  have p: "(2 :: nat) ^ ds = 2 ^ ss * 2 ^ (ds - ss)"
    using D by (simp flip: power_add)
  have M: "2 ^ ds \<le> ?M" "?M \<le> 2 * 2 ^ ds"
    unfolding p using m by (simp_all add: mult.assoc [symmetric])
  have E: "0 < ?E" "?E + 1 < maxExponent TYPE('d) ds"
    using e top_le by (simp_all add: C_def)
  have sum: "unat x * 2 ^ (ds - ss) + C * 2 ^ ds = ?M - 2 ^ ds + ?E * 2 ^ ds"
    unfolding n p by (simp add: algebra_simps)
  note at = unat_exponent_at [OF f(2), of ?E]
  have bound: "?M - 2 ^ ds + ?E * 2 ^ ds < 2 ^ (LENGTH('d) - 1)"
  proof -
    have "?M - 2 ^ ds < 2 ^ ds"
      unfolding p using m by (simp add: algebra_simps)
    then show ?thesis
      using at(2) E(2) by linarith
  qed
  have C: "unat (push_bit ds (of_nat C) :: 'd word) = C * 2 ^ ds"
    using unat_exponent_at(1) [OF f(2), of C] E(2) by simp
  have S: "unat (push_bit (ds - ss) (ucast x) :: 'd word) = unat x * 2 ^ (ds - ss)"
    by (rule unat_shifted) (use sum bound half_range [where 'r = 'd] in linarith)
  have yeq: "y = push_bit (ds - ss) (ucast x) + push_bit ds (of_nat C)"
    using x src_tests(1) [OF f(1), of x] by (simp add: y_def extend_abs_def Let_def C_def)
  have "unat x * 2 ^ (ds - ss) + C * 2 ^ ds < 2 ^ LENGTH('d)"
    unfolding sum using bound half_range [where 'r = 'd] by (rule less_trans)
  then have y: "unat y = ?M - 2 ^ ds + ?E * 2 ^ ds"
    unfolding yeq using C S sum unat_add_small [of "push_bit (ds - ss) (ucast x) :: 'd word" "push_bit ds (of_nat C)"] by simp
  show "unat y < 2 ^ (LENGTH('d) - 1)"
    using bound y by simp
  note mag = fp_magnitude_at [OF f(2) M E(1)]
  show "unat y div 2 ^ ds < maxExponent TYPE('d) ds"
    unfolding y using mag(2) E(2) by auto
  have src: "fp_magnitude TYPE('s) ss (unat x) = real (2 ^ ss + m) * 2 ^ e / (2 ^ exponentBias TYPE('s) ss * 2 ^ ss)"
    using fp_magnitude_at(1) [OF f(1), of "2 ^ ss + m" e] m e(1) n by simp
  have "(2 :: real) ^ exponentBias TYPE('d) ds = 2 ^ exponentBias TYPE('s) ss * 2 ^ C" "(2 :: real) ^ ds = 2 ^ ss * 2 ^ (ds - ss)"
    using B D by (simp_all add: C_def flip: power_add)
  then show "fp_magnitude TYPE('d) ds (unat y) = fp_magnitude TYPE('s) ss (unat x)"
    unfolding y mag(1) src by (simp add: power_add field_simps)
qed

lemma extend_special:
  fixes x :: "'s::len word"
  assumes w: "wider TYPE('s) ss TYPE('d::len) ds" and x: "maxExponent TYPE('s) ss * 2 ^ ss \<le> unat x"
  defines "y \<equiv> extend_abs ss ds x :: 'd word"
  shows "unat y < 2 ^ (LENGTH('d) - 1)" and "unat y div 2 ^ ds = maxExponent TYPE('d) ds"
    and "unat y mod 2 ^ ds = 0 \<longleftrightarrow> unat x mod 2 ^ ss = 0"
proof -
  have f: "fp_format TYPE('s) ss" "fp_format TYPE('d) ds" and D: "ss < ds" and ss: "0 < ss"
    using w by (simp_all add: wider_def fp_format_def)
  let ?m = "unat x mod 2 ^ ss" and ?q = "push_bit (ss - 1) 1 :: 's word"
  have parts: "(x AND ?q) OR (x AND (?q - 1)) = x AND mask ss"
    unfolding push_bit_1_minus_1 by (rule bit_word_eqI) (use ss in \<open>auto simp: bit_simps\<close>)
  have p: "(2 :: nat) ^ ds = 2 ^ ss * 2 ^ (ds - ss)"
    using D by (simp flip: power_add)
  have lt: "?m * 2 ^ (ds - ss) < 2 ^ ds"
    unfolding p by (intro mult_strict_right_mono) simp_all
  have "(2 :: nat) ^ ds \<le> 2 ^ LENGTH('d)"
    using f(2) by (intro power_increasing) (simp_all add: fp_format_def)
  then have "?m * 2 ^ (ds - ss) < 2 ^ LENGTH('d)"
    using lt by (rule less_le_trans [rotated])
  then have z: "unat (push_bit (ds - ss) (ucast (x AND mask ss)) :: 'd word) = ?m * 2 ^ (ds - ss)"
    using unat_shifted [of "x AND mask ss" "ds - ss", where 'd = 'd] by (simp add: unat_low_digit)
  have not_normal: "\<not> x - implicitBit ss < srcInfinity ss - implicitBit ss" "srcInfinity ss \<le> x"
    using src_tests [OF f(1), of x] x by simp_all
  have join: "push_bit k (ucast u) OR push_bit k (ucast v) = (push_bit k (ucast (u OR v)) :: 'd word)" for k and u v :: "'s word"
    by (rule bit_word_eqI) (auto simp: bit_simps)
  have "y = push_bit (ds - ss) (ucast (x AND mask ss)) OR push_bit ds (of_nat (maxExponent TYPE('d) ds))"
    using not_normal unfolding y_def extend_abs_def Let_def parts [symmetric] join [symmetric] by (simp add: ac_simps)
  then have y: "unat y = ?m * 2 ^ (ds - ss) + maxExponent TYPE('d) ds * 2 ^ ds"
    using or_exponent(2) [OF f(2) order_refl] lt z by simp
  show "unat y < 2 ^ (LENGTH('d) - 1)"
    unfolding y using unat_exponent_at(2) [OF f(2) order_refl] lt by linarith
  show "unat y div 2 ^ ds = maxExponent TYPE('d) ds" "unat y mod 2 ^ ds = 0 \<longleftrightarrow> ?m = 0"
    unfolding y using lt by simp_all
qed


lemma extend_denormal:
  fixes x :: "'s::len word"
  assumes w: "wider TYPE('s) ss TYPE('d::len) ds" and x: "x \<noteq> 0" "unat x < 2 ^ ss"
  defines "y \<equiv> extend_abs ss ds x :: 'd word"
  shows "unat y < 2 ^ (LENGTH('d) - 1)" and "unat y div 2 ^ ds < maxExponent TYPE('d) ds"
    and "fp_magnitude TYPE('d) ds (unat y) = fp_magnitude TYPE('s) ss (unat x)"
proof -
  have f: "fp_format TYPE('s) ss" "fp_format TYPE('d) ds" and D: "ss < ds"
    and B: "exponentBias TYPE('s) ss + ss \<le> exponentBias TYPE('d) ds"
    and top_le: "maxExponent TYPE('s) ss + (exponentBias TYPE('d) ds - exponentBias TYPE('s) ss) + 1 < maxExponent TYPE('d) ds"
    using w unfolding wider_def by blast+
  define C where "C = exponentBias TYPE('d) ds - exponentBias TYPE('s) ss"
  define k where "k = nbits (unat x) - 1"
  have A: "unat x \<noteq> 0"
    using x(1) by simp
  have nb: "nbits (unat x) = Suc k" and k: "k < ss"
    using A nbits_pos [of "unat x"] nbits_le [of "unat x" ss] x(2) by (simp_all add: k_def)
  have sb: "ss < LENGTH('s)" "ds < LENGTH('d)" "(2 :: nat) * 2 ^ ds \<le> 2 ^ LENGTH('d)"
    using f power_increasing [of "Suc ds" "LENGTH('d)" "2 :: nat"] by (simp_all add: fp_format_def)
  have scale: "builtin_clz x - builtin_clz (implicitBit ss :: 's word) = ss - k"
    using sb(1) nb k nbits_eq [of ss "2 ^ ss"] by (simp add: builtin_clz_def unat_implicitBit [OF f(1)])
  let ?M = "unat x * 2 ^ (ds - k)" and ?E = "C - (ss - k) + 1"
  have M: "2 ^ ds \<le> ?M" "?M < 2 * 2 ^ ds"
    using normalized [OF A, of ds, folded k_def] k D by simp_all
  have shift: "ds - ss + (ss - k) = ds - k"
    using k D by simp
  have "unat (push_bit (ds - k) (ucast x) :: 'd word) = ?M"
    by (rule unat_shifted) (use M(2) sb(3) in simp)
  then have z: "unat (push_bit (ds - k) (ucast x) XOR implicitBit ds :: 'd word) = ?M - 2 ^ ds"
    using xor_implicitBit [OF sb(2)] M by simp
  have C: "ss \<le> C" "C + 2 < maxExponent TYPE('d) ds"
    using B top_le max_exponent_pos [OF f(1)] unfolding C_def by linarith+
  then have E: "0 < ?E" "?E + 1 < maxExponent TYPE('d) ds"
    by simp_all
  have "\<not> x - implicitBit ss < srcInfinity ss - implicitBit ss" "\<not> srcInfinity ss \<le> x"
  proof -
    have "2 ^ ss \<le> maxExponent TYPE('s) ss * 2 ^ ss"
      using max_exponent_pos [OF f(1)] by simp
    then have "\<not> maxExponent TYPE('s) ss * 2 ^ ss \<le> unat x" "\<not> 2 ^ ss \<le> unat x"
      using x(2) by linarith+
    then show "\<not> x - implicitBit ss < srcInfinity ss - implicitBit ss" "\<not> srcInfinity ss \<le> x"
      by (simp_all only: src_tests [OF f(1)] simp_thms)
  qed
  then have "y = (push_bit (ds - k) (ucast x) XOR implicitBit ds) OR push_bit ds (of_nat ?E)"
    unfolding y_def extend_abs_def Let_def scale shift C_def using x(1) by simp
  also have "\<dots> = (push_bit (ds - k) (ucast x) XOR implicitBit ds) + push_bit ds (of_nat ?E)"
    using or_exponent(1) [OF f(2), of ?E] z M E(2) by simp
  finally have yeq: "y = (push_bit (ds - k) (ucast x) XOR implicitBit ds) + push_bit ds (of_nat ?E)" .
  note ins = insert_exponent [OF f(2) z M(1) less_imp_le [OF M(2)] E, folded yeq]
  note mag = fp_magnitude_at [OF f(2) M(1) less_imp_le [OF M(2)] E(1)]
  show "unat y < 2 ^ (LENGTH('d) - 1)"
    by (rule ins(2))
  show "unat y div 2 ^ ds < maxExponent TYPE('d) ds"
    unfolding ins(1) using mag(2) E(2) by auto
  have src: "fp_magnitude TYPE('s) ss (unat x) = real (unat x) * (2 / (2 ^ ss * 2 ^ exponentBias TYPE('s) ss))"
    using x(2) by (simp add: fp_magnitude_def Let_def)
  have "(2 :: real) ^ exponentBias TYPE('d) ds = 2 ^ exponentBias TYPE('s) ss * 2 ^ C" "(2 :: real) ^ ds = 2 ^ k * 2 ^ (ds - k)"
    "(2 :: real) ^ C = 2 ^ (C - (ss - k)) * 2 ^ (ss - k)" "(2 :: real) ^ ss = 2 ^ (ss - k) * 2 ^ k"
    using B D C k by (simp_all add: C_def flip: power_add)
  then show "fp_magnitude TYPE('d) ds (unat y) = fp_magnitude TYPE('s) ss (unat x)"
    unfolding ins(1) mag(1) src by (simp add: power_add field_simps)
qed

lemma extend_abs_less:
  fixes x :: "'s::len word"
  assumes w: "wider TYPE('s) ss TYPE('d::len) ds"
  shows "unat (extend_abs ss ds x :: 'd word) < 2 ^ (LENGTH('d) - 1)"
proof -
  have f: "fp_format TYPE('s) ss"
    using w by (simp add: wider_def)
  consider "x = 0" | "x \<noteq> 0" "unat x < 2 ^ ss" | "2 ^ ss \<le> unat x" "unat x < maxExponent TYPE('s) ss * 2 ^ ss"
    | "maxExponent TYPE('s) ss * 2 ^ ss \<le> unat x"
    by linarith
  then show ?thesis
  proof cases
    case 1
    then have "(extend_abs ss ds x :: 'd word) = 0"
      using src_tests [OF f, of 0] max_exponent_pos [OF f] by (simp add: extend_abs_def)
    then show ?thesis
      by simp
  qed (rule extend_denormal(1) [OF w] extend_normal(1) [OF w] extend_special(1) [OF w]; assumption)+
qed

lemma extend_neg:
  assumes "wider TYPE('s::len) ss TYPE('d::len) ds"
  shows "fp_neg (extend ss ds (a :: 's word) :: 'd word) = fp_neg a"
  by (rule extend_parts(1) [OF assms extend_abs_less [OF assms]]) (simp only: extend_def Let_def)

theorem extend_ok:
  fixes a :: "'s::len word"
  assumes w: "wider TYPE('s) ss TYPE('d::len) ds"
  shows "fp_decode ds (extend ss ds a :: 'd word) = fp_decode ss a"
proof -
  have f: "fp_format TYPE('s) ss"
    using w by (simp add: wider_def)
  let ?x = "a AND absMask ss" and ?M = "maxExponent TYPE('s) ss"
  let ?y = "extend_abs ss ds ?x :: 'd word"
  have n: "unat ?x = fp_abs a"
    by (rule unat_abs [OF f])
  have r: "extend ss ds a = ?y OR push_bit (LENGTH('d) - LENGTH('s)) (ucast (a AND signBit ss))"
    by (simp only: extend_def Let_def)
  note parts = extend_parts [OF w extend_abs_less [OF w] r]
  have M: "2 ^ ss \<le> ?M * 2 ^ ss" "0 < ?M"
    using max_exponent_pos [OF f] by simp_all
  consider (zero) "?x = 0" | (denormal) "?x \<noteq> 0" "unat ?x < 2 ^ ss"
    | (normal) "2 ^ ss \<le> unat ?x" "unat ?x < ?M * 2 ^ ss" | (special) "?M * 2 ^ ss \<le> unat ?x"
    by linarith
  then show ?thesis
  proof cases
    case zero
    then have "fp_abs a = 0"
      using n by simp
    moreover have "?y = 0"
      using zero src_tests [OF f, of 0] M by (simp add: extend_abs_def)
    moreover have "0 < maxExponent TYPE('d) ds"
      using w by (simp add: wider_def)
    ultimately show ?thesis
      using parts M(2) by (intro fp_decode_same) (simp_all add: fp_magnitude_order(3))
  next
    case denormal
    note x = extend_denormal [OF w denormal]
    have "fp_abs a div 2 ^ ss < ?M"
      using denormal(2) n M(2) by simp
    then show ?thesis
      using parts x(2,3) n by (intro fp_decode_same) simp_all
  next
    case normal
    note x = extend_normal [OF w normal]
    have "fp_abs a div 2 ^ ss < ?M"
      using normal(2) n by (simp add: div_less_iff_less_mult)
    then show ?thesis
      using parts x(2,3) n by (intro fp_decode_same) simp_all
  next
    case special
    note x = extend_special [OF w special]
    have "?M \<le> fp_abs a div 2 ^ ss"
      using special n by (simp add: less_eq_div_iff_mult_less_eq)
    then have "fp_abs a div 2 ^ ss = ?M"
      using fp_exponent_le [OF f, of a] by simp
    then show ?thesis
      using parts x(2,3) n by (intro fp_decode_same) simp_all
  qed
qed

end
