(* ===== verification/Builtins_Trunc.thy ===== *)
theory Builtins_Trunc
  imports Builtins_Extend
begin

text \<open>
  Conversion of \<^verbatim>\<open>compiler-rt\<close> to a narrower floating point format (\<^verbatim>\<open>fp_trunc_impl.inc\<close>).  As in the widening
  direction the text is a definition over the words \<open>'s\<close> and \<open>'d\<close> of the two representations and the numbers
  \<open>ss\<close> and \<open>ds\<close> of their significand bits.  The rounding step, which the text has twice, is \<open>trunc_round\<close>.
\<close>

definition trunc_round :: "nat \<Rightarrow> 's::len word \<Rightarrow> 'd::len word \<Rightarrow> 'd word" where
  "trunc_round k roundBits absResult =
     (let halfway = push_bit (k - 1) 1
      in if halfway < roundBits then absResult + 1
         else if roundBits = halfway then absResult + (absResult AND 1) else absResult)"

definition trunc_abs :: "nat \<Rightarrow> nat \<Rightarrow> 's::len word \<Rightarrow> 'd::len word" where
  "trunc_abs ss ds aRep =
     (let srcMinNormal = implicitBit ss; srcSignificandMask = srcMinNormal - 1;
          roundMask = push_bit (ss - ds) 1 - 1; srcQNaN = push_bit (ss - 1) 1; srcNaNCode = srcQNaN - 1;
          srcExpBias = exponentBias TYPE('s) ss; dstExpBias = exponentBias TYPE('d) ds; dstInfExp = maxExponent TYPE('d) ds;
          underflow = push_bit ss (of_nat (srcExpBias + 1 - dstExpBias));
          overflow = push_bit ss (of_nat (srcExpBias + dstInfExp - dstExpBias));
          dstQNaN = push_bit (ds - 1) 1; dstNaNCode = dstQNaN - 1;
          aAbs = aRep AND absMask ss
      in if aAbs - underflow < aAbs - overflow
         then trunc_round (ss - ds) (aAbs AND roundMask)
                (ucast (drop_bit (ss - ds) aAbs) - push_bit ds (of_nat (srcExpBias - dstExpBias)))
         else if srcInfinity ss < aAbs
         then push_bit ds (of_nat dstInfExp) OR dstQNaN
              OR (ucast (drop_bit (ss - ds) (aAbs AND srcNaNCode)) AND dstNaNCode)
         else if overflow \<le> aAbs then push_bit ds (of_nat dstInfExp)
         else let aExp = int (unat (drop_bit ss aAbs)); shift = int srcExpBias - int dstExpBias - aExp + 1;
                  significand = (aRep AND srcSignificandMask) OR srcMinNormal
              in if int ss < shift then 0
                 else let sticky = push_bit (nat (int LENGTH('s) - shift)) significand \<noteq> 0;
                          denormalizedSignificand = drop_bit (nat shift) significand OR of_bool sticky
                      in trunc_round (ss - ds) (denormalizedSignificand AND roundMask)
                           (ucast (drop_bit (ss - ds) denormalizedSignificand)))"

definition trunc :: "nat \<Rightarrow> nat \<Rightarrow> 's::len word \<Rightarrow> 'd::len word" where
  "trunc ss ds aRep =
     (let sign = aRep AND signBit ss in trunc_abs ss ds aRep OR ucast (drop_bit (LENGTH('s) - LENGTH('d)) sign))"

definition truncdfsf2 :: "64 word \<Rightarrow> 32 word" where "truncdfsf2 = trunc 52 23"
definition truncdfhf2 :: "64 word \<Rightarrow> 16 word" where "truncdfhf2 = trunc 52 10"
definition truncsfhf2 :: "32 word \<Rightarrow> 16 word" where "truncsfhf2 = trunc 23 10"
definition trunctfdf2 :: "128 word \<Rightarrow> 64 word" where "trunctfdf2 = trunc 112 52"
definition trunctfsf2 :: "128 word \<Rightarrow> 32 word" where "trunctfsf2 = trunc 112 23"

text \<open>
  What the two formats need: at least two bits are cut off the significand, so that the sticky bit is not the
  bit that decides, and the denormal numbers of the source are below half of the least number of the destination.
\<close>

definition narrower :: "'s::len itself \<Rightarrow> nat \<Rightarrow> 'd::len itself \<Rightarrow> nat \<Rightarrow> bool" where
  "narrower s ss d ds \<longleftrightarrow>
     fp_format s ss \<and> fp_format d ds \<and> ds + 2 \<le> ss \<and> LENGTH('d) < LENGTH('s)
     \<and> exponentBias d ds + ss \<le> exponentBias s ss
     \<and> maxExponent d ds + (exponentBias s ss - exponentBias d ds) + 1 < maxExponent s ss"

lemma narrower_formats [simp]:
  "narrower TYPE(64) 52 TYPE(32) 23" "narrower TYPE(64) 52 TYPE(16) 10" "narrower TYPE(32) 23 TYPE(16) 10"
  "narrower TYPE(128) 112 TYPE(64) 52" "narrower TYPE(128) 112 TYPE(32) 23"
  by (simp_all add: narrower_def exponentBias_def maxExponent_def exponentBits_def)


subsection \<open>The nearest magnitude\<close>

text \<open>
  The magnitudes of a format are counted by \<open>fp_abs\<close>.  The one that follows the largest finite one is the
  representation of infinity, which so stands for the first number that is too large.  \<open>y\<close> is nearest to a number
  when no magnitude is nearer, and even when another is as near.
\<close>

definition fp_nearest :: "'r::len itself \<Rightarrow> nat \<Rightarrow> real \<Rightarrow> nat \<Rightarrow> bool" where
  "fp_nearest t sb v y \<longleftrightarrow>
     (\<forall>y'. \<bar>fp_magnitude t sb y - v\<bar> \<le> \<bar>fp_magnitude t sb y' - v\<bar>
        \<and> (\<bar>fp_magnitude t sb y' - v\<bar> = \<bar>fp_magnitude t sb y - v\<bar> \<longrightarrow> y' = y \<or> even y))"

lemma fp_nearest_self: "fp_nearest t sb (fp_magnitude t sb y) y"
  by (auto simp: fp_nearest_def fp_magnitude_order)

lemma fp_nearest_unique:
  assumes "fp_nearest t sb (fp_magnitude t sb n) y"
  shows "y = n"
proof -
  have "\<bar>fp_magnitude t sb y - fp_magnitude t sb n\<bar> \<le> \<bar>fp_magnitude t sb n - fp_magnitude t sb n\<bar>"
    using assms unfolding fp_nearest_def by blast
  then show ?thesis
    by (simp add: fp_magnitude_order)
qed

lemma fp_magnitude_mono: "m \<le> n \<Longrightarrow> fp_magnitude t sb m \<le> fp_magnitude t sb n"
  using fp_magnitude_order(1) [of t sb n m] by (simp add: not_less [symmetric])

text \<open>A number between two neighbours is rounded as its position between them.\<close>

lemma nearest_between:
  fixes q r j :: nat
  assumes r: "r < 2 ^ j"
    and v: "v = fp_magnitude t sb q + real r / 2 ^ j * (fp_magnitude t sb (q + 1) - fp_magnitude t sb q)"
  shows "fp_nearest t sb v (round_even j (q * 2 ^ j + r))"
proof -
  define d where "d = fp_magnitude t sb (q + 1) - fp_magnitude t sb q"
  define a where "a = v - fp_magnitude t sb q"
  define b where "b = fp_magnitude t sb (q + 1) - v"
  have d: "0 < d"
    by (simp add: d_def fp_magnitude_order)
  have "real r < real (2 ^ j)"
    using r unfolding of_nat_less_iff .
  then have r': "real r < 2 ^ j"
    by simp
  define u where "u = d / 2 ^ j"
  have ab: "a = u * real r" "b = u * (2 ^ j - real r)" and u: "0 < u"
    unfolding a_def b_def v using d by (simp_all add: u_def d_def field_simps)
  have pos: "0 \<le> a" "0 < b"
    unfolding ab using u r' by simp_all
  have cmp: "b < a \<longleftrightarrow> 2 ^ j < 2 * r" "b = a \<longleftrightarrow> 2 ^ j = 2 * r"
  proof -
    have "b < a \<longleftrightarrow> real (2 ^ j) < real (2 * r)" "b = a \<longleftrightarrow> real (2 ^ j) = real (2 * r)"
      unfolding ab using u by (auto simp: mult_less_cancel_left_pos)
    then show "b < a \<longleftrightarrow> 2 ^ j < 2 * r" "b = a \<longleftrightarrow> 2 ^ j = 2 * r"
      unfolding of_nat_less_iff of_nat_eq_iff .
  qed
  have y: "round_even j (q * 2 ^ j + r) = (if b < a \<or> b = a \<and> odd q then q + 1 else q)"
    using r by (simp add: round_even_def Let_def cmp)
  define dist where "dist y' = \<bar>fp_magnitude t sb y' - v\<bar>" for y'
  have at: "dist q = a" "dist (q + 1) = b"
    using pos by (simp_all add: dist_def a_def b_def)
  have low: "a \<le> dist y' \<and> (dist y' = a \<longrightarrow> y' = q)" if "y' \<le> q" for y'
  proof -
    have "fp_magnitude t sb y' \<le> fp_magnitude t sb q" "fp_magnitude t sb y' = fp_magnitude t sb q \<longleftrightarrow> y' = q"
      using that by (simp_all add: fp_magnitude_mono fp_magnitude_order)
    then show ?thesis
      using pos unfolding dist_def a_def by auto
  qed
  have high: "b \<le> dist y' \<and> (dist y' = b \<longrightarrow> y' = q + 1)" if "q + 1 \<le> y'" for y'
  proof -
    have "fp_magnitude t sb (q + 1) \<le> fp_magnitude t sb y'" "fp_magnitude t sb (q + 1) = fp_magnitude t sb y' \<longleftrightarrow> q + 1 = y'"
      using fp_magnitude_mono [OF that] fp_magnitude_order(2) by blast+
    then show ?thesis
      using pos unfolding dist_def b_def by auto
  qed
  have all: "y' \<le> q \<or> q + 1 \<le> y'" for y'
    by linarith
  show ?thesis
  proof (cases "b < a \<or> b = a \<and> odd q")
    case True
    then have "dist (q + 1) \<le> dist y' \<and> (dist y' = dist (q + 1) \<longrightarrow> y' = q + 1 \<or> even (q + 1))" for y'
      unfolding at using all [of y'] low [of y'] high [of y'] by fastforce
    then show ?thesis
      using True unfolding fp_nearest_def y dist_def by simp
  next
    case False
    then have "dist q \<le> dist y' \<and> (dist y' = dist q \<longrightarrow> y' = q \<or> even q)" for y'
      unfolding at using all [of y'] low [of y'] high [of y'] by fastforce
    then show ?thesis
      using False unfolding fp_nearest_def y dist_def by auto
  qed
qed

text \<open>Below the least normal number the magnitudes are multiples of the least number.\<close>

lemma nearest_multiple:
  fixes S j :: nat
  assumes "S div 2 ^ j < 2 ^ sb" and v: "v = real S / 2 ^ j * (2 / (2 ^ sb * 2 ^ exponentBias t sb))"
  shows "fp_nearest t sb v (round_even j S)"
proof -
  let ?q = "S div 2 ^ j" and ?r = "S mod 2 ^ j" and ?u = "2 / (2 ^ sb * 2 ^ exponentBias t sb) :: real"
  have S: "S = ?q * 2 ^ j + ?r"
    by (rule div_mult_mod_eq [symmetric])
  have "fp_units sb ?q = ?q"
    using assms(1) by (simp add: fp_units_def)
  moreover have "fp_units sb (?q + 1) = ?q + 1"
  proof (cases "?q + 1 = 2 ^ sb")
    case True
    then show ?thesis
      unfolding True by (simp add: fp_units_def)
  next
    case False
    then have "?q + 1 < 2 ^ sb"
      using assms(1) by linarith
    then show ?thesis
      by (simp add: fp_units_def)
  qed
  ultimately have m: "fp_magnitude t sb ?q = real ?q * ?u" "fp_magnitude t sb (?q + 1) = (real ?q + 1) * ?u"
    by (simp_all only: fp_magnitude_units) simp
  have "real S = real ?q * 2 ^ j + real ?r"
    using arg_cong [OF S, of real] by (simp only: of_nat_add of_nat_mult of_nat_power of_nat_numeral)
  then have "real S / 2 ^ j = real ?q + real ?r / 2 ^ j"
    by (simp only: add_divide_distrib) simp
  then have "v = fp_magnitude t sb ?q + real ?r / 2 ^ j * (fp_magnitude t sb (?q + 1) - fp_magnitude t sb ?q)"
    unfolding v m by (simp only: algebra_simps)
  then show ?thesis
    using nearest_between [of ?r j v t sb ?q] S by simp
qed


subsection \<open>The rounding step\<close>

lemma trunc_round_ok:
  fixes x :: "'d::len word" and t :: "'s::len word"
  assumes k: "0 < k" "k \<le> LENGTH('s)" and x: "unat x = A div 2 ^ k" "A div 2 ^ k + 1 < 2 ^ LENGTH('d)" and t: "unat t = A mod 2 ^ k"
  shows "unat (trunc_round k t x) = round_even k A"
proof -
  let ?h = "push_bit (k - 1) 1 :: 's word"
  have "(2 :: nat) ^ (k - 1) < 2 ^ LENGTH('s)"
    using k by (intro power_strict_increasing) simp_all
  then have h: "unat ?h = 2 ^ (k - 1)"
    using unat_of_nat_small [of "2 ^ (k - 1)", where 'a = 's] by (simp add: push_bit_eq_mult)
  have p: "(2 :: nat) ^ k = 2 * 2 ^ (k - 1)"
    using k by (simp flip: power_Suc)
  have cmp: "?h < t \<longleftrightarrow> 2 ^ k < 2 * (A mod 2 ^ k)" "t = ?h \<longleftrightarrow> 2 ^ k = 2 * (A mod 2 ^ k)"
    unfolding word_less_nat_alt word_unat_eq_iff h t p by auto
  have one: "unat (x + 1) = A div 2 ^ k + 1"
    using x by (subst unat_add_small) simp_all
  have "unat (x AND 1) = of_bool (odd (A div 2 ^ k))"
    by (simp only: unat_and_1 x(1) mod_2_eq_odd)
  then have "x AND 1 = of_bool (odd (A div 2 ^ k))"
    by (simp only: word_unat_eq_iff) simp
  then show ?thesis
    using one x(1) unfolding trunc_round_def round_even_def Let_def cmp by auto
qed

text \<open>The sticky bit: rounding in two steps is rounding once.\<close>

lemma or_sticky: "(n :: nat) OR of_bool s = n + of_bool (s \<and> even n)"
  by (cases s) (simp_all add: or_Suc_0_eq)

lemma sticky_order:
  fixes z T H A :: nat
  assumes "z < T" "even H"
  shows "H * T < A * T + z \<longleftrightarrow> H < A + of_bool (z \<noteq> 0 \<and> even A)" and "H * T = A * T + z \<longleftrightarrow> H = A + of_bool (z \<noteq> 0 \<and> even A)"
proof -
  have lt: "H * T < A * T + z \<longleftrightarrow> H < A \<or> H = A \<and> z \<noteq> 0"
  proof
    assume "H * T < A * T + z"
    then have "H * T < (A + 1) * T"
      using assms(1) by simp
    then have "H < A + 1"
      by (simp only: mult_less_cancel2)
    then show "H < A \<or> H = A \<and> z \<noteq> 0"
      using \<open>H * T < A * T + z\<close> by (cases "H = A") auto
  next
    assume "H < A \<or> H = A \<and> z \<noteq> 0"
    then show "H * T < A * T + z"
      using assms(1) by (auto intro: trans_less_add1)
  qed
  have eq: "H * T = A * T + z \<longleftrightarrow> H = A \<and> z = 0"
  proof
    assume e: "H * T = A * T + z"
    then have "z = (H * T) mod T"
      using assms(1) by simp
    then have "z = 0"
      by simp
    then show "H = A \<and> z = 0"
      using e assms(1) by simp
  qed simp
  show "H * T < A * T + z \<longleftrightarrow> H < A + of_bool (z \<noteq> 0 \<and> even A)" "H * T = A * T + z \<longleftrightarrow> H = A + of_bool (z \<noteq> 0 \<and> even A)"
    unfolding lt eq using assms(2) by (cases "z = 0"; cases "even A"; auto simp: less_Suc_eq)+
qed

lemma round_sticky:
  fixes S t k :: nat
  assumes "2 \<le> k"
  shows "round_even k (S div 2 ^ t OR of_bool (S mod 2 ^ t \<noteq> 0)) = round_even (k + t) S"
proof -
  define a z where "a = S div 2 ^ t" and "z = S mod 2 ^ t"
  define A Q where "A = a mod 2 ^ k" and "Q = a div 2 ^ k"
  define H where "H = (2 :: nat) ^ (k - 1)"
  define T where "T = (2 :: nat) ^ t"
  have H: "2 ^ k = 2 * H" "even H"
    using assms by (simp_all add: H_def flip: power_Suc)
  have z: "z < T"
    by (simp add: z_def T_def)
  let ?o = "of_bool (z \<noteq> 0 \<and> even A) :: nat"
  have ev: "even a \<longleftrightarrow> even A"
    using assms by (simp add: A_def dvd_mod_iff)
  have D: "a OR of_bool (z \<noteq> 0) = Q * 2 ^ k + (A + ?o)"
    unfolding or_sticky ev by (simp only: A_def Q_def add.assoc [symmetric] div_mult_mod_eq)
  have lt: "A + ?o < 2 ^ k"
  proof -
    have "A < 2 * H" "even (2 * H)"
      unfolding A_def H(1) [symmetric] using assms by simp_all
    then show ?thesis
      unfolding H(1) by (cases "even A") (auto intro: le_neq_implies_less simp: Suc_le_eq elim!: evenE)
  qed
  have S: "S = Q * (2 * H * T) + (A * T + z)"
  proof -
    have "S = a * T + z" "a = Q * (2 * H) + A"
      unfolding a_def z_def T_def Q_def A_def H(1) [symmetric] by (simp_all only: div_mult_mod_eq)
    then show ?thesis
      by (simp add: algebra_simps)
  qed
  have lt2: "A * T + z < 2 * H * T"
  proof -
    have "(A + 1) * T \<le> 2 * H * T"
      using lt unfolding H(1) by (intro mult_right_mono) simp_all
    then show ?thesis
      using z by simp
  qed
  have p2: "(2 :: nat) ^ (k + t) = 2 * H * T"
    by (simp add: power_add H(1) T_def)
  have c: "2 * H < 2 * (A + ?o) \<longleftrightarrow> 2 * H * T < 2 * (A * T + z)" "2 * H = 2 * (A + ?o) \<longleftrightarrow> 2 * H * T = 2 * (A * T + z)"
  proof -
    have "2 * H * T < 2 * (A * T + z) \<longleftrightarrow> H * T < A * T + z" "2 * H * T = 2 * (A * T + z) \<longleftrightarrow> H * T = A * T + z"
      unfolding mult.assoc by (simp_all only: mult_less_cancel1 mult_cancel1) simp_all
    moreover have "H * T < A * T + z \<longleftrightarrow> H < A + ?o" "H * T = A * T + z \<longleftrightarrow> H = A + ?o"
      using sticky_order [OF z H(2), of A] by simp_all
    ultimately show "2 * H < 2 * (A + ?o) \<longleftrightarrow> 2 * H * T < 2 * (A * T + z)" "2 * H = 2 * (A + ?o) \<longleftrightarrow> 2 * H * T = 2 * (A * T + z)"
      by (simp_all only: mult_less_cancel1 mult_cancel1) simp_all
  qed
  have digits: "(Q * b + x) div b = Q" "(Q * b + x) mod b = x" if "x < b" for x b :: nat
    using that by simp_all
  show ?thesis
    unfolding a_def [symmetric] z_def [symmetric] D unfolding S round_even_def Let_def p2 digits [OF lt] digits [OF lt2]
    unfolding H(1) c ..
qed


subsection \<open>The magnitude, case by case\<close>

lemma range_test:
  fixes x u w :: "'r::len word"
  assumes "unat u \<le> unat w"
  shows "x - u < x - w \<longleftrightarrow> unat u \<le> unat x \<and> unat x < unat w"
proof -
  define L where "L = (2 :: nat) ^ LENGTH('r)"
  have "unat w < L"
    unfolding L_def by (rule unsigned_less)
  then show ?thesis
    using assms unfolding word_less_nat_alt unat_sub_if' L_def [symmetric] by auto
qed

text \<open>What the routine returns, with the tests and the shifts as operations on numbers.\<close>

lemma trunc_tests:
  fixes a :: "'s::len word"
  assumes w: "narrower TYPE('s) ss TYPE('d::len) ds"
  defines "n \<equiv> fp_abs a" and "C \<equiv> exponentBias TYPE('s) ss - exponentBias TYPE('d) ds" and "M \<equiv> maxExponent TYPE('d) ds"
  shows "(a AND absMask ss) - push_bit ss (of_nat (exponentBias TYPE('s) ss + 1 - exponentBias TYPE('d) ds))
      < (a AND absMask ss) - push_bit ss (of_nat (exponentBias TYPE('s) ss + M - exponentBias TYPE('d) ds))
      \<longleftrightarrow> (C + 1) * 2 ^ ss \<le> n \<and> n < (C + M) * 2 ^ ss"
    and "srcInfinity ss < a AND absMask ss \<longleftrightarrow> maxExponent TYPE('s) ss * 2 ^ ss < n"
    and "push_bit ss (of_nat (exponentBias TYPE('s) ss + M - exponentBias TYPE('d) ds)) \<le> a AND absMask ss \<longleftrightarrow> (C + M) * 2 ^ ss \<le> n"
proof -
  have f: "fp_format TYPE('s) ss" "fp_format TYPE('d) ds" and le: "exponentBias TYPE('d) ds \<le> exponentBias TYPE('s) ss"
    using w by (simp_all add: narrower_def)
  have M: "C + M \<le> maxExponent TYPE('s) ss" "0 < M"
    using w max_exponent_pos [OF f(2)] unfolding narrower_def C_def M_def by linarith+
  have e: "exponentBias TYPE('s) ss + k - exponentBias TYPE('d) ds = C + k" for k
    using le by (simp add: C_def)
  have x: "unat (a AND absMask ss) = n"
    unfolding n_def by (rule unat_abs [OF f(1)])
  have at: "unat (push_bit ss (of_nat (C + k)) :: 's word) = (C + k) * 2 ^ ss" if "k \<le> M" for k
    using unat_exponent_at(1) [OF f(1), of "C + k"] that M by simp
  have inf: "unat (srcInfinity ss :: 's word) = maxExponent TYPE('s) ss * 2 ^ ss"
    unfolding srcInfinity_def by (rule unat_exponent_at(1) [OF f(1) order_refl])
  have "(C + 1) * 2 ^ ss \<le> (C + M) * 2 ^ ss"
    using M by (intro mult_right_mono) simp_all
  then show "(a AND absMask ss) - push_bit ss (of_nat (exponentBias TYPE('s) ss + 1 - exponentBias TYPE('d) ds))
      < (a AND absMask ss) - push_bit ss (of_nat (exponentBias TYPE('s) ss + M - exponentBias TYPE('d) ds))
      \<longleftrightarrow> (C + 1) * 2 ^ ss \<le> n \<and> n < (C + M) * 2 ^ ss"
    unfolding e using M at [of 1] at [of M] by (subst range_test) (simp_all only: x Suc_leI One_nat_def order_refl)
  show "srcInfinity ss < a AND absMask ss \<longleftrightarrow> maxExponent TYPE('s) ss * 2 ^ ss < n"
    by (simp only: word_less_nat_alt inf x)
  show "push_bit ss (of_nat (exponentBias TYPE('s) ss + M - exponentBias TYPE('d) ds)) \<le> a AND absMask ss \<longleftrightarrow> (C + M) * 2 ^ ss \<le> n"
    unfolding e by (simp only: word_le_nat_alt x at [OF order_refl])
qed

lemma round_even_le: "round_even k A \<le> A div 2 ^ k + 1"
  by (simp add: round_even_def Let_def)

text \<open>Numbers that are normal in the destination: the exponent is lowered and the significand rounded.\<close>

lemma trunc_normal_word:
  fixes a :: "'s::len word"
  assumes w: "narrower TYPE('s) ss TYPE('d::len) ds"
  defines "n \<equiv> fp_abs a" and "C \<equiv> exponentBias TYPE('s) ss - exponentBias TYPE('d) ds" and "M \<equiv> maxExponent TYPE('d) ds"
  assumes n: "(C + 1) * 2 ^ ss \<le> n" "n < (C + M) * 2 ^ ss"
  defines "X \<equiv> n - C * 2 ^ ss"
  shows "unat (trunc_abs ss ds a :: 'd word) = round_even (ss - ds) X" and "round_even (ss - ds) X \<le> M * 2 ^ ds"
proof -
  have f: "fp_format TYPE('s) ss" "fp_format TYPE('d) ds" and d: "ds + 2 \<le> ss"
    using w by (simp_all add: narrower_def)
  define k where "k = ss - ds"
  have p: "(2 :: nat) ^ ss = 2 ^ ds * 2 ^ k"
    using d by (simp add: k_def flip: power_add)
  have k: "0 < k" "k \<le> LENGTH('s)"
    using d f(1) by (simp_all add: k_def fp_format_def)
  have x: "unat (a AND absMask ss) = n"
    unfolding n_def by (rule unat_abs [OF f(1)])
  have nX: "n = X + C * 2 ^ ds * 2 ^ k" and lt: "X < M * 2 ^ ss"
    using n unfolding X_def p by (simp_all add: algebra_simps)
  have q: "X div 2 ^ k < M * 2 ^ ds"
    using lt unfolding p mult.assoc [symmetric] by (rule less_mult_imp_div_less)
  moreover have top_lt: "M * 2 ^ ds < 2 ^ LENGTH('d)"
    using unat_exponent_at(2) [OF f(2) order_refl] half_range [where 'r = 'd] unfolding M_def by linarith
  ultimately have fit: "X div 2 ^ k + 1 < 2 ^ LENGTH('d)"
    by linarith
  have r: "unat ((a AND absMask ss) AND (push_bit k 1 - 1)) = X mod 2 ^ k"
    unfolding push_bit_1_minus_1 unat_low_digit x nX by simp
  have "n div 2 ^ k = X div 2 ^ k + C * 2 ^ ds"
    unfolding nX by simp
  then have "unat (drop_bit k (a AND absMask ss)) = X div 2 ^ k + C * 2 ^ ds"
    by (simp only: unat_high_digit x)
  then have "ucast (drop_bit k (a AND absMask ss)) = (of_nat (X div 2 ^ k + C * 2 ^ ds) :: 'd word)"
    by (metis of_nat_unat)
  then have "ucast (drop_bit k (a AND absMask ss)) - push_bit ds (of_nat C) = (of_nat (X div 2 ^ k) :: 'd word)"
    by (simp add: push_bit_eq_mult)
  then have y: "unat (ucast (drop_bit k (a AND absMask ss)) - push_bit ds (of_nat C) :: 'd word) = X div 2 ^ k"
    using fit by (simp only: unat_of_nat_small add_lessD1)
  have "(trunc_abs ss ds a :: 'd word) = trunc_round k ((a AND absMask ss) AND (push_bit k 1 - 1))
      (ucast (drop_bit k (a AND absMask ss)) - push_bit ds (of_nat C))"
    using n trunc_tests(1) [OF w, of a] unfolding trunc_abs_def Let_def n_def C_def M_def k_def by (simp only: simp_thms if_True)
  then show "unat (trunc_abs ss ds a :: 'd word) = round_even (ss - ds) X"
    using trunc_round_ok [OF k y fit r] by (simp only: k_def)
  show "round_even (ss - ds) X \<le> M * 2 ^ ds"
    using round_even_le [of k X] q unfolding k_def by linarith
qed

lemma trunc_normal_nearest:
  assumes w: "narrower TYPE('s::len) ss TYPE('d::len) ds"
  defines "C \<equiv> exponentBias TYPE('s) ss - exponentBias TYPE('d) ds"
  assumes n: "(C + 1) * 2 ^ ss \<le> n"
  shows "fp_nearest TYPE('d) ds (fp_magnitude TYPE('s) ss n) (round_even (ss - ds) (n - C * 2 ^ ss))"
proof -
  have f: "fp_format TYPE('s) ss" "fp_format TYPE('d) ds" and d: "ds + 2 \<le> ss"
    and B: "exponentBias TYPE('d) ds + C = exponentBias TYPE('s) ss"
    using w by (simp_all add: narrower_def C_def)
  define k X where "k = ss - ds" and "X = n - C * 2 ^ ss"
  define E m where "E = X div 2 ^ ss" and "m = X mod 2 ^ ss"
  define h r where "h = m div 2 ^ k" and "r = m mod 2 ^ k"
  have p: "(2 :: nat) ^ ss = 2 ^ ds * 2 ^ k"
    using d by (simp add: k_def flip: power_add)
  have X: "X = m + E * 2 ^ ss" "m < 2 ^ ss" and m: "m = h * 2 ^ k + r" "r < 2 ^ k"
    unfolding E_def m_def h_def r_def by (simp_all only: mod_div_mult_eq div_mult_mod_eq) simp_all
  have h: "h < 2 ^ ds"
    using X(2) unfolding h_def p by (rule less_mult_imp_div_less)
  have le: "2 ^ ss \<le> X" and nX: "n = m + (E + C) * 2 ^ ss"
    using n X(1) unfolding X_def by (simp_all add: algebra_simps)
  then have E: "0 < E"
    by (simp add: E_def div_greater_zero_iff)
  let ?q = "2 ^ ds + h - 2 ^ ds + E * 2 ^ ds"
  have Xq: "X = ?q * 2 ^ k + r"
    unfolding X(1) m(1) p by (simp add: algebra_simps)
  have q: "fp_magnitude TYPE('d) ds ?q = real (2 ^ ds + h) * 2 ^ E / (2 ^ exponentBias TYPE('d) ds * 2 ^ ds)"
    by (rule fp_magnitude_at(1) [OF f(2) _ _ E]) (use h in simp_all)
  have q1: "fp_magnitude TYPE('d) ds (?q + 1) = real (2 ^ ds + h + 1) * 2 ^ E / (2 ^ exponentBias TYPE('d) ds * 2 ^ ds)"
    using fp_magnitude_at(1) [OF f(2) _ _ E, of "2 ^ ds + h + 1"] h by simp
  have v: "fp_magnitude TYPE('s) ss n = real (2 ^ ss + m) * 2 ^ (E + C) / (2 ^ exponentBias TYPE('s) ss * 2 ^ ss)"
    using fp_magnitude_at(1) [OF f(1), of "2 ^ ss + m" "E + C"] X(2) E nX by simp
  have sig: "real (2 ^ ss + m) = real (2 ^ ds + h) * 2 ^ k + real r"
    unfolding m(1) p by (simp add: algebra_simps)
  have pows: "(2 :: real) ^ exponentBias TYPE('s) ss = 2 ^ exponentBias TYPE('d) ds * 2 ^ C" "(2 :: real) ^ ss = 2 ^ ds * 2 ^ k"
    "(2 :: real) ^ (E + C) = 2 ^ E * 2 ^ C"
    using B d by (simp_all add: k_def flip: power_add)
  have "fp_magnitude TYPE('s) ss n = fp_magnitude TYPE('d) ds ?q
      + real r / 2 ^ k * (fp_magnitude TYPE('d) ds (?q + 1) - fp_magnitude TYPE('d) ds ?q)"
    unfolding v q q1 sig pows by (simp add: field_simps)
  from nearest_between [OF m(2) this] show ?thesis
    unfolding Xq [symmetric] by (simp only: k_def X_def)
qed

text \<open>Numbers below the normal ones of the destination: the significand is moved to the right and rounded.\<close>

lemma small_magnitude:
  fixes n :: nat
  assumes w: "narrower TYPE('s::len) ss TYPE('d::len) ds"
  defines "C \<equiv> exponentBias TYPE('s) ss - exponentBias TYPE('d) ds" and "e \<equiv> n div 2 ^ ss" and "m \<equiv> n mod 2 ^ ss"
  shows "0 < e \<Longrightarrow> e \<le> C \<Longrightarrow> fp_magnitude TYPE('s) ss n
      = real (2 ^ ss + m) / 2 ^ (ss - ds + (C - e + 1)) * (2 / (2 ^ ds * 2 ^ exponentBias TYPE('d) ds))"
    and "e = 0 \<Longrightarrow> fp_magnitude TYPE('s) ss n = real m / 2 ^ (ss - ds + C) * (2 / (2 ^ ds * 2 ^ exponentBias TYPE('d) ds))"
proof -
  have f: "fp_format TYPE('s) ss" and d: "ds \<le> ss" and B: "exponentBias TYPE('d) ds + C = exponentBias TYPE('s) ss"
    using w by (simp_all add: narrower_def C_def)
  have pows: "(2 :: real) ^ exponentBias TYPE('s) ss = 2 ^ exponentBias TYPE('d) ds * 2 ^ C" "(2 :: real) ^ ss = 2 ^ ds * 2 ^ (ss - ds)"
    using B d by (simp_all flip: power_add)
  have n: "n = m + e * 2 ^ ss" and m: "m < 2 ^ ss"
    unfolding e_def m_def by (simp_all only: mod_div_mult_eq) simp
  show "fp_magnitude TYPE('s) ss n = real (2 ^ ss + m) / 2 ^ (ss - ds + (C - e + 1)) * (2 / (2 ^ ds * 2 ^ exponentBias TYPE('d) ds))"
    if e: "0 < e" "e \<le> C"
  proof -
    have c: "(2 :: real) ^ C = 2 ^ e * 2 ^ (C - e)"
      using e(2) by (simp flip: power_add)
    have v: "fp_magnitude TYPE('s) ss n = real (2 ^ ss + m) * 2 ^ e / (2 ^ exponentBias TYPE('s) ss * 2 ^ ss)"
      using fp_magnitude_at(1) [OF f, of "2 ^ ss + m" e] m e(1) n by simp
    show ?thesis
      unfolding v pows c power_add by (simp add: field_simps)
  qed
  show "fp_magnitude TYPE('s) ss n = real m / 2 ^ (ss - ds + C) * (2 / (2 ^ ds * 2 ^ exponentBias TYPE('d) ds))" if "e = 0"
    using that unfolding fp_magnitude_def Let_def e_def m_def by (simp add: pows power_add field_simps)
qed

lemma round_even_small: "2 * S < 2 ^ j \<Longrightarrow> round_even j S = 0"
  by (simp add: round_even_def Let_def)

text \<open>Numbers below half of the least positive one become zero.\<close>

lemma trunc_zero_nearest:
  assumes w: "narrower TYPE('s::len) ss TYPE('d::len) ds"
  defines "C \<equiv> exponentBias TYPE('s) ss - exponentBias TYPE('d) ds"
  assumes n: "n div 2 ^ ss + ss \<le> C"
  shows "fp_nearest TYPE('d) ds (fp_magnitude TYPE('s) ss n) 0"
proof -
  let ?e = "n div 2 ^ ss" and ?m = "n mod 2 ^ ss"
  have d: "2 \<le> ss - ds"
    using w unfolding narrower_def by linarith
  have m: "?m < 2 ^ ss"
    by simp
  then have m2: "?m < 2 ^ Suc ss"
    by (rule less_trans) simp
  have z: "fp_nearest TYPE('d) ds v 0" if "v = real S / 2 ^ j * (2 / (2 ^ ds * 2 ^ exponentBias TYPE('d) ds))"
    "S < 2 ^ Suc ss" "Suc (Suc ss) \<le> j" for v S j
  proof -
    have "(2 :: nat) ^ Suc (Suc ss) \<le> 2 ^ j"
      using that(3) by (intro power_increasing) simp_all
    then have lt: "2 * S < 2 ^ j"
      using that(2) by simp
    then have "S div 2 ^ j < 2 ^ ds"
      by simp
    then show ?thesis
      using nearest_multiple [OF _ that(1)] round_even_small [OF lt] by simp
  qed
  show ?thesis
  proof (cases "?e = 0")
    case True
    show ?thesis
      by (rule z [OF small_magnitude(2) [OF w True] m2]) (use n d in \<open>simp add: C_def\<close>)
  next
    case False
    show ?thesis
      by (rule z [OF small_magnitude(1) [OF w]]) (use False m n d in \<open>simp_all add: C_def\<close>)
  qed
qed

text \<open>The bits that the shift drops decide the sticky bit.\<close>

lemma sticky_bits:
  fixes x :: "'s::len word"
  assumes "t \<le> LENGTH('s)"
  shows "push_bit (LENGTH('s) - t) x \<noteq> 0 \<longleftrightarrow> unat x mod 2 ^ t \<noteq> 0"
proof -
  have p: "(2 :: nat) ^ LENGTH('s) = 2 ^ t * 2 ^ (LENGTH('s) - t)"
    using assms by (simp flip: power_add)
  have "push_bit (LENGTH('s) - t) x = (of_nat (unat x * 2 ^ (LENGTH('s) - t)) :: 's word)"
    by (simp add: push_bit_eq_mult)
  then have "unat (push_bit (LENGTH('s) - t) x) = unat x * 2 ^ (LENGTH('s) - t) mod 2 ^ LENGTH('s)"
    by (simp only: unat_of_nat)
  also have "\<dots> = unat x mod 2 ^ t * 2 ^ (LENGTH('s) - t)"
    unfolding p by (simp only: mult_mod_left)
  finally show ?thesis
    by (simp add: word_unat_eq_iff)
qed

lemma trunc_denormal_word:
  fixes a :: "'s::len word"
  assumes w: "narrower TYPE('s) ss TYPE('d::len) ds"
  defines "n \<equiv> fp_abs a" and "C \<equiv> exponentBias TYPE('s) ss - exponentBias TYPE('d) ds"
  assumes n: "n < (C + 1) * 2 ^ ss"
  defines "S \<equiv> 2 ^ ss + n mod 2 ^ ss" and "t \<equiv> C - n div 2 ^ ss + 1"
  shows "unat (trunc_abs ss ds a :: 'd word) = (if ss < t then 0 else round_even (ss - ds + t) S)"
proof -
  have f: "fp_format TYPE('s) ss" "fp_format TYPE('d) ds" and d: "ds + 2 \<le> ss"
    and B: "exponentBias TYPE('d) ds \<le> exponentBias TYPE('s) ss"
    using w by (simp_all add: narrower_def)
  have M: "C + 1 \<le> C + maxExponent TYPE('d) ds" "C + maxExponent TYPE('d) ds \<le> maxExponent TYPE('s) ss"
    using w max_exponent_pos [OF f(2)] unfolding narrower_def C_def by linarith+
  have lt: "n < (C + maxExponent TYPE('d) ds) * 2 ^ ss" "n < maxExponent TYPE('s) ss * 2 ^ ss"
    using n mult_right_mono [OF M(1), of "2 ^ ss"] mult_right_mono [OF order_trans [OF M], of "2 ^ ss"] by simp_all
  let ?x = "a AND absMask ss"
  define k where "k = ss - ds"
  define sig where "sig = (a AND (implicitBit ss - 1)) OR implicitBit ss"
  define D where "D = drop_bit t sig OR of_bool (push_bit (LENGTH('s) - t) sig \<noteq> 0)"
  have e: "n div 2 ^ ss \<le> C"
    using n by (simp add: less_Suc_eq_le [symmetric] div_less_iff_less_mult)
  then have shift: "int (exponentBias TYPE('s) ss) - int (exponentBias TYPE('d) ds) - int (unat (drop_bit ss ?x)) + 1 = int t"
    using B unfolding fp_exponent_part [OF f(1)] by (simp add: t_def C_def n_def)
  have tests: "\<not> (?x - push_bit ss (of_nat (exponentBias TYPE('s) ss + 1 - exponentBias TYPE('d) ds))
      < ?x - push_bit ss (of_nat (exponentBias TYPE('s) ss + maxExponent TYPE('d) ds - exponentBias TYPE('d) ds)))"
    "\<not> srcInfinity ss < ?x"
    "\<not> push_bit ss (of_nat (exponentBias TYPE('s) ss + maxExponent TYPE('d) ds - exponentBias TYPE('d) ds)) \<le> ?x"
    unfolding trunc_tests [OF w] using n lt by (simp_all add: n_def C_def)
  have y: "(trunc_abs ss ds a :: 'd word) = (if ss < t then 0 else trunc_round k (D AND (push_bit k 1 - 1)) (ucast (drop_bit k D)))"
    unfolding trunc_abs_def Let_def shift using tests by (simp add: D_def k_def sig_def nat_diff_distrib')
  show ?thesis
  proof (cases "ss < t")
    case False
    have "a AND (implicitBit ss - 1) = ?x AND significandMask ss"
      unfolding significandMask_def [symmetric] significandMask_mask absMask_mask [OF f(1)]
      by (rule bit_word_eqI) (use f(1) in \<open>auto simp: bit_simps fp_format_def\<close>)
    then have sig: "unat sig = S"
      using fp_significand_part [OF f(1), of a] by (simp add: sig_def S_def n_def and.assoc)
    have t: "t \<le> LENGTH('s)" "0 < t"
      using False f(1) by (simp_all add: fp_format_def t_def)
    have D: "unat D = S div 2 ^ t OR of_bool (S mod 2 ^ t \<noteq> 0)"
      unfolding D_def sticky_bits [OF t(1)] unsigned_or_eq unat_high_digit sig by simp
    have p: "(2 :: nat) ^ ss = 2 ^ ds * 2 ^ k"
      using d by (simp add: k_def flip: power_add)
    have "S < 2 ^ ss * 2 ^ 1"
      by (simp add: S_def)
    also have "\<dots> \<le> 2 ^ ss * 2 ^ t"
      using t(2) by (intro mult_left_mono power_increasing) simp_all
    finally have "S div 2 ^ t < 2 ^ ss"
      by (rule less_mult_imp_div_less)
    then have "unat D \<le> 2 ^ ss"
      unfolding D or_sticky by simp
    then have "unat D div 2 ^ k \<le> 2 ^ ds"
      unfolding p using div_le_mono [of "unat D" "2 ^ ds * 2 ^ k" "2 ^ k"] by simp
    moreover have "(2 :: nat) * 2 ^ ds < 2 ^ LENGTH('d)" "2 \<le> (2 :: nat) ^ ds"
      using f(2) power_strict_increasing [of "Suc ds" "LENGTH('d)" "2 :: nat"] self_le_power [of "2 :: nat" ds]
      by (simp_all add: fp_format_def)
    ultimately have fit: "unat D div 2 ^ k + 1 < 2 ^ LENGTH('d)"
      by linarith
    have q: "unat (ucast (drop_bit k D) :: 'd word) = unat D div 2 ^ k"
      using fit unat_shifted [of "drop_bit k D" 0, where 'd = 'd] by (simp add: unat_high_digit)
    have r: "unat (D AND (push_bit k 1 - 1)) = unat D mod 2 ^ k"
      unfolding push_bit_1_minus_1 by (rule unat_low_digit)
    have "unat (trunc_round k (D AND (push_bit k 1 - 1)) (ucast (drop_bit k D)) :: 'd word) = round_even k (unat D)"
      by (rule trunc_round_ok [OF _ _ q fit r]) (use d f(1) in \<open>simp_all add: k_def fp_format_def\<close>)
    also have "\<dots> = round_even (k + t) S"
      unfolding D by (rule round_sticky) (use d in \<open>simp add: k_def\<close>)
    finally show ?thesis
      using False unfolding y by (simp add: k_def)
  qed (simp add: y)
qed

lemma trunc_small:
  fixes a :: "'s::len word"
  assumes w: "narrower TYPE('s) ss TYPE('d::len) ds"
  defines "n \<equiv> fp_abs a" and "C \<equiv> exponentBias TYPE('s) ss - exponentBias TYPE('d) ds" and "y \<equiv> trunc_abs ss ds a :: 'd word"
  assumes n: "n < (C + 1) * 2 ^ ss"
  shows "unat y \<le> 2 ^ ds" and "fp_nearest TYPE('d) ds (fp_magnitude TYPE('s) ss n) (unat y)"
proof -
  let ?S = "2 ^ ss + n mod 2 ^ ss" and ?t = "C - n div 2 ^ ss + 1"
  note y = trunc_denormal_word [OF w n [unfolded n_def C_def], folded n_def C_def y_def]
  have e: "n div 2 ^ ss \<le> C"
    using n by (simp add: less_Suc_eq_le [symmetric] div_less_iff_less_mult)
  have d: "ds + 2 \<le> ss" and C: "ss \<le> C"
    using w unfolding narrower_def C_def by linarith+
  show "unat y \<le> 2 ^ ds" "fp_nearest TYPE('d) ds (fp_magnitude TYPE('s) ss n) (unat y)"
  proof (atomize (full), cases "ss < ?t")
    case True
    then have "n div 2 ^ ss + ss \<le> exponentBias TYPE('s) ss - exponentBias TYPE('d) ds"
      using e by (simp add: C_def)
    then show "unat y \<le> 2 ^ ds \<and> fp_nearest TYPE('d) ds (fp_magnitude TYPE('s) ss n) (unat y)"
      using trunc_zero_nearest [OF w] True y by simp
  next
    case False
    then have pos: "0 < n div 2 ^ ss"
      using C by (cases "n div 2 ^ ss") simp_all
    have "ss < ds + (ss - ds + ?t)"
      using d by simp
    then have "Suc ss \<le> ds + (ss - ds + ?t)"
      by simp
    then have "(2 :: nat) ^ Suc ss \<le> 2 ^ ds * 2 ^ (ss - ds + ?t)"
      unfolding power_add [symmetric] by (rule power_increasing) simp
    moreover have "?S < 2 ^ Suc ss"
      by simp
    ultimately have lt: "?S div 2 ^ (ss - ds + ?t) < 2 ^ ds"
      by (intro less_mult_imp_div_less) linarith
    have "unat y = round_even (ss - ds + ?t) ?S"
      using y False by simp
    moreover have "round_even (ss - ds + ?t) ?S \<le> 2 ^ ds"
      using round_even_le [of "ss - ds + ?t" ?S] lt by linarith
    moreover have "fp_nearest TYPE('d) ds (fp_magnitude TYPE('s) ss n) (round_even (ss - ds + ?t) ?S)"
      by (rule nearest_multiple [OF lt]) (rule small_magnitude(1) [OF w pos e [unfolded C_def], folded C_def])
    ultimately show "unat y \<le> 2 ^ ds \<and> fp_nearest TYPE('d) ds (fp_magnitude TYPE('s) ss n) (unat y)"
      by simp
  qed
qed

text \<open>Not a number stays so, and what is too large becomes infinite.\<close>

lemma trunc_special:
  fixes a :: "'s::len word"
  assumes w: "narrower TYPE('s) ss TYPE('d::len) ds"
  defines "n \<equiv> fp_abs a" and "C \<equiv> exponentBias TYPE('s) ss - exponentBias TYPE('d) ds" and "M \<equiv> maxExponent TYPE('d) ds"
    and "y \<equiv> trunc_abs ss ds a :: 'd word"
  assumes n: "(C + M) * 2 ^ ss \<le> n"
  shows "unat y < 2 ^ (LENGTH('d) - 1)" and "n \<le> maxExponent TYPE('s) ss * 2 ^ ss \<Longrightarrow> unat y = M * 2 ^ ds"
    and "maxExponent TYPE('s) ss * 2 ^ ss < n \<Longrightarrow> M * 2 ^ ds < unat y"
proof -
  have f: "fp_format TYPE('d) ds"
    using w by (simp add: narrower_def)
  note tests = trunc_tests [OF w, of a, folded n_def C_def M_def]
  note at = unat_exponent_at [OF f order_refl, folded M_def]
  have "0 < ds"
    using f by (simp add: fp_format_def)
  let ?q = "push_bit (ds - 1) 1 :: 'd word"
  define z where "z = ?q OR (ucast (drop_bit (ss - ds) ((a AND absMask ss) AND (push_bit (ss - 1) 1 - 1))) AND (?q - 1))"
  have b: "bit z i \<Longrightarrow> i < ds" "bit z (ds - 1)" for i
    unfolding z_def push_bit_1_minus_1 using f by (auto simp: bit_simps fp_format_def)
  have z: "unat z < 2 ^ ds"
    unfolding unat_small_bits using b(1) leD by blast
  have "z \<noteq> 0"
    using b(2) by auto
  then have z0: "0 < unat z"
    by (simp add: unat_gt_0)
  have nan: "unat y = unat z + M * 2 ^ ds" if "maxExponent TYPE('s) ss * 2 ^ ss < n"
  proof -
    have "y = z OR push_bit ds (of_nat M)"
      using tests that n unfolding y_def trunc_abs_def Let_def M_def z_def by (simp add: ac_simps)
    then show ?thesis
      using or_exponent(2) [OF f order_refl z] by (simp only: M_def)
  qed
  have inf: "unat y = M * 2 ^ ds" if "n \<le> maxExponent TYPE('s) ss * 2 ^ ss"
  proof -
    have "y = push_bit ds (of_nat M)"
      using tests that n unfolding y_def trunc_abs_def Let_def M_def by simp
    then show ?thesis
      using at(1) by simp
  qed
  show "unat y = M * 2 ^ ds" if "n \<le> maxExponent TYPE('s) ss * 2 ^ ss"
    using that by (rule inf)
  show "M * 2 ^ ds < unat y" if "maxExponent TYPE('s) ss * 2 ^ ss < n"
    using nan [OF that] z0 by simp
  show "unat y < 2 ^ (LENGTH('d) - 1)"
    using nan inf z at(2) by (cases "n \<le> maxExponent TYPE('s) ss * 2 ^ ss") simp_all
qed


subsection \<open>The whole conversion\<close>

text \<open>
  The sign is kept; a number is rounded to the nearest, ties to even, where everything from the first magnitude
  after the finite ones on counts as that magnitude, whose representation is infinity.
\<close>

definition narrows :: "nat \<Rightarrow> 's::len word \<Rightarrow> nat \<Rightarrow> 'd::len word \<Rightarrow> bool" where
  "narrows ss a ds r \<longleftrightarrow>
     fp_neg r = fp_neg a
     \<and> (case fp_decode ss a of
          Not_a_number \<Rightarrow> fp_decode ds r = Not_a_number
        | Infinity s \<Rightarrow> fp_decode ds r = Infinity s
        | Finite v \<Rightarrow> fp_nearest TYPE('d) ds
            (min \<bar>v\<bar> (fp_magnitude TYPE('d) ds (maxExponent TYPE('d) ds * 2 ^ ds))) (fp_abs r))"

lemma trunc_sign:
  fixes a :: "'s::len word"
  assumes "narrower TYPE('s) ss TYPE('d::len) ds"
  shows "ucast (drop_bit (LENGTH('s) - LENGTH('d)) (a AND signBit ss)) = (if fp_neg a then signBit ds else 0 :: 'd word)"
proof -
  have f: "fp_format TYPE('s) ss" "fp_format TYPE('d) ds" "LENGTH('d) < LENGTH('s)"
    using assms by (simp_all add: narrower_def)
  have hs: "signBit ss = (push_bit (LENGTH('s) - 1) 1 :: 's word)" and hd: "signBit ds = (push_bit (LENGTH('d) - 1) 1 :: 'd word)"
    by (simp_all only: signBit_def format_width [OF f(1)] format_width [OF f(2)])
  have top: "LENGTH('s) + (LENGTH('d) - Suc 0) - LENGTH('d) = LENGTH('s) - Suc 0"
    using f(3) len_gt_0 [where 'a = 'd] by linarith
  show ?thesis
    unfolding hs hd by (rule bit_word_eqI) (use f(3) in \<open>auto simp: bit_simps fp_neg_def top\<close>)
qed

text \<open>The largest magnitudes of the two formats.\<close>

lemma magnitude_limit:
  assumes w: "narrower TYPE('s::len) ss TYPE('d::len) ds"
  defines "C \<equiv> exponentBias TYPE('s) ss - exponentBias TYPE('d) ds" and "M \<equiv> maxExponent TYPE('d) ds"
  shows "fp_magnitude TYPE('s) ss ((C + M) * 2 ^ ss) = fp_magnitude TYPE('d) ds (M * 2 ^ ds)"
proof -
  have "exponentBias TYPE('s) ss = exponentBias TYPE('d) ds + C" "0 < M"
    using w max_exponent_pos [of ds, where 'r = 'd] by (simp_all add: narrower_def C_def M_def)
  then show ?thesis
    by (simp add: fp_magnitude_def Let_def power_add)
qed

lemma fp_finite_abs:
  assumes "fp_format TYPE('r::len) sb" "fp_decode sb (a :: 'r word) = Finite v"
  shows "\<bar>v\<bar> = fp_magnitude TYPE('r) sb (fp_abs a)" and "fp_abs a < maxExponent TYPE('r) sb * 2 ^ sb"
proof -
  show "\<bar>v\<bar> = fp_magnitude TYPE('r) sb (fp_abs a)"
    using assms(2) fp_magnitude_order(4) [of "TYPE('r)" sb "fp_abs a"] by (auto simp: fp_decode_def Let_def split: if_splits)
  have "fp_abs a div 2 ^ sb \<noteq> maxExponent TYPE('r) sb"
    using assms(2) by (auto simp: fp_decode_def Let_def split: if_splits)
  then have "fp_abs a div 2 ^ sb < maxExponent TYPE('r) sb"
    using fp_exponent_le [OF assms(1), of a] by simp
  then show "fp_abs a < maxExponent TYPE('r) sb * 2 ^ sb"
    by (simp add: div_less_iff_less_mult)
qed

lemma fp_infinity:
  assumes "fp_decode sb (a :: 'r::len word) = Infinity s"
  shows "fp_neg a = s" and "fp_abs a = maxExponent TYPE('r) sb * 2 ^ sb"
proof -
  have "fp_abs a div 2 ^ sb = maxExponent TYPE('r) sb" "fp_abs a mod 2 ^ sb = 0" "fp_neg a = s"
    using assms by (auto simp: fp_decode_def Let_def split: if_splits)
  then show "fp_neg a = s" "fp_abs a = maxExponent TYPE('r) sb * 2 ^ sb"
    using div_mult_mod_eq [of "fp_abs a" "2 ^ sb"] by simp_all
qed

lemma trunc_finite:
  fixes a :: "'s::len word"
  assumes w: "narrower TYPE('s) ss TYPE('d::len) ds" and v: "fp_decode ss a = Finite v"
  defines "y \<equiv> trunc_abs ss ds a :: 'd word" and "M \<equiv> maxExponent TYPE('d) ds"
  shows "unat y \<le> M * 2 ^ ds" and "fp_nearest TYPE('d) ds (min \<bar>v\<bar> (fp_magnitude TYPE('d) ds (M * 2 ^ ds))) (unat y)"
proof -
  define C where "C = exponentBias TYPE('s) ss - exponentBias TYPE('d) ds"
  have f: "fp_format TYPE('s) ss" "fp_format TYPE('d) ds"
    using w by (simp_all add: narrower_def)
  note abs = fp_finite_abs [OF f(1) v]
  note limit = magnitude_limit [OF w, folded C_def M_def]
  have M: "1 \<le> M"
    using max_exponent_pos [OF f(2)] by (simp add: M_def)
  consider (small) "fp_abs a < (C + 1) * 2 ^ ss" | (normal) "(C + 1) * 2 ^ ss \<le> fp_abs a" "fp_abs a < (C + M) * 2 ^ ss"
    | (large) "(C + M) * 2 ^ ss \<le> fp_abs a"
    by linarith
  then have "unat y \<le> M * 2 ^ ds \<and> fp_nearest TYPE('d) ds (min \<bar>v\<bar> (fp_magnitude TYPE('d) ds (M * 2 ^ ds))) (unat y)"
  proof cases
    case large
    then have "unat y = M * 2 ^ ds" "fp_magnitude TYPE('d) ds (M * 2 ^ ds) \<le> \<bar>v\<bar>"
      using trunc_special(2) [OF w, of a] abs fp_magnitude_mono [OF large, of "TYPE('s)" ss] limit by (simp_all add: y_def C_def M_def)
    then show ?thesis
      by (simp add: fp_nearest_self)
  next
    case small
    have "(C + 1) * 2 ^ ss \<le> (C + M) * 2 ^ ss"
      using M by (intro mult_right_mono) simp_all
    moreover have "2 ^ ds \<le> M * 2 ^ ds"
      using M by simp
    ultimately have "\<bar>v\<bar> < fp_magnitude TYPE('d) ds (M * 2 ^ ds)" "2 ^ ds \<le> M * 2 ^ ds"
      using small unfolding abs(1) limit [symmetric] fp_magnitude_order(1) by simp_all
    moreover have "unat y \<le> 2 ^ ds" "fp_nearest TYPE('d) ds \<bar>v\<bar> (unat y)"
      using trunc_small [OF w, of a] small by (simp_all add: abs(1) y_def C_def)
    ultimately show ?thesis
      by (auto simp: min_def intro: order_trans)
  next
    case normal
    then have "\<bar>v\<bar> < fp_magnitude TYPE('d) ds (M * 2 ^ ds)"
      by (simp only: abs(1) fp_magnitude_order(1) flip: limit)
    then show ?thesis
      using trunc_normal_word [OF w normal [unfolded C_def M_def]] trunc_normal_nearest [OF w normal(1) [unfolded C_def]]
      by (simp add: abs(1) y_def M_def min_def)
  qed
  then show "unat y \<le> M * 2 ^ ds" "fp_nearest TYPE('d) ds (min \<bar>v\<bar> (fp_magnitude TYPE('d) ds (M * 2 ^ ds))) (unat y)"
    by simp_all
qed

theorem trunc_ok:
  fixes a :: "'s::len word"
  assumes w: "narrower TYPE('s) ss TYPE('d::len) ds"
  shows "narrows ss a ds (trunc ss ds a :: 'd word)"
proof -
  let ?y = "trunc_abs ss ds a :: 'd word" and ?M = "maxExponent TYPE('d) ds"
  have f: "fp_format TYPE('s) ss" "fp_format TYPE('d) ds"
    using w by (simp_all add: narrower_def)
  have r: "trunc ss ds a = ?y OR (if fp_neg a then signBit ds else 0)"
    by (simp only: trunc_def Let_def trunc_sign [OF w])
  note parts = signed_parts [OF f(2), of ?y "fp_neg a", folded r]
  have top_lt: "unat ?y < 2 ^ (LENGTH('d) - 1)" if "unat ?y \<le> ?M * 2 ^ ds"
  proof -
    have "?M * 2 ^ ds < ?M * 2 ^ ds + 2 ^ ds"
      by simp
    then show ?thesis
      using that unat_exponent_at(2) [OF f(2) order_refl] by linarith
  qed
  have over: "(exponentBias TYPE('s) ss - exponentBias TYPE('d) ds + ?M) * 2 ^ ss \<le> maxExponent TYPE('s) ss * 2 ^ ss"
    by (rule mult_right_mono) (use w in \<open>unfold narrower_def, linarith+\<close>)
  show ?thesis
  proof (cases "fp_decode ss a")
    case (Finite v)
    note fin = trunc_finite [OF w Finite]
    show ?thesis
      using parts [OF top_lt [OF fin(1)]] fin(2) by (simp add: narrows_def Finite)
  next
    case Not_a_number
    then have "maxExponent TYPE('s) ss * 2 ^ ss < fp_abs a"
      by (simp only: fp_nan_iff [OF f(1)])
    then have "unat ?y < 2 ^ (LENGTH('d) - 1)" "?M * 2 ^ ds < unat ?y"
      using trunc_special(1,3) [OF w, of a] over by simp_all
    then show ?thesis
      using parts by (simp add: narrows_def Not_a_number fp_nan_iff [OF f(2)])
  next
    case (Infinity s)
    note inf = fp_infinity [OF Infinity]
    then have y: "unat ?y = ?M * 2 ^ ds"
      using trunc_special(2) [OF w, of a] over by simp
    then show ?thesis
      using parts [OF top_lt] inf by (simp add: narrows_def Infinity fp_decode_def Let_def)
  qed
qed

text \<open>Widening and then narrowing gives back every representation that is a number or infinite.\<close>

lemma fp_representation: "fp_neg a = fp_neg b \<Longrightarrow> fp_abs a = fp_abs b \<Longrightarrow> a = (b :: 'r::len word)"
proof (rule bit_word_eqI)
  fix i
  assume a: "fp_neg a = fp_neg b" "fp_abs a = fp_abs b" and i: "i < LENGTH('r)"
  have "take_bit (LENGTH('r) - 1) a = take_bit (LENGTH('r) - 1) b"
    using a(2) unfolding fp_abs_def by (rule unsigned_word_eqI)
  then have "bit (take_bit (LENGTH('r) - 1) a) i = bit (take_bit (LENGTH('r) - 1) b) i"
    by simp
  then show "bit a i = bit b i"
    using a(1) i by (cases "i = LENGTH('r) - 1") (auto simp: fp_neg_def bit_take_bit_iff)
qed

theorem trunc_extend:
  fixes a :: "'d::len word"
  assumes w: "narrower TYPE('s::len) ss TYPE('d) ds" "wider TYPE('d) ds TYPE('s) ss" and a: "fp_decode ds a \<noteq> Not_a_number"
  shows "trunc ss ds (extend ds ss a :: 's word) = a"
proof -
  let ?b = "extend ds ss a :: 's word"
  let ?r = "trunc ss ds ?b :: 'd word"
  have f: "fp_format TYPE('d) ds"
    using w(1) by (simp add: narrower_def)
  have n: "narrows ss ?b ds ?r"
    by (rule trunc_ok [OF w(1)])
  have dec: "fp_decode ss ?b = fp_decode ds a"
    by (rule extend_ok [OF w(2)])
  have neg: "fp_neg ?b = fp_neg a"
    by (rule extend_neg [OF w(2)])
  show ?thesis
  proof (cases "fp_decode ds a")
    case (Finite v)
    note abs = fp_finite_abs [OF f Finite]
    have "fp_magnitude TYPE('d) ds (fp_abs a) < fp_magnitude TYPE('d) ds (maxExponent TYPE('d) ds * 2 ^ ds)"
      using abs(2) by (simp only: fp_magnitude_order(1))
    then have "fp_nearest TYPE('d) ds (fp_magnitude TYPE('d) ds (fp_abs a)) (fp_abs ?r)"
      using n unfolding narrows_def dec Finite by (simp add: abs(1) min_def)
    then show ?thesis
      using n neg by (intro fp_representation) (simp_all add: narrows_def fp_nearest_unique)
  next
    case (Infinity s)
    then have "fp_decode ds ?r = Infinity s"
      using n by (simp add: narrows_def dec)
    then show ?thesis
      using fp_infinity [OF Infinity] fp_infinity [of ds ?r s] by (intro fp_representation) simp_all
  qed (use a in simp)
qed

end
