(* ===== verification/Spec2Isabelle.thy ===== *)
theory Spec2Isabelle
  imports Examples Generate_Correct Builtins_Div_Correct Builtins_Trunc
begin

text \<open>
  Verification of the programs that the clang toolchain repository builds for itself, and of the integer
  routines and the floating point comparisons and conversions of the run-time library it ships.

  \<^bold>\<open>The programs.\<close>  \<^verbatim>\<open>tools/download\<close> fetches what a manifest lists: it opens a URL
  (\<^verbatim>\<open>source-http.c\<close>), hashes the bytes on their way (\<^verbatim>\<open>filter-hash.c\<close>) into a temporary file
  (\<^verbatim>\<open>extract.c\<close>), compares the hash with the one recorded for the URL, unpacks the file by its suffix
  (\<^verbatim>\<open>source-file.c\<close>, \<^verbatim>\<open>filter-decode-xz.c\<close>, \<^verbatim>\<open>container-tar.c\<close>, \<^verbatim>\<open>container-zip.c\<close> with
  \<^verbatim>\<open>filter-limit.c\<close> and \<^verbatim>\<open>filter-deflate.c\<close>) below a directory and records the target as done.
  \<^verbatim>\<open>tools/generate-vcxproj\<close> writes project files for an IDE from a configuration.  The components meet in
  two structs of function pointers, \<^verbatim>\<open>struct stream\<close> and \<^verbatim>\<open>struct container\<close> of \<^verbatim>\<open>stream.h\<close>.
  \<^verbatim>\<open>compiler-rt/lib/builtins\<close> has the integer and floating point operations that
  targets do not have in hardware.

  \<^bold>\<open>The theories.\<close>
  \<^item> \<open>Prelude\<close>, \<open>CLib\<close>: bytes, machine integers as words, the heap behind a growing buffer, and what the
    sources use of the C library (strings, numbers, \<^verbatim>\<open>FILE\<close>).
  \<^item> \<open>Stream_Iface\<close>: the reader as a function and its contract, the locales \<open>byte_stream\<close> and
    \<open>reliable_stream\<close>.  \<open>Sources\<close> (\<^verbatim>\<open>source-buffer.c\<close>, \<^verbatim>\<open>source-file.c\<close>) interprets them, \<open>Filters\<close>
    (\<^verbatim>\<open>filter-limit.c\<close>, \<^verbatim>\<open>filter-hash.c\<close>) and \<open>Decoders\<close> (\<^verbatim>\<open>filter-decode-xz.c\<close>, \<^verbatim>\<open>filter-deflate.c\<close>) carry
    them from a source to the filter.
  \<^item> \<open>Path\<close> (\<^verbatim>\<open>path.c\<close>) and \<open>Extract\<close> (\<^verbatim>\<open>extract.c\<close>): which names are accepted, what is written where; the
    locale \<open>safe_container\<close> is what confines an archive, interpreted for tar and zip.
  \<^item> \<open>Disk\<close>: what a log of system calls leaves on the disk (\<open>fs_of\<close>: files and links, \<open>dirs_of\<close>: directories).
    The log stands for everything that was ever done there; creating, writing, linking and removing all go
    through it.  A path is the text it is given as: links inside a path are not followed.
  \<^item> \<open>Tar\<close>, \<open>Tar_Correct\<close>, \<open>Tar_Roundtrip\<close> (\<^verbatim>\<open>container-tar.c\<close>, \<^verbatim>\<open>tar.h\<close>): the reader, its refinement of a scan by
    blocks, and unpacking what a reference writer packs.
  \<^item> \<open>Inflate\<close> (\<^verbatim>\<open>filter-deflate.c\<close>): the zlib filter refines inflating, over any reliable source.
  \<^item> \<open>Zip\<close>, \<open>Zip_Correct\<close>, \<open>Zip_Roundtrip\<close> (\<^verbatim>\<open>container-zip.c\<close>, \<^verbatim>\<open>zip.h\<close>): numbers, the search for the directory, its
    walk, and unpacking what a reference writer packs, through the limiter and the inflater.
  \<^item> \<open>Http\<close>, \<open>Http_Correct\<close> (\<^verbatim>\<open>source-http.c\<close>): the connection, the header and the body as a stream.
  \<^item> \<open>Download\<close>, \<open>Download_Correct\<close> (\<^verbatim>\<open>download.c\<close>): map files (locale \<open>map_store\<close>), deletion of what
    was unpacked before, one target, the main loop.  \<open>Pipeline\<close> puts the components together; \<open>Examples\<close> has concrete surroundings for the witnesses.
  \<^item> \<open>Generate\<close>, \<open>Generate_Main\<close>, \<open>Generate_Correct\<close> (\<^verbatim>\<open>generate.c\<close>): relative paths, listings, identifiers, the
    files that are written.
  \<^item> \<open>Builtins_Words\<close>, \<open>Builtins_Checked\<close>, \<open>Builtins_Mul\<close>, \<open>Builtins_Bits\<close>, \<open>Builtins_Div\<close>, \<open>Builtins_Div_Correct\<close>:
    the routines of \<^verbatim>\<open>compiler-rt\<close>, each text a definition over the width and each routine an instance.
  \<^item> \<open>Builtins_Float\<close>, \<open>Builtins_Convert\<close>, \<open>Builtins_Extend\<close>, \<open>Builtins_Trunc\<close> (\<^verbatim>\<open>fp_lib.h\<close>, \<^verbatim>\<open>comparesf2.c\<close>,
    \<^verbatim>\<open>fp_fixint_impl.inc\<close>, \<^verbatim>\<open>floatsisf.c\<close>, \<^verbatim>\<open>fp_extend_impl.inc\<close>, \<^verbatim>\<open>fp_trunc_impl.inc\<close> and their relatives): floating
    point in software.  \<open>fp_decode\<close> says which number a representation stands for; comparison, conversion to and
    from integers and conversion between formats are related to those numbers, in single, double and quad
    precision.  Narrowing rounds to the nearest number, ties to even (\<open>fp_nearest\<close>).

  \<^bold>\<open>How the model corresponds to the code.\<close>  A struct is a record with the members of the source, a function a
  definition with its name; a function that may not return is a \<open>partial_function (option)\<close>, so that not
  returning is \<open>None\<close>, and each claim that it returns is proved.  Nothing is bounded by fuel.
  \<^verbatim>\<open>size_t\<close>, \<^verbatim>\<open>uint64_t\<close> and the narrower types are words, so that sums and differences wrap where they wrap in
  the program.  Errors are results: a null view, a negative number, a return from \<^verbatim>\<open>main\<close>, a dereferenced null
  pointer (\<open>Crash\<close>), a loop that never ends (\<open>Hang\<close>).  What the environment decides is a parameter: whether an
  allocation is granted, which system calls succeed given the calls before, what opening a directory shows, what
  a file keeps of a text whose writing the program does not check (\<open>fe_kept\<close>), what the network delivers.  Code
  that is not in the repository (BearSSL, xz-embedded, zlib, tomlc99) is a parameter too; where a theorem
  relies on it, its documented behaviour is a hypothesis (\<open>streaming\<close>, \<open>xz_law\<close>, \<open>zlib_law\<close>, \<open>recv_law\<close>, \<open>steady\<close>,
  \<open>send_law\<close>), as is that of the system (\<open>calm\<close>: files and links can be made; \<open>removable\<close>: what can be removed is;
  \<open>opens_as_stored\<close>: opening a path shows what is there; \<open>keeps\<close>: written text is kept).  The bounds \<open>max_stream\<close> and \<open>max_need\<close> (\<open>2 ^ 61\<close> and \<open>2 ^ 62\<close> bytes) keep sums of sizes below
  \<open>2 ^ 64\<close>; \<open>max_zlib\<close> (\<open>2 ^ 31\<close>) keeps them below the 32 bits of the counters of zlib.

  \<^bold>\<open>What is shown\<close>, below in this order: a target that a server has is installed and pinned by its hash,
  unpacking never leaves the target directory, archives are unpacked to what was packed, map files are finite
  maps; sources and filters keep the contract of a stream and deliver the right bytes; the containers are read
  as their formats say and their loops end, with the exceptions that are proved; the HTTP source delivers the
  body; the generated project files are consistent and in bounds; the integer routines equal the operations
  they stand for, and the floating point routines compare and convert the numbers their operands stand for.  Some theorems state what the code does where it does not do what it should: they are
  named as such.

  \<^bold>\<open>Not modelled.\<close>  A failing allocation where the code does not look at the result (\<^verbatim>\<open>clean_path\<close>, \<^verbatim>\<open>add_file\<close>,
  \<^verbatim>\<open>dup_with_replacement\<close>), an archive member that has the name of a map file, and other processes that change
  the disk meanwhile.  Where C leaves an operation on integers undefined, the model has the wrapped result, but
  for division by zero, which is \<open>None\<close>.  The branches for Windows; output to the terminal; the release of memory; the certificates in
  \<^verbatim>\<open>ssl-roots.h\<close> (data for BearSSL).  Of the vendored libraries, musl, libcxx, libcxxabi, libunwind and the
  floating point arithmetic, sanitizers and assembly of compiler-rt are not part of the repository's own
  programs.  The zlib filter is modelled in both directions;
  the theorems on it are about inflating, the only direction the programs use.
\<close>

section \<open>Fetching a target\<close>

text \<open>
  C1: installation of a target from a plain HTTP server.  When the system refuses nothing and opening the
  target shows what is stored there, the server answers the request with a tar archive of the reference writer
  and the hash file has no other hash for the URL, one pass of the main loop ends well: whatever was stored at
  and below the target path before is gone, exactly the members of the archive are there instead, nothing else
  on the disk has changed, and the target is recorded with its URL in \<^verbatim>\<open>download.done\<close>.
\<close>

theorem target_installed:
  assumes "granted o'" "recv_law (o_net o') wp wx" "steady (o_net o') wp wx (o_heap o')"
    and "serves (o_net o') wp (o_heap o') url (w_net w) (mk_tar tdir ms k)" "url = base @ ''.tar''"
    and "streaming (o_sha_update o')" "\<forall>h. length (o_sha_out o' h) = 32"
    and "top_ok tdir" "\<forall>m \<in> set ms. entry_ok tdir m" "length (mk_tar tdir ms k) \<le> max_stream"
    and "map_wf (w_files w ''download.done'')" "map_wf (w_files w ''download.hash'')"
    and "pair_ok path url" "length url \<le> 182"
    and "map_content (w_files w ''download.done'') path \<noteq> Some url"
    and "map_content (w_files w ''download.hash'') url
      \<in> {None, Some (sha_string (o_sha_out o' (o_sha_update o' (o_sha_init o') (mk_tar tdir ms k))))}"
    and "opens_as_stored (o_env o') (w_log w) path" "fs_of (w_log w) ''download.tmp'' = None"
  shows "\<exists>w'. process_target o' path url w = (Go (), w')
    \<and> fs_of (w_log w') = fold (place path) ms (fs_of (w_log w) |` {q. q \<noteq> path \<and> \<not> below path q})
    \<and> map_content (w_files w' ''download.done'') path = Some url"
  using process_target_served [OF assms] by (simp add: cleared_def)

theorem target_installed_witness:
  "\<exists>w'. process_target ex_outside ''llvm'' ex_url ex_stale = (Go (), w')
    \<and> fs_of (w_log w') = [''notes'' \<mapsto> File_node 420 ''x'', ''llvm/bin/tool'' \<mapsto> File_node 493 ''hello'',
         ''llvm/bin/cc'' \<mapsto> Link_node ''tool'']
    \<and> map_content (w_files w' ''download.done'') ''llvm'' = Some ex_url"
proof -
  have old: "opens_as_stored (o_env ex_outside) (w_log ex_stale) ''llvm''" and tmp: "fs_of (w_log ex_stale) ''download.tmp'' = None"
    using ex_opens(1) by (simp_all add: ex_log_disk)
  have srv: "serves (o_net ex_outside) ex_wp (o_heap ex_outside) ex_url (w_net ex_stale) (mk_tar ''top'' ex_members 1)"
    using ex_served by simp
  have maps: "map_wf (w_files ex_stale f)" "map_content (w_files ex_stale f) k = None" for f k
    by simp_all
  obtain w' where "process_target ex_outside ''llvm'' ex_url ex_stale = (Go (), w')"
    "fs_of (w_log w') = fold (place ''llvm'') ex_members (fs_of (w_log ex_stale) |` {q. q \<noteq> ''llvm'' \<and> \<not> below ''llvm'' q})"
    "map_content (w_files w' ''download.done'') ''llvm'' = Some ex_url"
    using target_installed [OF ex_granted ex_net_laws srv ex_names(4) ex_streaming ex_out_length ex_entries
        ex_bound maps(1) maps(1) ex_names(1,3) _ _ old tmp] maps(2) by auto
  then show ?thesis
    using ex_cleared by (simp add: ex_members_def cleared_def)
qed

text \<open>
  C2: the hash file pins what is unpacked.  Whatever the server, the connection and the system do: when
  fetching a URL hands a file over to be unpacked, then the hash file had either no entry for the URL or the
  hash of the bytes that were written to \<^verbatim>\<open>download.tmp\<close>.  An entry that was there stays, and a new one is the
  hash of these bytes, provided that \<^verbatim>\<open>download.map\<close> keeps the text written to it.  The file that is handed over is
  what \<^verbatim>\<open>download.tmp\<close> keeps of the bytes; the program does not check that it kept all of them.
\<close>

theorem fetch_is_pinned:
  assumes "streaming (o_sha_update o')" "\<forall>h. length (o_sha_out o' h) = 32"
    and "map_wf (w_files w ''download.hash'')" "field_ok url" "length url \<le> 182"
    and "fetch_http o' url w = (Go f, w')"
  shows "let body = written ''download.tmp'' (drop (length (w_log w)) (w_log w'));
             str = sha_string (o_sha_out o' (o_sha_update o' (o_sha_init o') body));
             old = map_content (w_files w ''download.hash'') url;
             new = map_content (w_files w' ''download.hash'') url
         in f_data f = fe_kept (o_fs o') ''download.tmp'' body
            \<and> old \<in> {None, Some str}
            \<and> (old = Some str \<longrightarrow> w_files w' ''download.hash'' = w_files w ''download.hash'')
            \<and> (keeps (o_fs o') ''download.map'' \<longrightarrow> new = Some str)"
  using fetch_http_integrity [OF assms] by (auto simp: Let_def)

theorem fetch_is_pinned_witness:
  "\<exists>f w'. fetch_http ex_outside ex_url ex_world = (Go f, w')
    \<and> map_content (w_files w' ''download.hash'') ex_url = Some (sha_string (o_sha_out ex_outside (f_data f)))"
proof -
  obtain f w' where "fetch_http ex_outside ex_url ex_world = (Go f, w')"
    using ex_fetch by blast
  with fetch_is_pinned [OF ex_streaming ex_out_length ex_maps(1) ex_names(2,3) this] show ?thesis
    by (auto simp: Let_def keeps_def permissive_def)
qed

section \<open>Safety of unpacking\<close>

text \<open>
  C3: a path is accepted exactly when it is not empty, is relative, contains neither a colon nor a
  backslash and none of its components is \<^verbatim>\<open>..\<close>; the accepted path is the concatenation.
\<close>

theorem clean_path_exact: "clean_path a b = Some p \<longleftrightarrow> p = a @ b \<and> safe_path p"
  by (rule clean_path_iff)

text \<open>
  C4: whatever the file that was fetched holds and however the system behaves, unpacking a URL that ends
  in one of the archive suffixes only touches paths below the target.
\<close>

theorem archive_confined:
  assumes "is_archive url"
  shows "grows (confined path) (w_log w) (w_log (snd (unpack o' url f path w)))"
  using unpack_archive_confined [OF _ assms, of o' f path w] by (cases "unpack o' url f path w") simp

theorem archive_confined_witness:
  "is_archive ''http://h/x.zip''
    \<and> grows (confined ''llvm'') [] (w_log (snd (unpack ex_outside ''http://h/x.zip'' (open_FILE ''PK'') ''llvm'' ex_world)))"
proof -
  have "is_archive ''http://h/x.zip''"
    by code_simp
  then show ?thesis
    using archive_confined [of "''http://h/x.zip''" "''llvm''" ex_world] by simp
qed

text \<open>
  C5: round trip through the file source, the xz decoder, the tar reader and the extractor.  When the
  fetched file is a valid xz stream of a tar archive of the reference writer, unpacking it ends with
  status 0 and makes exactly the members, with their modes, contents and link targets.
\<close>

theorem tar_xz_unpacked:
  assumes "calm (o_env o')" "\<forall>n. grant (o_heap o') n" "top_ok tdir" "\<forall>m \<in> set ms. entry_ok tdir m"
    and "xz_law (o_xz_run o') valid dec gas" "o_xz_init o' = Some x"
    and "valid x d" "dec x d = mk_tar tdir ms k" "length d \<le> max_stream" "length (mk_tar tdir ms k) \<le> max_stream"
    and "url = base @ ''.tar.xz''"
  shows "\<exists>w'. unpack o' url (open_FILE d) path w = (Go 0, w')
    \<and> fs_of (w_log w') = fold (place path) ms (fs_of (w_log w))"
  by (rule unpack_tar_xz [OF assms])

theorem tar_xz_unpacked_witness:
  "\<exists>w'. unpack ex_outside ''http://h/x.tar.xz'' (open_FILE (mk_tar ''top'' ex_members 1 @ ''trailer'')) ''llvm'' ex_world = (Go 0, w')
    \<and> fs_of (w_log w') = fold (place ''llvm'') ex_members (fs_of (w_log ex_world))"
proof (rule tar_xz_unpacked [OF _ _ ex_entries])
  show "xz_law (o_xz_run ex_outside) ex_valid ex_dec (\<lambda>_. 0)" "o_xz_init ex_outside = Some 2048"
    by (simp_all add: ex_xz_law)
  show "''http://h/x.tar.xz'' = ''http://h/x'' @ ''.tar.xz''"
    by simp
  show "length (mk_tar ''top'' ex_members 1) \<le> max_stream" "length (mk_tar ''top'' ex_members 1 @ ''trailer'') \<le> max_stream"
    using ex_tar_length by (simp_all add: ex_tar_def max_stream_def)
qed (use ex_tar_length ex_calm in \<open>simp_all add: ex_tar_def ex_valid_def ex_dec_def\<close>)

text \<open>
  C6: round trip through the zip reader, the limiter, the inflater and the extractor.  When the fetched file
  is a zip archive of the reference writer, with members that are stored or deflated, unpacking it ends with
  status 0 and makes exactly the files, executable as their attributes say; directory entries make nothing.
\<close>

theorem zip_unpacked:
  assumes "calm (o_env o')" "\<forall>n. grant (o_heap o') n" "zlib_law (o_z_run o') valid dec gas"
    and "o_z_init o' True (- 15) = Some z0" "\<forall>m \<in> set ms. member_ok valid dec z0 m"
    and "length (mk_zip ms) < 0xFFFFFFFF" "url = base @ ''.zip''"
  shows "\<exists>w'. unpack o' url (open_FILE (mk_zip ms)) path w = (Go 0, w')
    \<and> fs_of (w_log w') = fold (zip_place path) ms (fs_of (w_log w))"
  by (rule unpack_zip_file [OF assms])

theorem zip_unpacked_witness:
  "\<exists>w'. unpack ex_outside ''http://h/x.zip'' (open_FILE (mk_zip ex_zip)) ''out'' ex_world = (Go 0, w')
    \<and> fs_of (w_log w') = [''out/bin/sh'' \<mapsto> File_node 493 ''hi'', ''out/doc'' \<mapsto> File_node 420 ''hello'']"
proof -
  have "\<exists>w'. unpack ex_outside ''http://h/x.zip'' (open_FILE (mk_zip ex_zip)) ''out'' ex_world = (Go 0, w')
    \<and> fs_of (w_log w') = fold (zip_place ''out'') ex_zip (fs_of (w_log ex_world))"
    by (rule zip_unpacked [where base = "''http://h/x''" and gas = "\<lambda>_. 0", OF _ _ _ _ ex_zip_ok ex_zip_length])
      (simp_all add: ex_calm ex_zlib_law)
  then show ?thesis
    by (simp add: ex_zip_def zip_place_def is_dir_def fs_of_def)
qed

text \<open>
  C7: a target that was installed is left alone: when \<^verbatim>\<open>download.map\<close> keeps the text written to it, processing the
  same line again, in whatever surroundings, changes nothing.
\<close>

theorem target_again:
  assumes "keeps (o_fs o') ''download.map''" "map_wf (w_files w ''download.done'')" "pair_ok path url" "process_target o' path url w = (Go (), w')"
  shows "process_target o'' path url w' = (Go (), w')"
  by (rule process_target_again [OF assms])

theorem target_again_witness:
  "\<exists>w'. process_target ex_outside ''llvm'' ex_url ex_world = (Go (), w')
    \<and> process_target ex_outside ''llvm'' ex_url w' = (Go (), w')"
proof -
  have "keeps (o_fs ex_outside) ''download.map''"
    by simp
  then show ?thesis
    using target_again [OF _ ex_maps(1) ex_names(1)] ex_processed by blast
qed

text \<open>
  C8: a map file implements a finite map.  For a map file other than the scratch file, \<open>update_map\<close> on a
  well-formed file succeeds when the system lets it, and when the system keeps the text that is written it leaves a well-formed file, makes the new pair the
  one that \<open>test_map\<close> finds and changes the outcome of \<open>test_map\<close> for no other key.
\<close>

theorem map_file_roundtrip:
  assumes "map_wf (fs fl)" "pair_ok k v" "fl \<noteq> ''download.map''"
    and "fe_create fe ''download.map''" "fe_rename fe ''download.map'' fl" "keeps fe ''download.map''"
  shows "\<exists>fs'. update_map fe fl k v fs = Some (0, fs') \<and> map_wf (fs' fl) \<and> test_map (fs' fl) k v = Some MATCH
    \<and> (\<forall>k' v'. k' \<noteq> k \<longrightarrow> test_map (fs' fl) k' v' = test_map (fs fl) k' v')"
proof -
  obtain fs' where up: "update_map fe fl k v fs = Some (0, fs')"
    using update_map_granted [where fs = fs and fl = fl, OF assms(1,2,4,5)] by blast
  note ok = update_map_ok [where fs = fs and fl = fl, OF assms(6) assms(1-3) up]
  show ?thesis
    using up ok test_map_spec [OF assms(1)] test_map_spec [OF ok(1)] by auto
qed

theorem map_file_roundtrip_witness:
  "\<exists>fs'. update_map permissive ''download.done'' ''llvm'' ''u2'' [''download.done'' \<mapsto> mk_map [(''llvm'', ''u1''), (''sdk'', ''u3'')]] = Some (0, fs')
    \<and> test_map (fs' ''download.done'') ''llvm'' ''u2'' = Some MATCH
    \<and> test_map (fs' ''download.done'') ''sdk'' ''u3'' = Some MATCH"
proof -
  let ?fs = "[''download.done'' \<mapsto> mk_map [(''llvm'', ''u1''), (''sdk'', ''u3'')]]"
  have ok: "pair_ok ''llvm'' ''u1''" "pair_ok ''sdk'' ''u3''" "pair_ok ''llvm'' ''u2''"
    by code_simp+
  then have wf: "map_wf (?fs ''download.done'')" "map_content (?fs ''download.done'') ''sdk'' = Some ''u3''"
    using map_wf_mk [of "[(''llvm'', ''u1''), (''sdk'', ''u3'')]"] by simp_all
  have sdk: "test_map (?fs ''download.done'') ''sdk'' ''u3'' = Some MATCH"
    using test_map_spec [OF wf(1)] wf(2) by simp
  obtain fs' where fs': "update_map permissive ''download.done'' ''llvm'' ''u2'' ?fs = Some (0, fs')"
    "test_map (fs' ''download.done'') ''llvm'' ''u2'' = Some MATCH"
    "\<forall>k' v'. k' \<noteq> ''llvm'' \<longrightarrow> test_map (fs' ''download.done'') k' v' = test_map (?fs ''download.done'') k' v'"
    using map_file_roundtrip [where fs = ?fs and fl = "''download.done''" and fe = permissive, OF wf(1) ok(3)]
      permissive_keeps by (auto simp: permissive_def)
  have "test_map (fs' ''download.done'') ''sdk'' ''u3'' = Some MATCH"
    using fs'(3) sdk by simp
  with fs' show ?thesis by blast
qed

text \<open>
  C9: deleting an old target.  When the system removes what can be removed and opening the path shows what is
  stored there, nothing is left of the path and of what was below it, however deep, and every other file, link
  and directory stays.
\<close>

theorem old_target_deleted:
  assumes "removable e" "opens_as_stored e w path"
  shows "fs_of (delete_path e path w) = fs_of w |` {q. q \<noteq> path \<and> \<not> below path q}
    \<and> dirs_of (delete_path e path w) = {q \<in> dirs_of w. q \<noteq> path \<and> \<not> below path q}"
  using delete_path_clears [OF assms] by (auto simp: cleared_def)

theorem old_target_deleted_witness:
  "fs_of (delete_path ex_env ''llvm'' ex_log) = [''notes'' \<mapsto> File_node 420 ''x'']
    \<and> dirs_of (delete_path ex_env ''llvm'' ex_log) = {}"
  using old_target_deleted [OF ex_removable ex_opens(1)] ex_cleared
  by (auto simp: ex_log_disk(2) cleared_def below_def)

text \<open>
  C10: an entry of a map file that takes more than 255 bytes is read back in pieces, one of which has no second
  field.  A key that stands before it is looked up as it should be; looking any other key up than the one of the
  entry dereferences a null pointer there, whatever follows.
\<close>

theorem long_map_line_crashes:
  assumes "\<forall>(k, v) \<in> set kvs. pair_ok k v" "field_ok k" "field_ok v" "254 \<le> length k + length v" "key \<noteq> k"
  shows "test_map (Some (mk_map (kvs @ [(k, v)]) @ rest)) key val
    = (case map_of kvs key of None \<Rightarrow> None | Some u \<Rightarrow> Some (if u \<noteq> val then MISMATCH else MATCH))"
  using test_map_long [OF assms] by (simp split: option.splits)

theorem long_map_line_crashes_witness:
  "test_map (Some (mk_map ([(''sdk'', ''v'')] @ [(''llvm'', replicate 250 (CHR ''u''))]) @ ''x,y'')) ''x'' ''y'' = None"
proof -
  have "trim (replicate 250 (CHR ''u'')) = replicate 250 (CHR ''u'')"
    using trim_id_iff [of "replicate 250 (CHR ''u'')"] by simp
  then have long: "field_ok (replicate 250 (CHR ''u''))"
    by (simp add: field_ok_def)
  have "pair_ok ''sdk'' ''v''" "field_ok ''llvm''"
    by code_simp+
  then show ?thesis
    using long_map_line_crashes [of "[(''sdk'', ''v'')]" "''llvm''" "replicate 250 (CHR ''u'')" "''x''" "''x,y''" "''y''"] long
    by simp
qed

section \<open>Streams\<close>


lemma ex_file: "file_inv \<lparr>fs_f = open_FILE d, fs_open = True, fs_avail = 0, fs_bufsz = 0, fs_consumed = 0, fs_buf = []\<rparr>"
  "file_pending \<lparr>fs_f = open_FILE d, fs_open = True, fs_avail = 0, fs_bufsz = 0, fs_consumed = 0, fs_buf = []\<rparr> = d"
  if "length d \<le> max_stream"
  using that by (simp_all add: file_inv_def file_core_def file_pending_def file_rest_def open_FILE_def)


text \<open>
  C12: the limiter.  Over any stream that keeps the contract, the stream that \<open>open_limited\<close> makes keeps
  it too, and delivers exactly the first \<open>sz\<close> bytes of its source.
\<close>

theorem limiter_contract:
  assumes "byte_stream rd ok pending view" "ok s" "open_limited h (Some s) sz = Opened ls"
  shows "byte_stream (read_limit rd) (limit_inv ok) (limit_pending pending) (limit_view view)
    \<and> limit_inv ok ls \<and> limit_pending pending ls = take (unat sz) (pending s)"
  using byte_stream.limit_stream [OF assms(1)] assms(2,3)
  by (auto simp: open_limited_def limit_inv_def limit_pending_def split: if_splits)

theorem limiter_contract_witness:
  "byte_stream (read_limit read_buffer) (limit_inv buffer_inv) (limit_pending buffer_pending) (limit_view buffer_view)
    \<and> limit_pending buffer_pending \<lparr>ls_left = 2, ls_source = \<lparr>bs_next = ''abc'', bs_remaining = 3\<rparr>\<rparr> = ''ab''"
  using limiter_contract [OF buffer.byte_stream_axioms, of "\<lparr>bs_next = ''abc'', bs_remaining = 3\<rparr>" ex_heap 2
      "\<lparr>ls_left = 2, ls_source = \<lparr>bs_next = ''abc'', bs_remaining = 3\<rparr>\<rparr>"]
  by (simp add: open_limited_def buffer_inv_def buffer_pending_def max_stream_def)

text \<open>
  C13: the hash filter.  Over any stream that keeps the contract, the stream that \<open>open_hash\<close> makes keeps
  it and delivers the same bytes, and a read feeds the hash with exactly the bytes it consumes.
\<close>

theorem hash_filter_contract:
  assumes "byte_stream rd ok pending view" "ok s" "open_hash h (Some s) init = Opened hs"
  shows "byte_stream (read_hash upd rd) (hash_inv ok pending view) (hash_pending pending) (hash_view view)
    \<and> hash_inv ok pending view hs \<and> hash_pending pending hs = pending s \<and> hs_hash hs = init
    \<and> (\<forall>t c n t' p len. hash_inv ok pending view t \<longrightarrow> unat c \<le> hash_view view t \<longrightarrow>
         read_hash upd rd t c n = Some (t', p, len) \<longrightarrow>
         hs_hash t' = upd (hs_hash t) (take (unat c) (hash_pending pending t)))"
proof -
  have "hs = \<lparr>hs_hash = init, hs_source = s, hs_data = None\<rparr>"
    using assms(3) by (simp add: open_hash_def split: if_splits)
  then have "hash_inv ok pending view hs \<and> hash_pending pending hs = pending s \<and> hs_hash hs = init"
    using assms(2) by (simp add: hash_inv_def hash_pending_def)
  then show ?thesis
    using byte_stream.hash_stream [OF assms(1)] byte_stream.read_hash_update [OF assms(1)] by blast
qed

theorem hash_filter_contract_witness:
  "hash_pending buffer_pending \<lparr>hs_hash = ([] :: bytes), hs_source = \<lparr>bs_next = ''abc'', bs_remaining = 3\<rparr>, hs_data = None\<rparr> = ''abc''"
  using hash_filter_contract [OF buffer.byte_stream_axioms, of "\<lparr>bs_next = ''abc'', bs_remaining = 3\<rparr>" ex_heap "[] :: bytes"
      "\<lparr>hs_hash = ([] :: bytes), hs_source = \<lparr>bs_next = ''abc'', bs_remaining = 3\<rparr>, hs_data = None\<rparr>" "(@)"]
  by (simp add: open_hash_def buffer_inv_def buffer_pending_def max_stream_def)

text \<open>
  C14: the xz filter refines decoding.  Over a source that never fails and whose bytes are a valid xz
  stream, with a decoder that behaves as documented and a heap that grants its requests, the stream that
  \<open>open_xz_decoder\<close> makes is again one that never fails, and it delivers exactly the decoded data; in
  particular its read loop ends.
\<close>

theorem xz_filter_refines:
  assumes "reliable_stream rd ok pending view" "xz_law run valid dec gas" "\<forall>n. grant h n"
    and "open_xz_decoder (Some x) h (Some s) = Opened ds" "ok s"
    and "valid x (pending s)" "length (dec x (pending s)) \<le> max_stream"
  shows "reliable_stream (read_xz run h rd) (xz_inv valid dec ok pending view) (xz_pending dec pending) xz_view
    \<and> xz_inv valid dec ok pending view ds \<and> xz_pending dec pending ds = dec x (pending s)"
  using reliable_stream.xz_reliable [OF assms(1-3)] assms(3-7)
  by (auto simp: open_xz_decoder_def xz_inv_def xz_pending_def xz_input_def)

theorem xz_filter_refines_witness:
  "xz_pending ex_dec file_pending
     \<lparr>xs_xz = 2, xs_finished = False,
      xs_source = \<lparr>fs_f = open_FILE ''abc'', fs_open = True, fs_avail = 0, fs_bufsz = 0, fs_consumed = 0, fs_buf = []\<rparr>,
      xs_in = None, xs_in_pos = 0, xs_in_size = 0, xs_out = [], xs_out_pos = 0, xs_out_size = 0, xs_consumed = 0\<rparr> = ''ab''"
proof -
  let ?fs = "\<lparr>fs_f = open_FILE ''abc'', fs_open = True, fs_avail = 0, fs_bufsz = 0, fs_consumed = 0, fs_buf = []\<rparr>"
  have fs: "file_inv ?fs" "file_pending ?fs = ''abc''"
    using ex_file [of "''abc''"] by (simp_all add: max_stream_def)
  have grant: "\<forall>n. grant ex_heap n"
    by simp
  show ?thesis
    using xz_filter_refines [OF file_reliable [OF grant] ex_xz_law grant, of 2 ?fs] fs
    by (simp add: open_xz_decoder_def ex_valid_def ex_dec_def max_stream_def)
qed

text \<open>
  C15: the zlib filter refines inflating, for the raw data of a zip member and for gzip alike.  Over a source
  that never fails and whose bytes are a valid stream of at most \<open>max_zlib\<close> bytes, with an inflater that
  behaves as documented and a heap that grants its requests, the stream that is opened never fails and
  delivers exactly the inflated data; in particular its read loop ends.
\<close>

theorem zlib_filter_refines:
  assumes "reliable_stream rd ok pending view" "zlib_law zrun valid dec gas" "\<forall>n. grant h n" "ok s"
    and "open_inflate init h (Some s) = Opened ds \<and> init True (- 15) = Some z0
      \<or> open_gzip init h (Some s) = Opened ds \<and> init True 47 = Some z0"
    and "valid z0 (pending s)" "length (pending s) \<le> max_zlib" "length (dec z0 (pending s)) \<le> max_zlib"
  shows "reliable_stream (read_zlib zrun h rd) (zlib_inv valid dec ok pending view) (zlib_pending dec pending) zlib_view
    \<and> zlib_inv valid dec ok pending view ds \<and> zlib_pending dec pending ds = dec z0 (pending s)"
  using reliable_stream.zlib_reliable [OF assms(1-3)] assms(3-)
  by (auto simp: open_inflate_def open_gzip_def open_zlib_def zlib_inv_def zlib_pending_def zlib_input_def)

theorem zlib_filter_refines_witness:
  "zlib_pending ex_dec file_pending
     \<lparr>zs_z = 2, zs_next_in = None, zs_avail_in = 0, zs_avail = 0, zs_bufsz = 0, zs_consumed = 0, zs_finished = False,
      zs_source = \<lparr>fs_f = open_FILE ''abc'', fs_open = True, fs_avail = 0, fs_bufsz = 0, fs_consumed = 0, fs_buf = []\<rparr>,
      zs_buf = [], zs_read_in = 0, zs_flush = 0, zs_do_inflate = True\<rparr> = ''ab''"
proof -
  let ?fs = "\<lparr>fs_f = open_FILE ''abc'', fs_open = True, fs_avail = 0, fs_bufsz = 0, fs_consumed = 0, fs_buf = []\<rparr>"
  have fs: "file_inv ?fs" "file_pending ?fs = ''abc''"
    using ex_file [of "''abc''"] by (simp_all add: max_stream_def)
  have grant: "\<forall>n. grant ex_heap n"
    by simp
  show ?thesis
    using zlib_filter_refines [OF file_reliable [OF grant] ex_zlib_law grant fs(1), of "\<lambda>_ _. Some 2" _ 2] fs(2)
    by (simp add: open_inflate_def open_zlib_def ex_valid_def ex_dec_def max_zlib_def)
qed

text \<open>
  C16: copying a stream to a file.  Over any stream that keeps the contract the copy loop ends, and what it
  has stored is an initial part of what the stream had to deliver; with writes that succeed and a stream
  that never reports an error it is all of it.
\<close>

theorem copy_stores_stream:
  assumes "byte_stream rd ok pending view" "ok s"
  shows "\<exists>r s' w'. extract_file e rd s f progress w = Some (r, s', w')
    \<and> (\<exists>bs. written f w' = written f w @ bs \<and> prefix bs (pending s)
         \<and> (writes_ok e f \<longrightarrow> r = 0) \<and> (writes_ok e f \<longrightarrow> never_null rd ok view \<longrightarrow> bs = pending s))"
  using byte_stream.extract_loop_ok [OF assms, of 0 e f progress 0 0 w] by (fastforce simp: extract_file_def)

theorem copy_stores_stream_witness:
  "\<exists>r s' w'. extract_file ex_env read_buffer \<lparr>bs_next = ''abc'', bs_remaining = 3\<rparr> ''out'' 0 [] = Some (r, s', w')
    \<and> r = 0 \<and> prefix (written ''out'' w') ''abc''"
proof -
  have ok: "buffer_inv \<lparr>bs_next = ''abc'', bs_remaining = 3\<rparr>"
    and bytes: "buffer_pending \<lparr>bs_next = ''abc'', bs_remaining = 3\<rparr> = ''abc''"
    by (simp_all add: buffer_inv_def buffer_pending_def max_stream_def)
  show ?thesis
    using copy_stores_stream [OF buffer.byte_stream_axioms ok, of ex_env "''out''" 0 "[]"] bytes
    by (auto simp: writes_ok_def ex_env_def)
qed

section \<open>Containers\<close>

text \<open>
  C17: the tar reader refines a scan of the archive by blocks.  Over a source that never fails, however
  it cuts its bytes into views, \<open>next_tar_file\<close> skips what is left of the current member and then behaves
  as \<open>tar_scan\<close> says: it reports the end, a block that is cut short, or the next member with its header,
  and leaves the source at the member's first byte.  When the archive ends inside the current member it
  reports an error.
\<close>

theorem tar_reader_refines_scan:
  assumes "reliable_stream rd ok pending view" "ok (tc_s c)"
  shows "if unat (tar_left c) \<le> length (pending (tc_s c))
    then headers_post ok pending (c\<lparr>tc_path := None, tc_lnk := None, tc_padding := 0\<rparr>)
           (drop (unat (tar_left c)) (pending (tc_s c))) (next_tar_file rd c)
    else \<exists>c'. next_tar_file rd c = Some (- 1, c')"
  by (rule reliable_stream.next_tar_file_ok [OF assms])

theorem tar_reader_refines_scan_witness:
  "\<exists>c'. next_tar_file (read_file ex_heap)
      (open_tar \<lparr>fs_f = open_FILE ''short'', fs_open = True, fs_avail = 0, fs_bufsz = 0, fs_consumed = 0, fs_buf = []\<rparr>) = Some (- 1, c')"
proof -
  let ?c = "open_tar \<lparr>fs_f = open_FILE ''short'', fs_open = True, fs_avail = 0, fs_bufsz = 0, fs_consumed = 0, fs_buf = []\<rparr>"
  have fs: "file_inv (tc_s ?c)" "file_pending (tc_s ?c) = ''short''" "tar_left ?c = 0"
    using ex_file [of "''short''"] by (simp_all add: max_stream_def open_tar_def tar_left_def)
  have "tar_scan ''short'' = Tar_short"
    by (simp add: tar_scan.simps)
  then show ?thesis
    using tar_reader_refines_scan [OF file_reliable [of ex_heap] fs(1)] fs(2,3) by (auto simp: headers_post_def)
qed

text \<open>
  C18: a zip64 archive that has no comment and whose end record has the saturated directory offset
  \<^verbatim>\<open>0xFFFFFFFF\<close>, which refers to the zip64 locator in front of it, is refused, whatever precedes the end record:
  the locator is looked for at the wrong distance from the end of the file, inside the end record.
\<close>

theorem zip64_without_comment_refused:
  assumes "f_bad f = None" "length mid = 12" "f_data f = body @ mk_eocd mid 0xFFFFFFFF 0"
    and "length (f_data f) < 2 ^ 63"
  shows "open_zip f = Some None"
  by (rule zip64_refused [OF assms])

theorem zip64_without_comment_refused_witness:
  "open_zip (open_FILE ((''data'' @ le_bytes 4 0x07064b50 @ le_bytes 4 0 @ le_bytes 8 4 @ le_bytes 4 1)
     @ mk_eocd (replicate 12 (CHR 0xFF)) 0xFFFFFFFF 0)) = Some None"
  by (rule zip64_without_comment_refused [of _ "replicate 12 (CHR 0xFF)"
        "''data'' @ le_bytes 4 0x07064b50 @ le_bytes 4 0 @ le_bytes 8 4 @ le_bytes 4 1"]) (simp_all add: open_FILE_def mk_eocd_def)

text \<open>
  C19: opening an archive ends, for every file whose size is neither 22 nor 1024 bytes, whatever the device
  does.
\<close>

theorem zip_search_ends:
  assumes "uint n \<noteq> 22" "uint n \<noteq> 1024"
  shows "\<exists>r. open_zip_loop f n 22 = Some r"
  by (rule open_zip_loop_returns [OF assms])

theorem zip_search_ends_witness: "\<exists>r. open_zip_loop (open_FILE (replicate 100 NUL)) 100 22 = Some r"
  by (rule zip_search_ends) simp_all

text \<open>
  C20: for a file of 22 or of 1024 bytes without an end record the search for it never ends.
\<close>

theorem zip_search_hangs:
  assumes "f_bad f = None" "f_data f = d" "length d \<in> {22, 1024}" "uint n = int (length d)"
    and "\<forall>q. 22 + q \<le> length d \<longrightarrow> \<not> eocd_at d (int (length d)) q"
  shows "open_zip_loop f n 22 = None"
  by (rule open_zip_loop_hangs [OF assms])

theorem zip_search_hangs_witness: "open_zip_loop (open_FILE (replicate 22 NUL)) 22 22 = None"
proof -
  have "\<not> eocd_at (replicate 22 NUL) 22 0"
    by (simp add: eocd_at_def Let_def zip_central_dir_end_of_def slice_def little_32_def byte_word_def)
  then show ?thesis
    using zip_search_hangs [of "open_FILE (replicate 22 NUL)" "replicate 22 NUL" 22] by (simp add: open_FILE_def)
qed

text \<open>
  C21: the walk through the central directory to the next member ends, for every file, however its headers
  and extra fields are made.
\<close>

theorem zip_walk_ends:
  assumes "length (f_data (zc_f z)) < 2 ^ 62"
  shows "\<exists>r. next_zip_file z = Some r"
  by (rule next_zip_file_terminates [OF assms])

theorem zip_walk_ends_witness:
  "\<exists>z r. open_zip (open_FILE (''data'' @ mk_eocd (replicate 12 NUL) 4 0)) = Some (Some z) \<and> next_zip_file z = Some r"
proof -
  obtain z where z: "open_zip (open_FILE (''data'' @ mk_eocd (replicate 12 NUL) 4 0)) = Some (Some z)"
    "f_data (zc_f z) = ''data'' @ mk_eocd (replicate 12 NUL) 4 0"
    using open_zip_mk [of "open_FILE (''data'' @ mk_eocd (replicate 12 NUL) 4 0)" "replicate 12 NUL" "''data''" 4]
    by (auto simp: open_FILE_def mk_eocd_def)
  then show ?thesis
    using zip_walk_ends [of z] by (auto simp: mk_eocd_def)
qed

section \<open>HTTP\<close>

text \<open>
  C22: the body of a response is a stream.  Over a connection that delivers in any portions what the peer
  sends, the reader keeps the contract of a stream that never fails, with the announced number of bytes as
  its data; its loop ends because it only asks for bytes that are still to come.
\<close>

theorem http_body_is_stream:
  assumes "recv_law net wp wx" "steady net wp wx h"
  shows "reliable_stream (read_https net h) (https_inv wp wx) (https_pending wp wx) https_view"
  by (rule https_reliable [OF assms])

theorem http_body_is_stream_witness:
  "reliable_stream (read_https ex_net ex_heap) (https_inv ex_wp ex_wx) (https_pending ex_wp ex_wx) https_view"
  by (rule http_body_is_stream [OF ex_recv_law ex_steady])

text \<open>
  C23: a connection, plain or encrypted, that has ended or failed inside the header: reading a header line never
  ends exactly when the bytes that are buffered hold no line end and are not more than 512.  The empty view of a
  failed read is taken for a line that is not complete.
\<close>

theorem header_line_hangs:
  assumes "dead net os"
  shows "get_line net h os = None \<longleftrightarrow> CHR 0x0A \<notin> set (unread os) \<and> length (unread os) \<le> 512"
  by (rule get_line_dead [OF assms])

theorem header_line_hangs_witness:
  "get_line (ex_net\<lparr>n_recv := \<lambda>fd room n. (Some [], n)\<rparr>) ex_heap
     \<lparr>os_ctx = None, os_fd = 3, os_port = 80, os_bufsz = 8, os_avail = 7, os_consumed = 2, os_is_https = False,
      os_host = Some ''h'', os_length_remaining = 0, os_buf = [CHR 0x0D, CHR 0x0A] @ ''HTTP/1'', os_net = []\<rparr> = None"
  by (subst header_line_hangs) (simp_all add: dead_def silent_def buf_ok_def unread_def buf_view_def)

text \<open>
  C24: what the loop over \<^verbatim>\<open>send\<close> puts on the wire.  Every call starts at the first byte of the request
  again, so that the peer gets prefixes of the request whose lengths add up to its length: the request
  itself only when the first call takes all of it.
\<close>

theorem request_prefixes_sent:
  assumes "send_law net sent" "send_loop net fd p reqsz n = Some (True, n')" "0 \<le> reqsz" "nat reqsz \<le> length p"
  shows "\<exists>ws. sum_list ws = nat reqsz \<and> (\<forall>w \<in> set ws. 0 < w)
    \<and> sent fd n' = sent fd n @ concat (map (\<lambda>w. take w p) ws)"
  by (rule send_loop_sent [OF assms])

theorem request_prefixes_sent_witness:
  "send_loop (ex_net\<lparr>n_send := \<lambda>fd data n. (int (length (take 1 data)), n @ take 1 data)\<rparr>) 3 ''GET'' 3 []
      = Some (True, ''GGG'')
    \<and> (\<exists>ws. sum_list ws = 3 \<and> ''GGG'' = concat (map (\<lambda>w. take w ''GET'') ws))"
proof -
  let ?net = "ex_net\<lparr>n_send := \<lambda>fd data n. (int (length (take 1 data)), n @ take 1 data)\<rparr>"
  have run: "send_loop ?net 3 ''GET'' 3 [] = Some (True, ''GGG'')"
    by (simp add: send_loop.simps numeral_nat)
  have law: "send_law ?net (\<lambda>fd n. n)"
    by (auto simp: send_law_def min_def)
  have "\<exists>ws. sum_list ws = nat 3 \<and> (\<forall>w \<in> set ws. 0 < w) \<and> ''GGG'' = [] @ concat (map (\<lambda>w. take w ''GET'') ws)"
    by (rule request_prefixes_sent [OF law run]) simp_all
  with run show ?thesis
    by auto
qed

section \<open>Project files\<close>

text \<open>
  C25: the relative path from a project file to a directory.  For paths made of proper names, neither empty nor
  \<^verbatim>\<open>.\<close> nor \<^verbatim>\<open>..\<close>, \<open>print_relative_path\<close> prints components that lead from the directory of the file to the target
  directory, and no sequence of components that leads there is shorter, whatever its steps up and down.
\<close>

theorem relative_path_shortest:
  assumes "\<forall>d \<in> set ds. name_ok d" "\<forall>e \<in> set es. name_ok e" "bsl \<notin> set fn"
  shows "\<exists>cs. print_relative_path (file_path_of ds fn) (dir_path_of es) = concat (map (\<lambda>c. c @ [bsl]) cs)
    \<and> walk ds cs = es
    \<and> (\<forall>cs'. walk ds cs' = es \<longrightarrow> length cs \<le> length cs')"
  using print_relative_path_parts [OF assms] rel_parts_walk [OF assms(2)] rel_parts_shortest by blast

theorem relative_path_shortest_witness:
  "\<exists>cs. print_relative_path (file_path_of [''out'', ''x''] ''a.vcxproj'') (dir_path_of [''out'', ''src'']) = concat (map (\<lambda>c. c @ [bsl]) cs)
    \<and> walk [''out'', ''x''] cs = [''out'', ''src'']"
proof -
  have "\<forall>d \<in> set [''out'', ''x'']. name_ok d" "\<forall>d \<in> set [''out'', ''src'']. name_ok d" "bsl \<notin> set ''a.vcxproj''"
    by (simp_all add: name_ok_def)
  from relative_path_shortest [OF this] show ?thesis by blast
qed

text \<open>
  C26: replacement in a string.  \<open>dup_with_replacement\<close> replaces exactly the occurrences that a search from
  left to right finds, and the size of the buffer it allocates is the length of the result with its end
  mark, so that the copy stays inside.
\<close>

theorem replacement_exact:
  assumes "u \<noteq> []"
  shows "\<exists>xs. xs \<noteq> [] \<and> s = glue u xs \<and> (\<forall>x \<in> set xs. strstr x u = None)
    \<and> dup_with_replacement s u r = Some (of_nat (length (glue r xs) + 1), glue r xs)"
  by (rule dup_with_replacement_ok [OF assms])

theorem replacement_exact_witness:
  "\<exists>xs. ''bin/{}/x{}'' = glue ''{}'' xs \<and> dup_with_replacement ''bin/{}/x{}'' ''{}'' ''win'' = Some (of_nat (length (glue ''win'' xs) + 1), glue ''win'' xs)"
  using replacement_exact [of "''{}''" "''bin/{}/x{}''" "''win''"] by blast

text \<open>
  C27: identifiers.  With a hash of 20 bytes, \<open>generate_uuid\<close> makes a text of 38 characters, which fits its buffer of 40 bytes, and the
  text is an identifier of version 5 and of the RFC 4122 variant.
\<close>

theorem uuid_version_5:
  assumes "length (sha1 (nsuuid @ f)) = 20"
  shows "length (generate_uuid sha1 f) = 38 \<and> generate_uuid sha1 f ! 15 = CHR ''5''
    \<and> generate_uuid sha1 f ! 20 \<in> set ''89AB''"
  using generate_uuid_format [of sha1 f, OF assms] by blast

theorem uuid_version_5_witness:
  "length (generate_uuid (\<lambda>_. replicate 20 (CHR 0xFF)) ''a.vcxproj'') = 38
    \<and> generate_uuid (\<lambda>_. replicate 20 (CHR 0xFF)) ''a.vcxproj'' ! 15 = CHR ''5''"
  using uuid_version_5 [of "\<lambda>_. replicate 20 (CHR 0xFF)" "''a.vcxproj''"] by simp

text \<open>
  C28: the growing array of file names.  \<open>add_file\<close> keeps the invariant that the array holds exactly the
  names added and never more than its capacity; the slot it writes is inside the array, and the size it
  asks \<^verbatim>\<open>realloc\<close> for does not wrap.
\<close>

theorem add_file_in_bounds:
  assumes "files_ok N fl" "length (all_files fl) < N" "N < 2 ^ 59"
  shows "files_ok N (add_file f fl) \<and> all_files (add_file f fl) = all_files fl @ [f]
    \<and> num_files fl < cap_files (add_file f fl)
    \<and> unat (cap_files (add_file f fl) * 8) = unat (cap_files (add_file f fl)) * 8"
  using add_file_ok [OF assms] by blast

theorem add_file_in_bounds_witness:
  "files_ok 10 (add_file ''a.c'' empty_list) \<and> all_files (add_file ''a.c'' empty_list) = [''a.c'']
    \<and> num_files empty_list < cap_files (add_file ''a.c'' empty_list)"
proof -
  have "files_ok 10 empty_list" "length (all_files empty_list) < 10" "all_files empty_list = []"
    by (simp_all add: files_ok_def empty_list_def)
  with add_file_in_bounds [of 10 empty_list "''a.c''"] show ?thesis
    by simp
qed

text \<open>
  C29: the entries of a directory are printed once each, in the ascending order of \<^verbatim>\<open>strcmp\<close>, and the array
  is empty again afterwards.
\<close>

theorem listing_sorted:
  assumes "files_ok N fl" "all_files fl = []" "N < 2 ^ 59"
    and "dir' = replace_char dir bsl (CHR ''/'')" "length (regular ls dir') \<le> N" "regular ls dir' \<noteq> []"
    and "\<forall>x \<in> set (regular ls dir'). NUL \<notin> set x"
  shows "\<exists>names. mset names = mset (regular ls dir') \<and> ascending names
    \<and> fst (print_files ls fn vcx dir fl) = concat (map (fn vcx (replace_char dir' (CHR ''/'') bsl)) names)
    \<and> all_files (snd (snd (print_files ls fn vcx dir fl))) = []"
  using print_files_ok [OF assms(1,2,5,3,4,6), of fn vcx] mset_qsort [of compare_file] qsort_ascending [OF assms(7)]
  by blast

theorem listing_sorted_witness:
  "\<exists>names. mset names = mset [''b.c'', ''a.c''] \<and> ascending names
    \<and> fst (print_files [''src'' \<mapsto> [(''b.c'', True), (''sub'', False), (''a.c'', True)]] print_cfile ''x.vcxproj'' ''src'' empty_list)
        = concat (map (print_cfile ''x.vcxproj'' ''src'') names)"
proof -
  let ?ls = "[''src'' \<mapsto> [(''b.c'', True), (''sub'', False), (''a.c'', True)]]"
  have dir: "replace_char ''src'' bsl (CHR ''/'') = ''src''" "replace_char ''src'' (CHR ''/'') bsl = ''src''"
    by (simp_all add: replace_char_map)
  have reg: "regular ?ls ''src'' = [''b.c'', ''a.c'']"
    by (simp add: regular_def)
  have ok: "files_ok 10 empty_list" "all_files empty_list = []"
    by (simp_all add: files_ok_def empty_list_def)
  show ?thesis
    using listing_sorted [OF ok _ dir(1) [symmetric], of ?ls print_cfile "''x.vcxproj''"] reg dir(2) by auto
qed

text \<open>
  C30: the files of a solution belong together.  With every file writable the program ends with status 0; it
  writes one project file per project and the solution last, each project file declares the identifier made
  from its name, and the solution lists every project under that identifier and with that file.
\<close>

theorem solution_consistent:
  assumes "\<forall>f. can f"
  shows "\<exists>cmds outs sln. write_all sha1 can ls g = Some (0, cmds @ outs @ [(g_slnfile g, sln)])
    \<and> list_all2 (declares sha1) (g_projects g) outs
    \<and> (\<forall>p \<in> set (g_projects g). sublist (sln_project (p_name p) (replace_char (p_file p) (CHR ''/'') bsl)
          (generate_uuid sha1 (p_file p))) sln)"
  by (rule write_all_ok [OF assms])

definition ex_config :: config where
  "ex_config =
     \<lparr>g_projects = [\<lparr>p_name = ''tool'', p_file = ''msvc/tool.vcxproj'', p_target = ''tool.exe'', p_uuid = [], p_dirs = [''src'']\<rparr>],
      g_targets = [], g_defines = [], g_includes = [], g_slnfile = ''all.sln'', g_ninja_exe = ''ninja'',
      g_download_exe = ''download'', g_generate = None\<rparr>"

theorem solution_consistent_witness:
  "\<exists>cmds out sln. write_all (\<lambda>_. replicate 20 NUL) (\<lambda>_. True) Map.empty ex_config = Some (0, cmds @ [out] @ [(''all.sln'', sln)])
    \<and> fst out = ''msvc/tool.vcxproj''
    \<and> sublist (sln_project ''tool'' ([CHR ''m'', CHR ''s'', CHR ''v'', CHR ''c'', bsl] @ ''tool.vcxproj'')
        (generate_uuid (\<lambda>_. replicate 20 NUL) ''msvc/tool.vcxproj'')) sln"
proof -
  have "\<forall>f :: string. (\<lambda>_. True) f"
    by simp
  from solution_consistent [OF this, of "\<lambda>_. replicate 20 NUL" Map.empty ex_config]
  obtain cmds outs sln where w: "write_all (\<lambda>_. replicate 20 NUL) (\<lambda>_. True) Map.empty ex_config = Some (0, cmds @ outs @ [(''all.sln'', sln)])"
    and outs: "list_all2 (declares (\<lambda>_. replicate 20 NUL)) (g_projects ex_config) outs"
    and sln: "\<forall>p \<in> set (g_projects ex_config). sublist (sln_project (p_name p) (replace_char (p_file p) (CHR ''/'') bsl)
        (generate_uuid (\<lambda>_. replicate 20 NUL) (p_file p))) sln"
    by (auto simp: ex_config_def)
  obtain out where "outs = [out]" "fst out = ''msvc/tool.vcxproj''"
    using outs by (auto simp: ex_config_def list_all2_Cons1 declares_def)
  with w sln show ?thesis
    by (auto simp: ex_config_def replace_char_map)
qed


section \<open>The integer routines of the run-time library\<close>

text \<open>
  C31: the shifts of 64 and 128 bit integers, made of shifts of their halves, are the shifts of the
  language for every amount the language allows.
\<close>

theorem shifts_correct:
  fixes a :: "64 word" and b :: "128 word"
  assumes "unat n < 64" "unat m < 128"
  shows "ashldi3 a n = push_bit (unat n) a \<and> lshrdi3 a n = drop_bit (unat n) a \<and> ashrdi3 a n = signed_drop_bit (unat n) a
    \<and> ashlti3 b m = push_bit (unat m) b \<and> lshrti3 b m = drop_bit (unat m) b \<and> ashrti3 b m = signed_drop_bit (unat m) b"
  using assms ashl_ok [where 'h = 32 and 'w = 64 and k = 5] lshr_ok [where 'h = 32 and 'w = 64 and k = 5]
    ashr_ok [where 'h = 32 and 'w = 64 and k = 5] ashl_ok [where 'h = 64 and 'w = 128 and k = 6]
    lshr_ok [where 'h = 64 and 'w = 128 and k = 6] ashr_ok [where 'h = 64 and 'w = 128 and k = 6]
  by (simp add: ashldi3_def lshrdi3_def ashrdi3_def ashlti3_def lshrti3_def ashrti3_def)

theorem shifts_correct_witness:
  "ashldi3 3 33 = push_bit 33 3 \<and> ashrdi3 (- 1) 40 = signed_drop_bit 40 (- 1) \<and> lshrti3 (- 1) 127 = drop_bit 127 (- 1)"
proof -
  have "unat (33 :: 32 word) < 64" "unat (127 :: 32 word) < 128" "unat (40 :: 32 word) < 64"
    by simp_all
  then show ?thesis
    using shifts_correct [of 33 127 3 "- 1"] shifts_correct [of 40 127 "- 1" "- 1"] by simp
qed

text \<open>
  The comparisons of 64 and 128 bit integers by their halves order the values, signed and unsigned.
\<close>

theorem comparisons_correct:
  "cmpdi2 a b = (if a <s b then 0 else if a = b then 1 else 2) \<and> ucmpdi2 a b = (if a < b then 0 else if a = b then 1 else 2)
    \<and> cmpti2 c d = (if c <s d then 0 else if c = d then 1 else 2) \<and> ucmpti2 c d = (if c < d then 0 else if c = d then 1 else 2)"
  by (simp add: cmpdi2_def cmpti2_def ucmpdi2_def ucmpti2_def cmp2_ok ucmp2_ok)

text \<open>
  C32: the checked operations return the exact integer result when it is a value of the type, and abort
  otherwise; the multiplication with a flag sets it exactly when the product does not fit.
\<close>

theorem checked_arithmetic:
  "addvsi3 a b = checked (sint a + sint b) \<and> addvdi3 c d = checked (sint c + sint d) \<and> addvti3 e f = checked (sint e + sint f)
    \<and> subvsi3 a b = checked (sint a - sint b) \<and> subvdi3 c d = checked (sint c - sint d) \<and> subvti3 e f = checked (sint e - sint f)
    \<and> mulvsi3 a b = checked (sint a * sint b) \<and> mulvdi3 c d = checked (sint c * sint d) \<and> mulvti3 e f = checked (sint e * sint f)
    \<and> negvsi2 a = checked (- sint a) \<and> negvdi2 c = checked (- sint c) \<and> negvti2 e = checked (- sint e)
    \<and> absvsi2 a = checked \<bar>sint a\<bar> \<and> absvdi2 c = checked \<bar>sint c\<bar> \<and> absvti2 e = checked \<bar>sint e\<bar>
    \<and> mulosi4 a b = (a * b, \<not> fits TYPE(32) (sint a * sint b)) \<and> mulodi4 c d = (c * d, \<not> fits TYPE(64) (sint c * sint d))
    \<and> muloti4 e f = (e * f, \<not> fits TYPE(128) (sint e * sint f))"
  by (simp add: checked_ok mulo_ok addvsi3_def addvdi3_def addvti3_def subvsi3_def subvdi3_def subvti3_def mulvsi3_def
      mulvdi3_def mulvti3_def negvsi2_def negvdi2_def negvti2_def absvsi2_def absvdi2_def absvti2_def mulosi4_def
      mulodi4_def muloti4_def)

text \<open>
  C33: the product of two-word integers, built from half-word products with their carries, is the product
  modulo the size of the type.
\<close>

theorem products_correct: "muldi3 a b = a * b \<and> multi3 c d = c * d"
  using mul2_ok [where 'h = 32 and 'w = 64 and k = 16] mul2_ok [where 'h = 64 and 'w = 128 and k = 32]
  by (simp add: muldi3_def multi3_def)

text \<open>
  C34: division, at 32, 64 and 128 bits.  The unsigned division by shifting and subtracting gives the quotient and the
  remainder for every divisor but zero, and the signed routines truncate as the language demands.  For a zero
  divisor the unsigned 32 bit routines return 0 and the dividend; the others divide by zero themselves, which the
  language leaves undefined (\<open>None\<close>).
\<close>

theorem divisions_correct:
  "udivsi3 m n = (if n = 0 then 0 else m div n)
    \<and> umodsi3 m n = (if n = 0 then m else m mod n)
    \<and> udivmodsi4 m n = (if n = 0 then (0, m) else (m div n, m mod n))
    \<and> divsi3 m n = (if n = 0 then None else Some (word_of_int (sint m sdiv sint n)))
    \<and> modsi3 m n = (if n = 0 then None else Some (word_of_int (sint m smod sint n)))
    \<and> udivmoddi4 a b = (if b = 0 then None else Some (a div b, a mod b))
    \<and> udivdi3 a b = (if b = 0 then None else Some (a div b))
    \<and> umoddi3 a b = (if b = 0 then None else Some (a mod b))
    \<and> divdi3 a b = (if b = 0 then None else Some (word_of_int (sint a sdiv sint b)))
    \<and> moddi3 a b = (if b = 0 then None else Some (word_of_int (sint a smod sint b)))
    \<and> udivmodti4 c d = (if d = 0 then None else Some (c div d, c mod d))
    \<and> udivti3 c d = (if d = 0 then None else Some (c div d))
    \<and> umodti3 c d = (if d = 0 then None else Some (c mod d))
    \<and> divti3 c d = (if d = 0 then None else Some (word_of_int (sint c sdiv sint d)))
    \<and> modti3 c d = (if d = 0 then None else Some (word_of_int (sint c smod sint d)))"
  unfolding divdi3_def moddi3_def divti3_def modti3_def
    div3_ok [OF udivmoddi4_ok] div3_ok [OF udivmodti4_ok] udivsi3_ok udivmodsi_ok divsi3_ok divmodsi_ok
    udiv_ok udivmoddi4_ok udivmodti4_ok
  by simp

text \<open>
  C35: counting zeros.  For every integer but zero the leading-zero routines locate the highest set bit and
  the trailing-zero routines the lowest, and find-first-set is one more than the latter, and 0 for 0.
\<close>

theorem bit_counts_correct:
  fixes a :: "32 word" and b :: "64 word" and c :: "128 word"
  assumes "a \<noteq> 0" "b \<noteq> 0" "c \<noteq> 0"
  shows "(unat a < 2 ^ k \<longleftrightarrow> 32 \<le> unat (clzsi2 a) + k) \<and> (2 ^ k dvd unat a \<longleftrightarrow> k \<le> unat (ctzsi2 a))
    \<and> (unat b < 2 ^ k \<longleftrightarrow> 64 \<le> unat (clzdi2 b) + k) \<and> (2 ^ k dvd unat b \<longleftrightarrow> k \<le> unat (ctzdi2 b))
    \<and> (unat c < 2 ^ k \<longleftrightarrow> 128 \<le> unat (clzti2 c) + k) \<and> (2 ^ k dvd unat c \<longleftrightarrow> k \<le> unat (ctzti2 c))
    \<and> unat (ffsdi2 b) = unat (ctzdi2 b) + 1 \<and> unat (ffsti2 c) = unat (ctzti2 c) + 1 \<and> ffsdi2 0 = 0 \<and> ffsti2 0 = 0"
proof -
  have "unat (clzdi2 b) = builtin_clz b" "unat (clzti2 c) = builtin_clz c"
    unfolding clzdi2_def clzti2_def by (rule clz2_ok; simp)+
  moreover have "unat (ctzdi2 b) = builtin_ctz b" "unat (ctzti2 c) = builtin_ctz c"
    unfolding ctzdi2_def ctzti2_def by (rule ctz2_ok; simp add: assms)+
  moreover have "unat (ffsdi2 b) = builtin_ctz b + 1" "unat (ffsti2 c) = builtin_ctz c + 1"
    using ffs2_ok [where 'h = 32 and a = b] ffs2_ok [where 'h = 64 and a = c] assms by (simp_all add: ffsdi2_def ffsti2_def)
  moreover have "ffsdi2 0 = 0" "ffsti2 0 = 0"
    using ffs2_ok [where 'h = 32 and a = "0 :: 64 word"] ffs2_ok [where 'h = 64 and a = "0 :: 128 word"]
    by (simp_all add: ffsdi2_def ffsti2_def)
  ultimately show ?thesis
    using clzsi2_ok [of a] ctzsi2_ok [OF assms(1)] clz_bound [of a k] clz_bound [of b k] clz_bound [of c k]
      ctz_dvd [OF assms(1), of k] ctz_dvd [OF assms(2), of k] ctz_dvd [OF assms(3), of k] by simp
qed

theorem bit_counts_correct_witness:
  "(unat (12 :: 64 word) < 2 ^ 4 \<longleftrightarrow> 64 \<le> unat (clzdi2 12) + 4) \<and> (2 ^ 2 dvd unat (12 :: 64 word) \<longleftrightarrow> 2 \<le> unat (ctzdi2 12))"
  using bit_counts_correct [of 1 12 1 4] bit_counts_correct [of 1 12 1 2] by simp

section \<open>Floating point routines\<close>

text \<open>
  C36: comparison of floating point numbers, on their representations, is the order of the numbers they stand
  for, with both zeros equal, the infinities at the ends and the result for an operand that is not a number as
  documented; in single, double and quad precision.
\<close>

theorem float_comparison_correct:
  "lesf2 a b = ieee_compare 1 (fp_decode 23 a) (fp_decode 23 b) \<and> gesf2 a b = ieee_compare (- 1) (fp_decode 23 a) (fp_decode 23 b)
   \<and> eqsf2 a b = lesf2 a b \<and> ltsf2 a b = lesf2 a b \<and> nesf2 a b = lesf2 a b \<and> gtsf2 a b = gesf2 a b
   \<and> unordsf2 a b = of_bool (fp_decode 23 a = Not_a_number \<or> fp_decode 23 b = Not_a_number)
   \<and> ledf2 c d = ieee_compare 1 (fp_decode 52 c) (fp_decode 52 d) \<and> gedf2 c d = ieee_compare (- 1) (fp_decode 52 c) (fp_decode 52 d)
   \<and> eqdf2 c d = ledf2 c d \<and> ltdf2 c d = ledf2 c d \<and> nedf2 c d = ledf2 c d \<and> gtdf2 c d = gedf2 c d
   \<and> unorddf2 c d = of_bool (fp_decode 52 c = Not_a_number \<or> fp_decode 52 d = Not_a_number)
   \<and> letf2 x y = ieee_compare 1 (fp_decode 112 x) (fp_decode 112 y) \<and> getf2 x y = ieee_compare (- 1) (fp_decode 112 x) (fp_decode 112 y)
   \<and> eqtf2 x y = letf2 x y \<and> lttf2 x y = letf2 x y \<and> netf2 x y = letf2 x y \<and> gttf2 x y = getf2 x y
   \<and> unordtf2 x y = of_bool (fp_decode 112 x = Not_a_number \<or> fp_decode 112 y = Not_a_number)"
  by (simp add: lesf2_def gesf2_def eqsf2_def ltsf2_def nesf2_def gtsf2_def unordsf2_def
      ledf2_def gedf2_def eqdf2_def ltdf2_def nedf2_def gtdf2_def unorddf2_def
      letf2_def getf2_def eqtf2_def lttf2_def netf2_def gttf2_def unordtf2_def fp_compare_ok fp_unord_ok)

text \<open>
  C37: conversion of a number to an integer.  A signed result is the number cut off towards zero when that
  fits, and the extreme integer when the magnitude of the number is at least the size of the type.  A number
  between these, of either sign, for which the comment in the code announces saturation, gives the number
  modulo the size of the type, which has the wrong sign.  An unsigned result is the integral part within the
  range of the type.
\<close>

theorem float_to_integer:
  assumes "fp_decode 23 a = Finite u" "fp_decode 52 b = Finite v" "fp_decode 112 c = Finite w"
  shows "truncates u (fixsfsi a) \<and> truncates u (fixsfdi a) \<and> truncates u (fixsfti a)
    \<and> truncates v (fixdfsi b) \<and> truncates v (fixdfdi b) \<and> truncates v (fixdfti b)
    \<and> truncates w (fixtfsi c) \<and> truncates w (fixtfdi c) \<and> truncates w (fixtfti c)
    \<and> clamps u (fixunssfsi a) \<and> clamps u (fixunssfdi a) \<and> clamps u (fixunssfti a)
    \<and> clamps v (fixunsdfsi b) \<and> clamps v (fixunsdfdi b) \<and> clamps v (fixunsdfti b)
    \<and> clamps w (fixunstfsi c) \<and> clamps w (fixunstfdi c) \<and> clamps w (fixunstfti c)"
  unfolding fixsfsi_def fixsfdi_def fixsfti_def fixdfsi_def fixdfdi_def fixdfti_def fixtfsi_def fixtfdi_def fixtfti_def
    fixunssfsi_def fixunssfdi_def fixunssfti_def fixunsdfsi_def fixunsdfdi_def fixunsdfti_def
    fixunstfsi_def fixunstfdi_def fixunstfti_def
  using assms by (simp add: fixint_truncates fixuint_clamps)

theorem float_to_integer_witness:
  "sint (fixsfsi 0xC0200000) = - 2 \<and> sint (fixsfsi 0x4F000000) = - (2 ^ 31) \<and> sint (fixsfsi 0xCF400000) = 2 ^ 30
    \<and> uint (fixunssfsi 0x4F000000) = 2 ^ 31"
proof -
  note fp = fp_decode_def fp_abs_def fp_neg_def fp_magnitude_def Let_def maxExponent_def exponentBits_def
  have zero: "fp_decode 52 (0 :: 64 word) = Finite 0" "fp_decode 112 (0 :: 128 word) = Finite 0"
    by (simp_all add: fp_decode_zero)
  have neg: "fp_decode 23 (0xC0200000 :: 32 word) = Finite (- (5 / 2))"
    and big: "fp_decode 23 (0x4F000000 :: 32 word) = Finite (2 ^ 31)"
    and low: "fp_decode 23 (0xCF400000 :: 32 word) = Finite (- (3 * 2 ^ 30))"
    by (simp_all add: fp)
  show ?thesis
    using float_to_integer [OF neg zero] float_to_integer [OF big zero] float_to_integer [OF low zero]
    by (simp add: truncates_def clamps_def toward_zero_def Let_def)
qed

text \<open>
  C38: conversion of an integer to a number.  A 32 bit integer becomes the single precision number nearest to
  it, with at most 24 significant bits and the even one on a tie; in double and quad precision it is exact.
\<close>

theorem integer_to_float:
  "fp_decode 23 (floatsisf a) = Finite (sgn (sint a) * real (rounded 23 (nat \<bar>sint a\<bar>)))
   \<and> fp_decode 23 (floatunsisf a) = Finite (real (rounded 23 (unat a)))
   \<and> fp_decode 52 (floatsidf a) = Finite (real_of_int (sint a)) \<and> fp_decode 52 (floatunsidf a) = Finite (real (unat a))
   \<and> fp_decode 112 (floatsitf a) = Finite (real_of_int (sint a)) \<and> fp_decode 112 (floatunsitf a) = Finite (real (unat a))
   \<and> fp_decode 112 (floatditf b) = Finite (real_of_int (sint b)) \<and> fp_decode 112 (floatunditf b) = Finite (real (unat b))
   \<and> (2 * \<bar>int (rounded 23 n) - int n\<bar> < 2 ^ (nbits n - 24)
      \<or> 2 * \<bar>int (rounded 23 n) - int n\<bar> = 2 ^ (nbits n - 24) \<and> even (rounded 23 n div 2 ^ (nbits n - 24)))"
proof -
  have "2 * \<bar>int (rounded 23 n) - int n\<bar> < 2 ^ (nbits n - 24)
      \<or> 2 * \<bar>int (rounded 23 n) - int n\<bar> = 2 ^ (nbits n - 24) \<and> even (rounded 23 n div 2 ^ (nbits n - 24))"
    by (rule rounded_nearest)
  then show ?thesis
    unfolding floatsidf_def floatunsidf_def floatsitf_def floatunsitf_def floatditf_def floatunditf_def
    by (intro conjI float_round_instances float_exact_instances) simp_all
qed

text \<open>
  C39: conversion to a wider format keeps the number, for normal and denormal numbers, zeros, infinities and
  operands that are not a number; and conversion back gives the same representation, unless it is not a number.
\<close>

theorem widening_exact:
  "fp_decode 23 (extendhfsf2 h) = fp_decode 10 h \<and> fp_decode 52 (extendsfdf2 a) = fp_decode 23 a
   \<and> fp_decode 112 (extendsftf2 a) = fp_decode 23 a \<and> fp_decode 112 (extenddftf2 b) = fp_decode 52 b
   \<and> (fp_decode 10 h \<noteq> Not_a_number \<longrightarrow> truncsfhf2 (extendhfsf2 h) = h)
   \<and> (fp_decode 23 a \<noteq> Not_a_number \<longrightarrow> truncdfsf2 (extendsfdf2 a) = a \<and> trunctfsf2 (extendsftf2 a) = a)
   \<and> (fp_decode 52 b \<noteq> Not_a_number \<longrightarrow> trunctfdf2 (extenddftf2 b) = b)"
  by (simp add: extendhfsf2_def extendsfdf2_def extendsftf2_def extenddftf2_def extend_ok
      truncsfhf2_def truncdfsf2_def trunctfsf2_def trunctfdf2_def trunc_extend)

theorem widening_exact_witness:
  "truncsfhf2 (extendhfsf2 1) = 1 \<and> truncdfsf2 (extendsfdf2 1) = 1 \<and> trunctfsf2 (extendsftf2 1) = 1
   \<and> trunctfdf2 (extenddftf2 1) = 1"
proof -
  have "fp_decode 10 (1 :: 16 word) \<noteq> Not_a_number" "fp_decode 23 (1 :: 32 word) \<noteq> Not_a_number"
    "fp_decode 52 (1 :: 64 word) \<noteq> Not_a_number"
    by (simp_all add: fp_nan_iff fp_abs_def maxExponent_def exponentBits_def)
  then show ?thesis
    using widening_exact [of 1 1 1] by simp
qed

text \<open>
  C40: conversion to a narrower format keeps the sign and rounds to the nearest number of the format, ties to
  even, also into the denormal numbers; what rounds to the first number after the finite ones is infinite.
\<close>

theorem narrowing_nearest:
  "narrows 52 a 23 (truncdfsf2 a) \<and> narrows 52 a 10 (truncdfhf2 a) \<and> narrows 23 b 10 (truncsfhf2 b)
   \<and> narrows 112 c 52 (trunctfdf2 c) \<and> narrows 112 c 23 (trunctfsf2 c)"
  by (simp add: truncdfsf2_def truncdfhf2_def truncsfhf2_def trunctfdf2_def trunctfsf2_def trunc_ok)

end
